(* ===== verification/Forge_Prelude.thy ===== *)
theory Forge_Prelude
  imports Main "HOL-Library.Word" "HOL-Library.List_Lexorder" "HOL-Library.Char_ord"
begin

text \<open>
  The prelude of the Forge development: machine integer types, the error values of
  \<^verbatim>\<open>include/forge/error.hpp\<close> (\<open>ErrorCode\<close>, \<open>Status\<close>, \<open>Result\<close>, \<open>Limits\<close>), the identifiers of
  \<^verbatim>\<open>include/forge/ids.hpp\<close> with their total orders, and the model of \<open>std::map\<close> and \<open>std::set\<close>
  (entries in increasing key order, as iteration over them visits the entries) behind the
  locale \<open>ordered_map\<close>. The locale \<open>simulation\<close> lifts one step of a component to runs.
\<close>

section \<open>Machine integers and bytes\<close>

type_synonym u8 = "8 word"
type_synonym u16 = "16 word"
type_synonym u32 = "32 word"
type_synonym u64 = "64 word"
type_synonym Bytes = "u8 list"

named_theorems forge_inv "invariant preservation facts"

section \<open>Errors as values\<close>

datatype ErrorCode =
    ec_ok | ec_usage | ec_protocol | ec_format | ec_graph_conflict | ec_cycle | ec_path
  | ec_input_unstable | ec_executor | ec_artifact | ec_state_recovery | ec_resource_limit
  | ec_backpressure | ec_cancelled | ec_io | ec_internal_invariant

record Status =
  code :: ErrorCode
  component :: string
  message :: string
  st_generation :: u64
  st_id :: u64
  offset :: nat

definition success :: Status where
  "success = \<lparr>code = ec_ok, component = [], message = [], st_generation = 0, st_id = 0, offset = 0\<rparr>"

definition error :: "ErrorCode \<Rightarrow> string \<Rightarrow> string \<Rightarrow> Status" where
  "error c cm msg = \<lparr>code = c, component = cm, message = msg, st_generation = 0, st_id = 0, offset = 0\<rparr>"

definition status_ok :: "Status \<Rightarrow> bool" where
  "status_ok s \<longleftrightarrow> code s = ec_ok"

text \<open>
  \<open>Result<T>\<close> holds a value or a failed status; the code never builds a \<open>Result\<close> from a
  successful status, so the failed side is \<open>Inl\<close>.
\<close>

type_synonym 'a Result = "Status + 'a"

text \<open>
  The exception that a call of \<open>std::filesystem\<close> without an error code throws. It leaves all
  functions that are active, as an error that every caller returns at once would do; so it is an
  \<open>Inl\<close> value of its own.
\<close>

definition filesystem_exception :: Status where
  "filesystem_exception = error ec_io ''std::filesystem'' ''filesystem_error''"

lemma error_sel [simp]:
  "code (error c cm msg) = c" "component (error c cm msg) = cm"
  "message (error c cm msg) = msg"
  by (simp_all add: error_def)

lemma status_ok_simps [simp]: "status_ok success" "status_ok (error c cm msg) \<longleftrightarrow> c = ec_ok"
  by (simp_all add: status_ok_def success_def)

record Limits =
  max_frame_bytes :: u32
  max_payload_bytes :: u32
  max_streams :: u32
  max_nodes :: u32
  max_edges :: u32
  max_discovered_edges :: u32
  max_event_backlog_bytes :: u32
  max_single_allocation :: u32

definition default_limits :: Limits where
  "default_limits = \<lparr>max_frame_bytes = 16 * 1024 * 1024, max_payload_bytes = 16 * 1024 * 1024,
     max_streams = 1024, max_nodes = 500000, max_edges = 2000000, max_discovered_edges = 200000,
     max_event_backlog_bytes = 8 * 1024 * 1024, max_single_allocation = 32 * 1024 * 1024\<rparr>"

section \<open>Identifiers and generations\<close>

text \<open>\<open>Id<Tag>\<close> is a phantom-typed 64-bit value, ordered by its value.\<close>

datatype 'tag Id = Id (id_value: u64)

datatype NodeTag = NodeTag
datatype EdgeTag = EdgeTag
datatype RequestTag = RequestTag
datatype JobTag = JobTag
datatype LeaseTag = LeaseTag
datatype StreamTag = StreamTag
datatype ArtifactTag = ArtifactTag
datatype WorkspaceTag = WorkspaceTag

type_synonym NodeId = "NodeTag Id"
type_synonym EdgeId = "EdgeTag Id"
type_synonym RequestId = "RequestTag Id"
type_synonym JobId = "JobTag Id"
type_synonym LeaseId = "LeaseTag Id"
type_synonym StreamId = "StreamTag Id"
type_synonym ArtifactId = "ArtifactTag Id"
type_synonym WorkspaceId = "WorkspaceTag Id"

definition id_bool :: "'tag Id \<Rightarrow> bool" where
  "id_bool i \<longleftrightarrow> id_value i \<noteq> 0"

datatype Generation = Generation (gen_value: u64)

definition gen_next :: "Generation \<Rightarrow> Generation" where
  "gen_next g = Generation (gen_value g + 1)"

definition gen_default :: Generation where
  "gen_default = Generation 1"

record 'tag Handle =
  hd_id :: "'tag Id"
  hd_generation :: Generation

definition new_handle :: "'tag Handle" where
  "new_handle = \<lparr>hd_id = Id 0, hd_generation = gen_default\<rparr>"

text \<open>\<open>std::to_string\<close> of an unsigned integer.\<close>

definition decimal_digit :: "nat \<Rightarrow> char" where
  "decimal_digit d = char_of (48 + d)"

fun decimal :: "nat \<Rightarrow> string" where
  "decimal n = (if n < 10 then [decimal_digit n] else decimal (n div 10) @ [decimal_digit (n mod 10)])"

declare decimal.simps [simp del]

definition id_string :: "'tag Id \<Rightarrow> string" where
  "id_string i = decimal (unat (id_value i))"

instantiation Id :: (type) linorder
begin

definition less_eq_Id :: "'a Id \<Rightarrow> 'a Id \<Rightarrow> bool" where
  "less_eq_Id x y \<longleftrightarrow> id_value x \<le> id_value y"

definition less_Id :: "'a Id \<Rightarrow> 'a Id \<Rightarrow> bool" where
  "less_Id x y \<longleftrightarrow> id_value x < id_value y"

instance
  by standard (auto simp: less_eq_Id_def less_Id_def Id.expand)

end

instantiation Generation :: linorder
begin

definition less_eq_Generation :: "Generation \<Rightarrow> Generation \<Rightarrow> bool" where
  "less_eq_Generation x y \<longleftrightarrow> gen_value x \<le> gen_value y"

definition less_Generation :: "Generation \<Rightarrow> Generation \<Rightarrow> bool" where
  "less_Generation x y \<longleftrightarrow> gen_value x < gen_value y"

instance
  by standard (auto simp: less_eq_Generation_def less_Generation_def Generation.expand)

end

lemma Id_less_iff [simp]: "Id a < Id b \<longleftrightarrow> a < b" "Id a \<le> Id b \<longleftrightarrow> a \<le> b"
  by (simp_all add: less_Id_def less_eq_Id_def)

lemma Generation_less_iff [simp]:
  "Generation a < Generation b \<longleftrightarrow> a < b" "Generation a \<le> Generation b \<longleftrightarrow> a \<le> b"
  by (simp_all add: less_Generation_def less_eq_Generation_def)

lemma gen_next_neq [simp]: "gen_next g \<noteq> g" "g \<noteq> gen_next g"
  by (cases g; simp add: gen_next_def)+

text \<open>A generation grows as long as its 64-bit counter has not reached its last value.\<close>

lemma word_less_succ: "(x :: 'a :: len word) \<noteq> - 1 \<Longrightarrow> x < x + 1"
  by (metis inc_less_eq_triv_imp linorder_less_linear word_le_less_eq)

lemma gen_less_next: "gen_value g \<noteq> - 1 \<Longrightarrow> g < gen_next g"
  by (cases g) (simp add: gen_next_def word_less_succ)

lemma of_char_digit: "d < 10 \<Longrightarrow> of_char (decimal_digit d) = 48 + d"
  by (simp add: decimal_digit_def)

lemma decimal_read: "foldl (\<lambda>a c. a * 10 + (of_char c - 48)) 0 (decimal n) = n"
proof (induction n rule: decimal.induct)
  case (1 n)
  then show ?case by (subst decimal.simps) (simp add: of_char_digit)
qed

lemma decimal_inj [simp]: "decimal m = decimal n \<longleftrightarrow> m = n"
  by (metis decimal_read)

lemma id_string_inj [simp]: "id_string i = id_string j \<longleftrightarrow> i = j"
  by (cases i; cases j) (simp add: id_string_def word_unat_eq_iff)

section \<open>Ordered maps\<close>

text \<open>
  The interface the components rely on when they use a \<open>std::map\<close>: the entries are kept in
  increasing key order, a lookup reads them, an assignment replaces or adds one entry and an
  erasure drops one.
\<close>

locale ordered_map =
  fixes invar :: "'m \<Rightarrow> bool"
    and entries :: "'m \<Rightarrow> ('k :: linorder \<times> 'v) list"
    and find :: "'m \<Rightarrow> 'k \<Rightarrow> 'v option"
    and put :: "'k \<Rightarrow> 'v \<Rightarrow> 'm \<Rightarrow> 'm"
    and erase :: "'k \<Rightarrow> 'm \<Rightarrow> 'm"
  assumes entries_sorted: "invar m \<Longrightarrow> sorted_wrt (<) (map fst (entries m))"
    and find_entries: "invar m \<Longrightarrow> find m k = map_of (entries m) k"
    and find_put: "invar m \<Longrightarrow> find (put k v m) = (find m)(k \<mapsto> v)"
    and find_erase: "invar m \<Longrightarrow> find (erase k m) = (find m)(k := None)"
    and invar_put: "invar m \<Longrightarrow> invar (put k v m)"
    and invar_erase: "invar m \<Longrightarrow> invar (erase k m)"
begin

lemma entries_distinct: "invar m \<Longrightarrow> distinct (map fst (entries m))"
  using entries_sorted strict_sorted_iff by blast

lemma find_Some_iff: "invar m \<Longrightarrow> find m k = Some v \<longleftrightarrow> (k, v) \<in> set (entries m)"
  by (simp add: entries_distinct find_entries)

text \<open>A map is determined by its lookups: the iteration order carries no history.\<close>

lemma entries_ext:
  assumes "invar m" "invar m'" "\<And>k. find m k = find m' k"
  shows "entries m = entries m'"
proof -
  have "set (entries m) = set (entries m')"
    using assms find_Some_iff [of m] find_Some_iff [of m'] by auto
  moreover have "inj_on fst (set (entries m))"
    using assms(1) entries_distinct distinct_map by blast
  moreover have "sorted (map fst (entries m))" "sorted (map fst (entries m'))"
    using assms(1,2) entries_sorted strict_sorted_iff by blast+
  ultimately show ?thesis
    using assms(1,2) by (intro map_sorted_distinct_set_unique [of fst]) (auto simp: entries_distinct)
qed

lemma put_commute_entries:
  assumes "invar m" "k \<noteq> l"
  shows "entries (put k v (put l w m)) = entries (put l w (put k v m))"
  using assms by (intro entries_ext) (auto simp: invar_put find_put fun_upd_twist)

lemma put_put_entries:
  assumes "invar m"
  shows "entries (put k v (put k w m)) = entries (put k v m)"
  using assms by (intro entries_ext) (auto simp: invar_put find_put)

lemma erase_put_entries:
  assumes "invar m" "find m k = None"
  shows "entries (erase k (put k v m)) = entries m"
  using assms by (intro entries_ext) (auto simp: invar_put invar_erase find_put find_erase)

end

text \<open>The model of \<open>std::map\<close>: an association list in increasing key order.\<close>

type_synonym ('k, 'v) std_map = "('k \<times> 'v) list"

definition sm_ok :: "('k :: linorder, 'v) std_map \<Rightarrow> bool" where
  "sm_ok m \<longleftrightarrow> sorted_wrt (<) (map fst m)"

definition sm_find :: "('k, 'v) std_map \<Rightarrow> 'k \<Rightarrow> 'v option" where
  "sm_find m k = map_of m k"

definition sm_contains :: "('k, 'v) std_map \<Rightarrow> 'k \<Rightarrow> bool" where
  "sm_contains m k \<longleftrightarrow> sm_find m k \<noteq> None"

fun sm_put :: "'k :: linorder \<Rightarrow> 'v \<Rightarrow> ('k, 'v) std_map \<Rightarrow> ('k, 'v) std_map" where
  "sm_put k v [] = [(k, v)]"
| "sm_put k v (e # m) =
     (if fst e < k then e # sm_put k v m
      else if fst e = k then (k, v) # m
      else (k, v) # e # m)"

definition sm_erase :: "'k \<Rightarrow> ('k, 'v) std_map \<Rightarrow> ('k, 'v) std_map" where
  "sm_erase k m = filter (\<lambda>e. fst e \<noteq> k) m"

definition sm_keys :: "('k, 'v) std_map \<Rightarrow> 'k list" where
  "sm_keys m = map fst m"

lemma sm_ok_Nil [simp]: "sm_ok []"
  by (simp add: sm_ok_def)

lemma sm_find_Nil [simp]: "sm_find [] k = None"
  by (simp add: sm_find_def)

lemma sm_find_Cons [simp]: "sm_find ((k', v) # m) k = (if k = k' then Some v else sm_find m k)"
  by (simp add: sm_find_def)

lemma sm_find_put [simp]: "sm_find (sm_put k v m) = (sm_find m)(k \<mapsto> v)"
  by (induction k v m rule: sm_put.induct) (auto simp: sm_find_def fun_eq_iff)

lemma sm_find_erase [simp]: "sm_find (sm_erase k m) = (sm_find m)(k := None)"
  by (induction m) (auto simp: sm_find_def sm_erase_def fun_eq_iff)

lemma set_sm_put: "set (map fst (sm_put k v m)) = insert k (set (map fst m))"
  by (induction k v m rule: sm_put.induct) auto

lemma sm_ok_put [simp, forge_inv]: "sm_ok m \<Longrightarrow> sm_ok (sm_put k v m)"
proof (induction k v m rule: sm_put.induct)
  case (2 k v e m)
  then show ?case
    using set_sm_put [of k v m] by (force simp: sm_ok_def)
qed (simp add: sm_ok_def)

lemma sm_ok_filter [simp, forge_inv]: "sm_ok m \<Longrightarrow> sm_ok (filter P m)"
  by (induction m) (auto simp: sm_ok_def)

lemma sm_ok_erase [simp, forge_inv]: "sm_ok m \<Longrightarrow> sm_ok (sm_erase k m)"
  by (simp add: sm_erase_def)

interpretation std_map: ordered_map sm_ok "\<lambda>m. m" sm_find sm_put sm_erase
  by unfold_locales (simp_all, simp_all add: sm_ok_def sm_find_def)

lemma sm_contains_iff: "sm_contains m k \<longleftrightarrow> k \<in> fst ` set m"
  by (simp add: sm_contains_def sm_find_def map_of_eq_None_iff)

lemma sm_find_mem: "sm_find m k = Some v \<Longrightarrow> (k, v) \<in> set m"
  by (simp add: sm_find_def map_of_SomeD)

lemma sm_find_None_iff: "sm_find m k = None \<longleftrightarrow> k \<notin> fst ` set m"
  by (simp add: sm_find_def map_of_eq_None_iff)

text \<open>The model of \<open>std::set\<close>: the keys of a map to unit, as an increasing list.\<close>

fun ss_insert :: "'k :: linorder \<Rightarrow> 'k list \<Rightarrow> 'k list" where
  "ss_insert x [] = [x]"
| "ss_insert x (y # ys) = (if y < x then y # ss_insert x ys else if y = x then y # ys else x # y # ys)"

lemma set_ss_insert [simp]: "set (ss_insert x ys) = insert x (set ys)"
  by (induction x ys rule: ss_insert.induct) auto

lemma sorted_ss_insert [simp, forge_inv]: "sorted_wrt (<) ys \<Longrightarrow> sorted_wrt (<) (ss_insert x ys)"
  by (induction x ys rule: ss_insert.induct) auto

lemma distinct_ss_insert: "sorted_wrt (<) ys \<Longrightarrow> distinct (ss_insert x ys)"
  using sorted_ss_insert [of ys x] strict_sorted_iff by blast

section \<open>Runs of operations\<close>

text \<open>
  A component as a machine: a step takes a state and an operation and returns the next state and
  the answer. A specification relates states, operations and answers.
\<close>

fun run_ops :: "('s \<Rightarrow> 'op \<Rightarrow> 's \<times> 'r) \<Rightarrow> 's \<Rightarrow> 'op list \<Rightarrow> 's \<times> 'r list" where
  "run_ops step s [] = (s, [])"
| "run_ops step s (op # ops) =
     (case step s op of (s1, r) \<Rightarrow> case run_ops step s1 ops of (s2, rs) \<Rightarrow> (s2, r # rs))"

inductive spec_run :: "('a \<Rightarrow> 'op \<Rightarrow> 'r \<Rightarrow> 'a \<Rightarrow> bool) \<Rightarrow> 'a \<Rightarrow> 'op list \<Rightarrow> 'r list \<Rightarrow> 'a \<Rightarrow> bool" for spec where
  spec_run_Nil: "spec_run spec a [] [] a"
| spec_run_Cons: "\<lbrakk>spec a op r a1; spec_run spec a1 ops rs a2\<rbrakk> \<Longrightarrow> spec_run spec a (op # ops) (r # rs) a2"

inductive_cases spec_run_NilE: "spec_run spec a [] rs a'"
inductive_cases spec_run_ConsE: "spec_run spec a (op # ops) rs a'"

text \<open>
  Forward simulation with a budget: every operation costs something, and as long as the costs so far
  stay below the room of the counters of the machine, a step of the machine is a step of the
  specification.
\<close>

locale simulation =
  fixes step :: "'s \<Rightarrow> 'op \<Rightarrow> 's \<times> 'r"
    and spec :: "'a \<Rightarrow> 'op \<Rightarrow> 'r \<Rightarrow> 'a \<Rightarrow> bool"
    and rel :: "nat \<Rightarrow> 's \<Rightarrow> 'a \<Rightarrow> bool"
    and ok :: "'op \<Rightarrow> bool"
    and cost :: "'op \<Rightarrow> nat"
    and room :: nat
  assumes simulates: "\<lbrakk>rel n s a; ok op; n + cost op < room; step s op = (s', r)\<rbrakk>
    \<Longrightarrow> \<exists>a'. spec a op r a' \<and> rel (n + cost op) s' a'"
begin

lemma run_simulates:
  "\<lbrakk>rel n s a; list_all ok ops; n + sum_list (map cost ops) < room; run_ops step s ops = (s', rs)\<rbrakk>
   \<Longrightarrow> \<exists>a'. spec_run spec a ops rs a' \<and> rel (n + sum_list (map cost ops)) s' a'"
proof (induction ops arbitrary: n s a rs)
  case Nil
  then show ?case by (auto intro: spec_run_Nil)
next
  case (Cons op ops)
  obtain s1 r rs1 where s1: "step s op = (s1, r)" "run_ops step s1 ops = (s', rs1)" "rs = r # rs1"
    using Cons.prems(4) by (auto split: prod.splits)
  obtain a1 where a1: "spec a op r a1" "rel (n + cost op) s1 a1"
    using simulates [OF Cons.prems(1) _ _ s1(1)] Cons.prems(2,3) by auto
  obtain a' where "spec_run spec a1 ops rs1 a'" "rel (n + cost op + sum_list (map cost ops)) s' a'"
    using Cons.IH [OF a1(2) _ _ s1(2)] Cons.prems(2,3) by auto
  then show ?case using spec_run_Cons [of spec, OF a1(1)] unfolding s1(3) by (auto simp: add.assoc)
qed

end

end
