(* ===== verification/Forge_Base.thy ===== *)
theory Forge_Base
  imports Forge_Prelude
begin

text \<open>
  The base layer, \<^verbatim>\<open>src/base/checked.cpp\<close> with its declarations in \<^verbatim>\<open>include/forge/error.hpp\<close>:
  checked arithmetic, little-endian integer encoding, CRC32C, and the 256-bit content digest.
  The locale \<open>byte_fold\<close> states what makes a byte-wise checksum notice a changed byte; it is
  interpreted on the CRC register and on the digest state. CRC32C moreover notices every change
  within four consecutive bytes, also of a message together with its checksum.
\<close>

unbundle bit_operations_syntax

section \<open>Definitions\<close>

fun error_code_name :: "ErrorCode \<Rightarrow> string" where
  "error_code_name ec_ok = ''Ok''"
| "error_code_name ec_usage = ''Usage''"
| "error_code_name ec_protocol = ''Protocol''"
| "error_code_name ec_format = ''Format''"
| "error_code_name ec_graph_conflict = ''GraphConflict''"
| "error_code_name ec_cycle = ''Cycle''"
| "error_code_name ec_path = ''Path''"
| "error_code_name ec_input_unstable = ''InputUnstable''"
| "error_code_name ec_executor = ''Executor''"
| "error_code_name ec_artifact = ''Artifact''"
| "error_code_name ec_state_recovery = ''StateRecovery''"
| "error_code_name ec_resource_limit = ''ResourceLimit''"
| "error_code_name ec_backpressure = ''Backpressure''"
| "error_code_name ec_cancelled = ''Cancelled''"
| "error_code_name ec_io = ''Io''"
| "error_code_name ec_internal_invariant = ''InternalInvariant''"

text \<open>\<open>checked_add\<close> and \<open>checked_mul\<close> at the unsigned types the code uses them with.\<close>

definition checked_add :: "'a :: len word \<Rightarrow> 'a word \<Rightarrow> string \<Rightarrow> 'a word Result" where
  "checked_add l r cm =
     (if 0 < r \<and> - 1 - r < l then Inl (error ec_resource_limit cm ''integer addition overflow'')
      else Inr (l + r))"

definition checked_mul :: "'a :: len word \<Rightarrow> 'a word \<Rightarrow> string \<Rightarrow> 'a word Result" where
  "checked_mul l r cm =
     (if l \<noteq> 0 \<and> - 1 div l < r then Inl (error ec_resource_limit cm ''integer multiplication overflow'')
      else Inr (l * r))"

definition append_u16_le :: "Bytes \<Rightarrow> u16 \<Rightarrow> Bytes" where
  "append_u16_le out v = out @ [ucast (v AND 0xff), ucast (drop_bit 8 v AND 0xff)]"

definition append_u32_le :: "Bytes \<Rightarrow> u32 \<Rightarrow> Bytes" where
  "append_u32_le out v = out @ map (\<lambda>i. ucast (drop_bit (i * 8) v AND 0xff)) [0..<4]"

definition append_u64_le :: "Bytes \<Rightarrow> u64 \<Rightarrow> Bytes" where
  "append_u64_le out v = out @ map (\<lambda>i. ucast (drop_bit (i * 8) v AND 0xff)) [0..<8]"

definition codec_error :: "string \<Rightarrow> nat \<Rightarrow> Status" where
  "codec_error msg off = (error ec_format ''codec'' msg)\<lparr>offset := off\<rparr>"

definition read_u16_le :: "Bytes \<Rightarrow> nat \<Rightarrow> u16 Result" where
  "read_u16_le bs off =
     (if length bs < off \<or> length bs - off < 2 then Inl (codec_error ''truncated u16'' off)
      else Inr (ucast (bs ! off) OR push_bit 8 (ucast (bs ! (off + 1)))))"

definition read_u32_le :: "Bytes \<Rightarrow> nat \<Rightarrow> u32 Result" where
  "read_u32_le bs off =
     (if length bs < off \<or> length bs - off < 4 then Inl (codec_error ''truncated u32'' off)
      else Inr (foldl (\<lambda>v i. v OR push_bit (i * 8) (ucast (bs ! (off + i)))) 0 [0..<4]))"

definition read_u64_le :: "Bytes \<Rightarrow> nat \<Rightarrow> u64 Result" where
  "read_u64_le bs off =
     (if length bs < off \<or> length bs - off < 8 then Inl (codec_error ''truncated u64'' off)
      else Inr (foldl (\<lambda>v i. v OR push_bit (i * 8) (ucast (bs ! (off + i)))) 0 [0..<8]))"

text \<open>CRC32C, bit by bit with the reflected polynomial.\<close>

definition crc_bit :: "u32 \<Rightarrow> u32" where
  "crc_bit crc = (let mask = 0 - (crc AND 1) in drop_bit 1 crc XOR (0x82f63b78 AND mask))"

definition crc_byte :: "u32 \<Rightarrow> u8 \<Rightarrow> u32" where
  "crc_byte crc b =
     crc_bit (crc_bit (crc_bit (crc_bit (crc_bit (crc_bit (crc_bit (crc_bit (crc XOR ucast b))))))))"

definition crc32c :: "Bytes \<Rightarrow> u32" where
  "crc32c bs = NOT (foldl crc_byte 0xffffffff bs)"

text \<open>The 256-bit content key: four 64-bit lanes.\<close>

datatype Digest256 = Digest256 u64 u64 u64 u64

fun digest_words :: "Digest256 \<Rightarrow> u64 list" where
  "digest_words (Digest256 a b c d) = [a, b, c, d]"

definition zero_digest :: Digest256 where
  "zero_digest = Digest256 0 0 0 0"

definition mix_word :: "u64 \<Rightarrow> u8 \<Rightarrow> u64" where
  "mix_word w b =
     (let w1 = w XOR ucast b; w2 = w1 * 1099511628211 in w2 XOR drop_bit 32 w2)"

fun digest_mix :: "Digest256 \<Rightarrow> u8 \<Rightarrow> Digest256" where
  "digest_mix (Digest256 a b c d) x =
     Digest256 (mix_word a x) (mix_word b x) (mix_word c x) (mix_word d x)"

definition char_byte :: "char \<Rightarrow> u8" where
  "char_byte ch = of_char ch"

definition byte_char :: "u8 \<Rightarrow> char" where
  "byte_char b = char_of (unat b)"

definition digest_bytes :: "string \<Rightarrow> Bytes \<Rightarrow> Digest256" where
  "digest_bytes domain bs =
     foldl digest_mix
       (digest_mix
         (foldl digest_mix
            (Digest256 1469598103934665603 1099511628211 7809847782465536322 1609587929392839161)
            (map char_byte domain))
         0xff)
       bs"

definition hex_digit :: "u64 \<Rightarrow> char" where
  "hex_digit w = ''0123456789abcdef'' ! unat w"

definition hex_word :: "u64 \<Rightarrow> string" where
  "hex_word w = map (\<lambda>i. hex_digit (drop_bit (4 * (15 - i)) w AND 0xf)) [0..<16]"

definition digest_hex :: "Digest256 \<Rightarrow> string" where
  "digest_hex d = concat (map hex_word (digest_words d))"

section \<open>Little-endian integers\<close>

lemma byte_mask: "(0xff :: 'a :: len word) = mask 8" by (simp add: mask_eq_exp_minus_1)

lemma bit_byte_of: "8 \<le> LENGTH('a) \<Longrightarrow> bit (ucast (drop_bit k v AND (0xff :: 'a :: len word)) :: u8) n \<longleftrightarrow> n < 8 \<and> bit v (k + n)"
  by (auto simp: byte_mask bit_simps dest: bit_imp_le_length)

lemma bit_le_join:
  "bit (foldl (\<lambda>v i. v OR push_bit (i * 8) (ucast (f i :: u8))) (0 :: 'a :: len word) [0..<k]) n \<longleftrightarrow>
     n < LENGTH('a) \<and> n div 8 < k \<and> bit (f (n div 8)) (n mod 8)"
proof (induction k)
  case (Suc k)
  have "k * 8 \<le> n \<and> bit (f k) (n - k * 8) \<longleftrightarrow> n div 8 = k \<and> bit (f (n div 8)) (n mod 8)"
  proof
    assume h: "k * 8 \<le> n \<and> bit (f k) (n - k * 8)"
    then have "n - k * 8 < 8" using bit_imp_le_length [of "f k" "n - k * 8"] by simp
    moreover from h obtain r where "n = k * 8 + r" using le_Suc_ex by blast
    ultimately have "n div 8 = k \<and> n mod 8 = n - k * 8" by simp
    with h show "n div 8 = k \<and> bit (f (n div 8)) (n mod 8)" by simp
  qed (auto simp: minus_div_mult_eq_mod)
  then show ?case
    using Suc by (auto simp: bit_simps bit_word_ucast_iff less_Suc_eq dest: bit_imp_le_length)
qed simp

lemma le_join_split:
  assumes "LENGTH('a) = k * 8"
  shows "foldl (\<lambda>v i. v OR push_bit (i * 8) (ucast (ucast (drop_bit (i * 8) w AND 0xff) :: u8)))
           0 [0..<k] = (w :: 'a :: len word)"
proof (rule bit_word_eqI)
  fix n assume "n < LENGTH('a)"
  then have "n div 8 < k" "n div 8 * 8 + n mod 8 = n" "8 \<le> LENGTH('a)" using assms by auto
  then show "bit (foldl (\<lambda>v i. v OR push_bit (i * 8) (ucast (ucast (drop_bit (i * 8) w AND 0xff) :: u8)))
      (0 :: 'a word) [0..<k]) n = bit w n"
    using \<open>n < LENGTH('a)\<close> by (simp add: bit_le_join bit_byte_of)
qed

definition le16 :: "u16 \<Rightarrow> Bytes" where "le16 v = append_u16_le [] v"
definition le32 :: "u32 \<Rightarrow> Bytes" where "le32 v = append_u32_le [] v"
definition le64 :: "u64 \<Rightarrow> Bytes" where "le64 v = append_u64_le [] v"

lemma append_le [simp]:
  "append_u16_le out v = out @ le16 v" "append_u32_le out w = out @ le32 w" "append_u64_le out x = out @ le64 x"
  by (simp_all add: le16_def le32_def le64_def append_u16_le_def append_u32_le_def append_u64_le_def)

lemma length_le [simp]: "length (le16 v) = 2" "length (le32 w) = 4" "length (le64 x) = 8"
  by (simp_all add: le16_def le32_def le64_def append_u16_le_def append_u32_le_def append_u64_le_def del: append_le)

lemma le32_eq: "le32 w = map (\<lambda>i. ucast (drop_bit (i * 8) w AND 0xff)) [0..<4]"
  by (simp add: le32_def append_u32_le_def del: append_le)
lemma le64_eq: "le64 w = map (\<lambda>i. ucast (drop_bit (i * 8) w AND 0xff)) [0..<8]"
  by (simp add: le64_def append_u64_le_def del: append_le)
lemma le16_eq: "le16 w = map (\<lambda>i. ucast (drop_bit (i * 8) w AND 0xff)) [0..<2]"
  by (simp add: le16_def append_u16_le_def upt_rec del: append_le)


lemma le_join_read:
  assumes "LENGTH('a) = k * 8" "\<And>i. i < k \<Longrightarrow> g i = ucast (drop_bit (i * 8) w AND 0xff)"
  shows "foldl (\<lambda>v i. v OR push_bit (i * 8) (ucast (g i :: u8))) 0 [0..<k] = (w :: 'a :: len word)"
proof -
  have "foldl (\<lambda>v i. v OR push_bit (i * 8) (ucast (g i :: u8))) 0 [0..<k] =
      foldl (\<lambda>v i. v OR push_bit (i * 8) (ucast (ucast (drop_bit (i * 8) w AND 0xff) :: u8))) 0 [0..<k]"
    by (rule foldl_cong) (auto simp: assms(2))
  also have "\<dots> = w" using assms(1) by (rule le_join_split)
  finally show ?thesis .
qed

lemma le_split_join:
  assumes "LENGTH('a) = k * 8" "i < k"
  shows "ucast (drop_bit (i * 8) (foldl (\<lambda>v i. v OR push_bit (i * 8) (ucast (g i :: u8))) (0 :: 'a :: len word) [0..<k]) AND 0xff) = g i"
proof (rule bit_word_eqI)
  fix n assume "n < LENGTH(8)"
  moreover from this have "(i * 8 + n) div 8 = i" "(i * 8 + n) mod 8 = n" by simp_all
  moreover from \<open>i < k\<close> \<open>n < LENGTH(8)\<close> have "i * 8 + n < k * 8" by simp
  moreover have "8 \<le> LENGTH('a)" using assms by simp
  ultimately show "bit (ucast (drop_bit (i * 8) (foldl (\<lambda>v i. v OR push_bit (i * 8) (ucast (g i :: u8)))
      (0 :: 'a word) [0..<k]) AND 0xff) :: u8) n = bit (g i) n"
    using assms by (simp add: bit_byte_of bit_le_join)
qed

lemma read_u16_le_foldl:
  "ucast (bs ! off) OR push_bit 8 (ucast (bs ! (off + 1))) =
    foldl (\<lambda>v i. v OR push_bit (i * 8) (ucast (bs ! (off + i)))) (0 :: u16) [0..<2]"
  by (simp add: upt_rec)


lemmas read_le_defs = read_u16_le_def read_u32_le_def read_u64_le_def read_u16_le_foldl

lemma read_u16_roundtrip [simp]: "read_u16_le (xs @ le16 w @ ys) (length xs) = Inr w"
  by (simp only: read_le_defs) (simp del: upt.simps, rule le_join_read; simp add: le16_eq nth_append)

lemma read_u32_roundtrip [simp]: "read_u32_le (xs @ le32 w @ ys) (length xs) = Inr w"
  by (simp only: read_le_defs) (simp del: upt.simps, rule le_join_read; simp add: le32_eq nth_append)

lemma read_u64_roundtrip [simp]: "read_u64_le (xs @ le64 w @ ys) (length xs) = Inr w"
  by (simp only: read_le_defs) (simp del: upt.simps, rule le_join_read; simp add: le64_eq nth_append)

lemma read_u16_inverse:
  assumes "read_u16_le bs off = Inr w" shows "le16 w = take 2 (drop off bs)"
proof (rule nth_equalityI)
  fix i assume "i < length (le16 w)"
  then show "le16 w ! i = take 2 (drop off bs) ! i"
    using assms le_split_join [where 'a = 16, of 2 i "\<lambda>i. bs ! (off + i)"]
    by (simp add: le16_eq read_le_defs del: One_nat_def split: if_splits)
qed (use assms in \<open>auto simp: read_u16_le_def split: if_splits\<close>)

lemma read_u32_inverse:
  assumes "read_u32_le bs off = Inr w" shows "le32 w = take 4 (drop off bs)"
proof (rule nth_equalityI)
  fix i assume "i < length (le32 w)"
  then show "le32 w ! i = take 4 (drop off bs) ! i"
    using assms le_split_join [where 'a = 32, of 4 i "\<lambda>i. bs ! (off + i)"]
    by (simp add: le32_eq read_le_defs split: if_splits)
qed (use assms in \<open>auto simp: read_u32_le_def split: if_splits\<close>)

lemma read_u64_inverse:
  assumes "read_u64_le bs off = Inr w" shows "le64 w = take 8 (drop off bs)"
proof (rule nth_equalityI)
  fix i assume "i < length (le64 w)"
  then show "le64 w ! i = take 8 (drop off bs) ! i"
    using assms le_split_join [where 'a = 64, of 8 i "\<lambda>i. bs ! (off + i)"]
    by (simp add: le64_eq read_le_defs split: if_splits)
qed (use assms in \<open>auto simp: read_u64_le_def split: if_splits\<close>)

lemma read_le_total:
  "off + 2 \<le> length bs \<Longrightarrow> \<exists>w. read_u16_le bs off = Inr w"
  "off + 4 \<le> length bs \<Longrightarrow> \<exists>w. read_u32_le bs off = Inr w"
  "off + 8 \<le> length bs \<Longrightarrow> \<exists>w. read_u64_le bs off = Inr w"
  by (auto simp: read_u16_le_def read_u32_le_def read_u64_le_def)

lemma read_le_fails:
  "length bs < off + 2 \<Longrightarrow> read_u16_le bs off = Inl (codec_error ''truncated u16'' off)"
  "length bs < off + 4 \<Longrightarrow> read_u32_le bs off = Inl (codec_error ''truncated u32'' off)"
  "length bs < off + 8 \<Longrightarrow> read_u64_le bs off = Inl (codec_error ''truncated u64'' off)"
  by (auto simp: read_u16_le_def read_u32_le_def read_u64_le_def)

section \<open>Checksums that notice a changed byte\<close>

text \<open>
  A fold over bytes whose step is injective in the running state and, for a fixed state, in
  the byte, tells apart any two inputs that differ in exactly one byte.
\<close>

locale byte_fold =
  fixes step :: "'s \<Rightarrow> 'b \<Rightarrow> 's"
  assumes step_state_inj: "step s b = step t b \<Longrightarrow> s = t"
    and step_byte_inj: "step s b = step s c \<Longrightarrow> b = c"
begin

lemma foldl_state_inj: "foldl step s bs = foldl step t bs \<Longrightarrow> s = t"
  by (induction bs arbitrary: s t) (auto dest: step_state_inj)

lemma foldl_one_byte:
  "i < length bs \<Longrightarrow> foldl step s (bs[i := b]) = foldl step s bs \<longleftrightarrow> b = bs ! i"
proof (induction bs arbitrary: i s)
  case (Cons x bs)
  then show ?case
    by (cases i) (auto dest: foldl_state_inj step_byte_inj)
qed simp

end

lemma and_one_bit: "x AND 1 = (if bit x 0 then 1 else (0 :: 'a :: len word))"
  by (simp add: and_one_eq mod_2_eq_odd bit_0)

lemma crc_bit_cases: "crc_bit x = (if bit x 0 then drop_bit 1 x XOR 0x82f63b78 else drop_bit 1 x)"
  by (simp add: crc_bit_def and_one_bit)

lemma xor_right_cancel: "a XOR c = b XOR c \<Longrightarrow> a = (b :: 'a :: len word)"
  by (metis xor.assoc xor.right_neutral xor_self_eq)

lemma crc_bit_inj: "crc_bit x = crc_bit y \<Longrightarrow> x = y"
proof -
  assume eq: "crc_bit x = crc_bit y"
  have top: "bit (crc_bit z) 31 = bit z 0" for z
    by (auto simp: crc_bit_cases bit_simps dest: bit_imp_le_length)
  have "bit x 0 = bit y 0" using top [of x] top [of y] eq by simp
  moreover from this eq have dx: "drop_bit 1 x = drop_bit 1 y"
    by (auto simp: crc_bit_cases split: if_splits dest: xor_right_cancel)
  moreover have "bit x (Suc m) = bit y (Suc m)" for m
  proof -
    have "bit (drop_bit 1 x) m = bit (drop_bit 1 y) m" by (simp only: dx)
    then show ?thesis by (simp add: bit_drop_bit_eq)
  qed
  ultimately have "bit x n = bit y n" for n by (cases n) simp_all
  then show "x = y" by (intro bit_word_eqI) simp
qed

lemma xor_byte_inj:
  assumes "8 \<le> LENGTH('a)" "(w :: 'a :: len word) XOR ucast (b :: u8) = w XOR ucast c" shows "b = c"
proof -
  have "(ucast b :: 'a word) = ucast c"
    using assms(2) xor_right_cancel [of "ucast b" w "ucast c"] by (simp add: xor.commute)
  then have eq: "bit (ucast b :: 'a word) n = bit (ucast c :: 'a word) n" for n by simp
  show ?thesis
  proof (rule bit_word_eqI)
    fix n assume "n < LENGTH(8)"
    with eq [of n] assms(1) show "bit b n = bit c n" by (simp add: bit_ucast_iff)
  qed
qed

interpretation crc: byte_fold crc_byte
proof unfold_locales
  show "s = t" if "crc_byte s b = crc_byte t b" for s t b
    using that unfolding crc_byte_def by (blast dest: crc_bit_inj xor_right_cancel)
  show "b = c" if "crc_byte s b = crc_byte s c" for s b c
  proof -
    have "s XOR ucast b = s XOR ucast c"
      using that unfolding crc_byte_def by (blast dest: crc_bit_inj)
    then show ?thesis by (rule xor_byte_inj [rotated]) simp
  qed
qed

lemma xorshift_inj:
  assumes "(x :: u64) XOR drop_bit 32 x = y XOR drop_bit 32 y" shows "x = y"
proof -
  have high: "drop_bit 32 x = drop_bit 32 y"
  proof (rule bit_word_eqI)
    fix n assume "n < LENGTH(64)"
    have "bit (x XOR drop_bit 32 x) (32 + n) = bit (y XOR drop_bit 32 y) (32 + n)" by (simp only: assms)
    then show "bit (drop_bit 32 x) n = bit (drop_bit 32 y) n"
      by (auto simp: bit_simps dest: bit_imp_le_length)
  qed
  with assms show ?thesis by (simp add: xor_right_cancel)
qed

lemma fnv_prime_inj:
  assumes "(x :: u64) * 1099511628211 = y * 1099511628211" shows "x = y"
proof -
  have one: "1099511628211 * 14886173955864302971 = (1 :: u64)" by simp
  have "x * 1099511628211 * 14886173955864302971 = y * 1099511628211 * 14886173955864302971"
    by (simp only: assms)
  then show ?thesis by (simp only: mult.assoc one mult_1_right)
qed

lemma mix_word_inj: "mix_word w b = mix_word v c \<Longrightarrow> w XOR ucast b = v XOR ucast c"
  unfolding mix_word_def Let_def by (blast dest: xorshift_inj fnv_prime_inj)

interpretation digest: byte_fold digest_mix
proof unfold_locales
  show "s = t" if "digest_mix s b = digest_mix t b" for s t b
    using that by (cases s; cases t) (auto dest!: mix_word_inj xor_right_cancel)
  show "b = c" if "digest_mix s b = digest_mix s c" for s b c
    using that by (cases s) (auto dest!: mix_word_inj intro: xor_byte_inj [rotated])
qed

lemma crc32c_one_byte:
  "i < length bs \<Longrightarrow> crc32c (bs[i := b]) = crc32c bs \<longleftrightarrow> b = bs ! i"
  by (simp add: crc32c_def crc.foldl_one_byte)

lemma digest_one_byte:
  "i < length bs \<Longrightarrow> digest_bytes d (bs[i := b]) = digest_bytes d bs \<longleftrightarrow> b = bs ! i"
  by (simp add: digest_bytes_def digest.foldl_one_byte)

section \<open>Checksums that notice a burst of four bytes\<close>

text \<open>
  The bit step of CRC32C is linear over exclusive or and undoes a shift by one, so that four
  bytes fold to thirty-two bit steps of the state combined with their word. Since a bit step is
  injective, no two inputs that differ within four consecutive bytes have the same checksum, and
  a message followed by its own checksum folds to one constant.
\<close>

lemma crc_bit_xor: "crc_bit (x XOR y) = crc_bit x XOR crc_bit y"
  by (rule bit_word_eqI) (auto simp: crc_bit_cases bit_simps)

lemma crc_bit_push: assumes "\<not> bit y 31" shows "crc_bit (push_bit 1 y) = y"
proof -
  define z where "z = push_bit 1 y"
  have b: "bit z m \<longleftrightarrow> 0 < m \<and> m < 32 \<and> bit y (m - 1)" for m
    unfolding z_def by (simp only: bit_simps) auto
  have "n < 31" if "n < 32" "bit y n" for n using assms that by (cases "n = 31") auto
  then have "crc_bit z = y"
    by (intro bit_word_eqI) (auto simp: crc_bit_cases bit_drop_bit_eq b)
  then show ?thesis by (simp only: z_def)
qed

lemma crc_bits_xor: "(crc_bit ^^ n) (x XOR y) = (crc_bit ^^ n) x XOR (crc_bit ^^ n) y"
  by (induction n) (simp_all add: crc_bit_xor)

lemma crc_bits_inj: "(crc_bit ^^ n) x = (crc_bit ^^ n) y \<Longrightarrow> x = y"
  by (induction n) (auto dest: crc_bit_inj)

lemma crc_bits_push: "n \<le> 24 \<Longrightarrow> (crc_bit ^^ n) (push_bit n (ucast (b :: u8))) = ucast b"
proof (induction n)
  case (Suc n)
  have "\<not> bit (push_bit n (ucast b :: u32)) 31"
    using Suc.prems by (auto simp: bit_simps dest: bit_imp_le_length)
  then have "crc_bit (push_bit (Suc n) (ucast b)) = push_bit n (ucast b)"
    using crc_bit_push by (metis push_bit_push_bit plus_1_eq_Suc)
  then show ?case using Suc by (simp add: funpow_swap1)
qed simp

lemma crc_byte_bits: "crc_byte s b = (crc_bit ^^ 8) (s XOR ucast b)"
  by (simp add: crc_byte_def numeral_eq_Suc)

lemma crc_byte_step:
  "n \<le> 24 \<Longrightarrow> crc_byte ((crc_bit ^^ n) x) b = (crc_bit ^^ (8 + n)) (x XOR push_bit n (ucast b))"
  by (simp add: crc_byte_bits funpow_add crc_bits_xor crc_bits_push)

text \<open>Four bytes as the word whose bits the checksum shifts through, the first byte lowest.\<close>

definition bytes_word :: "Bytes \<Rightarrow> u32" where
  "bytes_word bs = foldl (\<lambda>w i. w XOR push_bit (8 * i) (ucast (bs ! i))) 0 [0..<4]"

lemma crc_four_bytes:
  assumes "length bs = 4" shows "foldl crc_byte s bs = (crc_bit ^^ 32) (s XOR bytes_word bs)"
proof -
  obtain a b c d where "bs = [a, b, c, d]" using assms by (auto simp: eval_nat_numeral length_Suc_conv)
  then show ?thesis
    using crc_byte_step [of 0] crc_byte_step [of 8] crc_byte_step [of 16] crc_byte_step [of 24]
    by (simp add: bytes_word_def upt_rec xor.assoc)
qed

lemma mask_byte: "w AND 255 = take_bit 8 (w :: 'a :: len word)"
  by (simp add: take_bit_eq_mask mask_eq_exp_minus_1)

lemma byte_bit_high: "8 \<le> n \<Longrightarrow> \<not> bit (b :: u8) n"
  by (auto dest: bit_imp_le_length)

lemma le32_bytes_word:
  assumes "length bs = 4" shows "le32 (bytes_word bs) = bs"
proof -
  obtain a b c d where bs: "bs = [a, b, c, d]" using assms by (auto simp: eval_nat_numeral length_Suc_conv)
  show ?thesis
    by (simp add: bs le32_eq mask_byte bytes_word_def upt_rec, intro conjI; intro bit_word_eqI)
      (auto simp: bit_simps byte_bit_high mask_byte)
qed

lemma bytes_word_le32: "bytes_word (le32 w) = w"
  using read_u32_roundtrip [of "[]" "bytes_word (le32 w)" "[]"] read_u32_roundtrip [of "[]" w "[]"]
  by (simp add: le32_bytes_word)

lemma crc_residue: "foldl crc_byte s (le32 (NOT s)) = (crc_bit ^^ 32) (- 1)"
  by (simp add: crc_four_bytes bytes_word_le32)

lemma crc_burst:
  assumes "foldl crc_byte s xs = foldl crc_byte s ys" "length xs = length ys" "length xs \<le> 4"
  shows "xs = ys"
proof -
  let ?z = "replicate (4 - length xs) 0"
  have "foldl crc_byte s (xs @ ?z) = foldl crc_byte s (ys @ ?z)" using assms(1) by simp
  then have "(crc_bit ^^ 32) (s XOR bytes_word (xs @ ?z)) = (crc_bit ^^ 32) (s XOR bytes_word (ys @ ?z))"
    using assms(2,3) by (simp only: crc_four_bytes length_append length_replicate le_add_diff_inverse)
  then have "bytes_word (xs @ ?z) = bytes_word (ys @ ?z)"
    using crc_bits_inj xor_right_cancel by (metis xor.commute)
  then have "xs @ ?z = ys @ ?z" using assms(2,3) le32_bytes_word [of "xs @ ?z"] le32_bytes_word [of "ys @ ?z"] by simp
  then show ?thesis by simp
qed

text \<open>Two lists of one length that agree outside the four positions from \<open>m\<close> on.\<close>

definition burst :: "nat \<Rightarrow> 'a list \<Rightarrow> 'a list \<Rightarrow> bool" where
  "burst m xs ys \<longleftrightarrow> length xs = length ys \<and> take m xs = take m ys \<and> drop (m + 4) xs = drop (m + 4) ys"

lemma burst_take: "burst m xs ys \<Longrightarrow> burst m (take n xs) (take n ys)"
  by (auto simp: burst_def drop_take take_take min.commute) (metis take_take min.commute)

lemma burst_drop: "burst m xs ys \<Longrightarrow> k \<le> m \<Longrightarrow> burst (m - k) (drop k xs) (drop k ys)"
  by (auto simp: burst_def take_drop add.commute)

lemma burst_take_eq: "burst m xs ys \<Longrightarrow> k \<le> m \<Longrightarrow> take k xs = take k ys"
  unfolding burst_def by (metis min.absorb1 take_take)

lemma burst_drop_eq: "burst m xs ys \<Longrightarrow> m + 4 \<le> k \<Longrightarrow> drop k xs = drop k ys"
  unfolding burst_def by (metis drop_drop le_add_diff_inverse2)

lemma burst_append: "burst m xs ys \<Longrightarrow> burst m (xs @ zs) (ys @ zs)"
  by (simp add: burst_def)

lemma burst_update: "m \<le> i \<Longrightarrow> i < m + 4 \<Longrightarrow> burst m xs (xs[i := b])"
  by (simp add: burst_def take_update_cancel drop_update_cancel)

lemma burst_split: "xs = take m xs @ take 4 (drop m xs) @ drop (m + 4) xs"
  by (metis append_take_drop_id drop_drop add.commute)

lemma crc_burst_eq:
  assumes b: "burst m xs ys" and eq: "foldl crc_byte s xs = foldl crc_byte s ys"
  shows "xs = ys"
proof -
  let ?s = "foldl crc_byte s (take m xs)" and ?x = "take 4 (drop m xs)" and ?y = "take 4 (drop m ys)"
  have x: "xs = take m xs @ ?x @ drop (m + 4) xs" by (rule burst_split)
  moreover have y: "ys = take m xs @ ?y @ drop (m + 4) xs"
    using burst_split [of ys m] b by (simp only: burst_def)
  ultimately have "foldl crc_byte (foldl crc_byte ?s ?x) (drop (m + 4) xs) = foldl crc_byte (foldl crc_byte ?s ?y) (drop (m + 4) xs)"
    using eq by (metis foldl_append)
  then have "?x = ?y"
    using b by (intro crc_burst [of ?s]) (auto simp: burst_def dest: crc.foldl_state_inj)
  with x y show ?thesis by simp
qed

lemma crc32c_burst: "burst m xs ys \<Longrightarrow> crc32c xs = crc32c ys \<Longrightarrow> xs = ys"
  by (simp add: crc32c_def crc_burst_eq)

lemma crc_trailer: "foldl crc_byte 0xffffffff (xs @ le32 (crc32c xs)) = (crc_bit ^^ 32) (- 1)"
  by (simp add: crc32c_def crc_residue)

lemma crc_trailer_burst:
  assumes "burst m (xs @ le32 (crc32c xs)) (ys @ le32 (crc32c ys))" shows "xs = ys"
proof -
  have "xs @ le32 (crc32c xs) = ys @ le32 (crc32c ys)"
    using assms by (rule crc_burst_eq [where s = "0xffffffff"]) (simp only: crc_trailer)
  moreover have "length xs = length ys" using assms by (simp add: burst_def)
  ultimately show ?thesis by simp
qed

section \<open>Checked arithmetic\<close>

lemma unat_max_word: "unat (- 1 :: 'a :: len word) = 2 ^ LENGTH('a) - 1"
  by (simp add: unsigned_minus_1_eq_mask mask_eq_exp_minus_1)

lemma checked_add_Inr_iff:
  "checked_add l r cm = Inr c \<longleftrightarrow> unat l + unat r < 2 ^ LENGTH('a) \<and> c = l + (r :: 'a :: len word)"
proof -
  have "0 < r \<and> - 1 - r < l \<longleftrightarrow> \<not> unat l + unat r < 2 ^ LENGTH('a)"
  proof -
    have "unat (- 1 - r) = 2 ^ LENGTH('a) - 1 - unat r"
      by (simp add: unat_sub unat_max_word)
    moreover have "unat l < 2 ^ LENGTH('a)" "unat r < 2 ^ LENGTH('a)" by (rule unsigned_less)+
    ultimately show ?thesis unfolding word_less_nat_alt unat_0 by linarith
  qed
  then show ?thesis by (auto simp: checked_add_def)
qed

lemma checked_add_unat: "checked_add l r cm = Inr c \<Longrightarrow> unat c = unat l + unat r"
  by (auto simp: checked_add_Inr_iff unat_word_ariths)

lemma checked_mul_Inr_iff:
  "checked_mul l r cm = Inr c \<longleftrightarrow> unat l * unat r < 2 ^ LENGTH('a) \<and> c = l * (r :: 'a :: len word)"
proof -
  have "l \<noteq> 0 \<and> - 1 div l < r \<longleftrightarrow> \<not> unat l * unat r < 2 ^ LENGTH('a)"
  proof (cases "l = 0")
    case False
    then have pos: "0 < unat l" by (simp add: unat_gt_0)
    have "unat (- 1 div l) = (2 ^ LENGTH('a) - 1) div unat l"
      by (simp add: unat_div_distrib unat_max_word)
    then have "- 1 div l < r \<longleftrightarrow> (2 ^ LENGTH('a) - 1) div unat l < unat r"
      by (simp add: word_less_nat_alt)
    also have "\<dots> \<longleftrightarrow> 2 ^ LENGTH('a) - 1 < unat l * unat r"
      using pos by (simp add: div_less_iff_less_mult mult.commute)
    also have "\<dots> \<longleftrightarrow> \<not> unat l * unat r < 2 ^ LENGTH('a)"
      using zero_less_power [of "2 :: nat" "LENGTH('a)"] by linarith
    finally show ?thesis using False by simp
  qed simp
  then show ?thesis by (auto simp: checked_mul_def)
qed

section \<open>Hexadecimal digests\<close>

lemma length_hex_word [simp]: "length (hex_word w) = 16"
  by (simp add: hex_word_def)

lemma length_digest_hex [simp]: "length (digest_hex d) = 64"
  by (cases d) (simp add: digest_hex_def)

lemma hex_digit_inj:
  assumes "hex_digit (x AND 0xf) = hex_digit (y AND 0xf)" shows "x AND 0xf = y AND 0xf"
proof -
  have "unat (z AND 0xf) < length ''0123456789abcdef''" for z :: u64
    using word_and_le1 [of z 15] by (simp add: word_le_nat_alt)
  moreover have "distinct ''0123456789abcdef''" by simp
  ultimately have "unat (x AND 0xf) = unat (y AND 0xf)"
    using assms unfolding hex_digit_def by (metis nth_eq_iff_index_eq)
  then show ?thesis by (simp only: word_unat_eq_iff)
qed

lemma nibble_mask: "(0xf :: 'a :: len word) = mask 4" by (simp add: mask_eq_exp_minus_1)

lemma hex_word_inj: "hex_word v = hex_word w \<Longrightarrow> v = w"
proof (rule bit_word_eqI)
  fix n assume eq: "hex_word v = hex_word w" and n: "n < LENGTH(64)"
  let ?i = "15 - n div 4"
  have i: "?i < 16" "4 * (15 - ?i) + n mod 4 = n" using n by auto
  from eq have "hex_word v ! ?i = hex_word w ! ?i" by simp
  then have nib: "drop_bit (4 * (15 - ?i)) v AND 0xf = drop_bit (4 * (15 - ?i)) w AND 0xf"
    using i(1) by (intro hex_digit_inj) (simp add: hex_word_def)
  have "bit (drop_bit (4 * (15 - ?i)) z AND 0xf) (n mod 4) = bit z n" for z :: u64
    using i(2) less_trans [OF mod_less_divisor [of 4 n], of 64] by (simp add: bit_simps nibble_mask)
  with nib show "bit v n = bit w n" by metis
qed

lemma digest_hex_inj [simp]: "digest_hex x = digest_hex y \<longleftrightarrow> x = y"
  by (cases x; cases y) (auto simp: digest_hex_def dest: hex_word_inj)
end
