(* ===== verification/Forge_Framing.thy ===== *)
theory Forge_Framing
  imports Forge_Base "HOL-Library.Sublist"
begin

text \<open>
  What the two binary codecs share: a 40-byte header whose bytes 32 to 35 hold the CRC of the
  first 32 bytes and whose bytes 36 to 39 hold the CRC of the payload. The locale
  \<open>record_framing\<close> is the contract of a codec on a stream of records; it is interpreted on
  the FIPC codec and on the FST-1 state codec.
\<close>

unbundle bit_operations_syntax

section \<open>Reading fields out of a concatenation\<close>

lemma read_le_skip:
  "\<lbrakk>length xs \<le> n; n + 2 \<le> length xs + length ys\<rbrakk> \<Longrightarrow> read_u16_le (xs @ ys) n = read_u16_le ys (n - length xs)"
  "\<lbrakk>length xs \<le> n; n + 4 \<le> length xs + length ys\<rbrakk> \<Longrightarrow> read_u32_le (xs @ ys) n = read_u32_le ys (n - length xs)"
  "\<lbrakk>length xs \<le> n; n + 8 \<le> length xs + length ys\<rbrakk> \<Longrightarrow> read_u64_le (xs @ ys) n = read_u64_le ys (n - length xs)"
  by (auto simp: read_u16_le_def read_u32_le_def read_u64_le_def nth_append Suc_diff_le
      add_diff_eq less_diff_conv intro!: foldl_cong)

lemma read_le_take:
  "n + 4 \<le> k \<Longrightarrow> k \<le> length bs \<Longrightarrow> read_u32_le (take k bs) n = read_u32_le bs n"
  by (auto simp: read_u32_le_def intro!: foldl_cong)

lemma read_le_extend:
  "n + 2 \<le> length xs \<Longrightarrow> read_u16_le (xs @ ys) n = read_u16_le xs n"
  "n + 4 \<le> length xs \<Longrightarrow> read_u32_le (xs @ ys) n = read_u32_le xs n"
  "n + 8 \<le> length xs \<Longrightarrow> read_u64_le (xs @ ys) n = read_u64_le xs n"
  by (auto simp: read_u16_le_def read_u32_le_def read_u64_le_def nth_append intro!: foldl_cong)

lemma read_le_head:
  "read_u16_le (le16 u @ ys) 0 = Inr u" "read_u32_le (le32 w @ ys) 0 = Inr w"
  "read_u64_le (le64 x @ ys) 0 = Inr x"
  using read_u16_roundtrip [of "[]"] read_u32_roundtrip [of "[]"] read_u64_roundtrip [of "[]"]
  by simp_all

lemma read_le_whole [simp]:
  "read_u16_le (le16 u) 0 = Inr u" "read_u32_le (le32 w) 0 = Inr w" "read_u64_le (le64 x) 0 = Inr x"
  using read_le_head [where ys = "[]"] by simp_all

lemmas read_fields = read_le_head read_le_skip

lemma le32_inject [simp]: "le32 v = le32 w \<longleftrightarrow> v = w"
  using read_le_whole(2) by (metis sum.inject(2))

lemma le64_inject [simp]: "le64 v = le64 w \<longleftrightarrow> v = w"
  using read_le_whole(3) by (metis sum.inject(2))

section \<open>The checksummed header\<close>

lemma le32_bytes:
  "le32 w = [ucast (w AND 0xff), ucast (drop_bit 8 w AND 0xff), ucast (drop_bit 16 w AND 0xff),
     ucast (drop_bit 24 w AND 0xff)]"
  by (simp add: le32_eq upt_rec)

lemma patch_header:
  assumes "length H = 32"
  shows "(H @ le32 z @ P)[32 := ucast (w AND 0xff), 33 := ucast (drop_bit 8 w AND 0xff),
       34 := ucast (drop_bit 16 w AND 0xff), 35 := ucast (drop_bit 24 w AND 0xff)] = H @ le32 w @ P"
  using assms by (simp add: list_update_append le32_bytes)

lemma take_cleared_header: "take 32 ((take 40 bs)[32 := a, 33 := b, 34 := c, 35 := d]) = take 32 bs"
  by (simp add: take_update_cancel)

text \<open>A buffer of at least 40 bytes is its header fields followed by the rest.\<close>

lemma take_drop_split: "drop k bs = take n (drop k bs) @ drop (k + n) bs"
  by (metis append_take_drop_id drop_drop add.commute)

lemma header_split:
  "bs = take 32 bs @ take 4 (drop 32 bs) @ take 4 (drop 36 bs) @ drop 40 bs"
  using take_drop_split [of 0 bs 32] take_drop_split [of 32 bs 4] take_drop_split [of 36 bs 4]
  by simp

definition envelope :: "Bytes \<Rightarrow> Bytes \<Rightarrow> Bytes" where
  "envelope H P = H @ le32 (crc32c H) @ le32 (crc32c P) @ P"

lemma length_envelope [simp]: "length (envelope H P) = length H + 8 + length P"
  by (simp add: envelope_def)

lemma update_noop: "xs[j := b] = xs \<Longrightarrow> j < length xs \<Longrightarrow> b = xs ! j"
  by (metis nth_list_update_eq)

text \<open>
  No burst within four bytes turns one checksummed record into another, except one that spans the
  end of the payload checksum and the start of the payload, since that checksum precedes what it
  covers. In particular no single changed byte does.
\<close>

lemma envelope_burst:
  assumes H: "length H = 32" and H': "length H' = 32"
    and b: "burst m (envelope H P) bad" and m: "m \<le> 36 \<or> 40 \<le> m"
    and eq: "bad @ xs = envelope H' P' @ ys"
    and len: "H = H' \<Longrightarrow> length P = length P'"
  shows "bad = envelope H P"
proof -
  have B: "burst m (envelope H P @ xs) (envelope H' P' @ ys)"
    using burst_append [OF b, of xs] by (simp only: eq)
  have HH: "H = H'"
    using burst_take [OF B, of 36] H H' by (intro crc_trailer_burst [of m]) (simp add: envelope_def)
  have LP: "length P' = length P" using len HH by simp
  have B40: "burst m (envelope H P) (envelope H' P')"
    using burst_take [OF B, of "40 + length P"] H H' LP by (simp add: envelope_def)
  have "P = P'"
  proof (cases "40 \<le> m")
    case True
    have "crc32c P = crc32c P'"
      using burst_take_eq [OF B40 True] H HH by (simp add: envelope_def)
    moreover have "burst (m - 40) P P'"
      using burst_drop [OF B40 True] H HH by (simp add: envelope_def)
    ultimately show ?thesis by (simp add: crc32c_burst)
  next
    case False
    then have "m + 4 \<le> 40" using m by simp
    from burst_drop_eq [OF B40 this] show ?thesis using H HH by (simp add: envelope_def)
  qed
  moreover have "length bad = length (envelope H P)" using b by (simp only: burst_def)
  ultimately show ?thesis using HH eq by simp
qed

lemma envelope_one_byte:
  assumes "length H = 32" "length H' = 32" and i: "i < length (envelope H P)"
    and eq: "(envelope H P)[i := b] @ xs = envelope H' P' @ ys"
    and "H = H' \<Longrightarrow> length P = length P'"
  shows "b = envelope H P ! i"
proof -
  let ?m = "if i < 40 then min i 36 else i"
  have "burst ?m (envelope H P) ((envelope H P)[i := b])" by (rule burst_update) auto
  then have "(envelope H P)[i := b] = envelope H P"
    using assms by (intro envelope_burst [of H H' ?m P _ xs P' ys]) auto
  then show ?thesis using i by (rule update_noop)
qed

section \<open>Streams of framed records\<close>

fun unframe_upto :: "nat \<Rightarrow> (Bytes \<Rightarrow> ('r \<times> nat) option) \<Rightarrow> Bytes \<Rightarrow> 'r list" where
  "unframe_upto 0 dec bs = []"
| "unframe_upto (Suc k) dec bs =
     (case dec bs of None \<Rightarrow> [] | Some (r, n) \<Rightarrow> r # unframe_upto k dec (drop n bs))"

text \<open>Every record takes at least one byte, so the number of bytes bounds the number of records.\<close>

definition unframe :: "(Bytes \<Rightarrow> ('r \<times> nat) option) \<Rightarrow> Bytes \<Rightarrow> 'r list" where
  "unframe dec bs = unframe_upto (length bs) dec bs"

locale record_framing =
  fixes enc :: "'r \<Rightarrow> Bytes"
    and dec :: "Bytes \<Rightarrow> ('r \<times> nat) option"
    and fits :: "'r \<Rightarrow> bool"
  assumes enc_nonempty: "enc r \<noteq> []"
    and dec_enc: "fits r \<Longrightarrow> dec (enc r @ rest) = Some (r, length (enc r))"
    and dec_prefix: "fits r \<Longrightarrow> k < length (enc r) \<Longrightarrow> dec (take k (enc r)) = None \<or> dec (take k (enc r)) = Some (r, k)"
    and dec_Nil: "dec [] = None"
begin

abbreviation stream :: "'r list \<Rightarrow> Bytes" where
  "stream rs \<equiv> concat (map enc rs)"

lemma unframe_upto_stream:
  "\<lbrakk>list_all fits rs; length (stream rs) \<le> k\<rbrakk> \<Longrightarrow> unframe_upto k dec (stream rs) = rs"
proof (induction rs arbitrary: k)
  case Nil
  then show ?case by (cases k) (simp_all add: dec_Nil)
next
  case (Cons r rs)
  have pos: "0 < length (enc r)" by (simp add: enc_nonempty)
  with Cons.prems obtain j where k: "k = Suc j" by (cases k) auto
  have "length (stream rs) \<le> j" using pos Cons.prems(2) by (simp add: k del: length_greater_0_conv)
  then show ?case using Cons by (simp add: k dec_enc)
qed

lemma unframe_stream: "list_all fits rs \<Longrightarrow> unframe dec (stream rs) = rs"
  by (simp add: unframe_def unframe_upto_stream)

lemma stream_inj: "\<lbrakk>list_all fits rs; list_all fits ss; stream rs = stream ss\<rbrakk> \<Longrightarrow> rs = ss"
  by (metis unframe_stream)

text \<open>A truncated stream gives back a prefix of the records: nothing is made up.\<close>

lemma unframe_upto_truncated:
  "\<lbrakk>list_all fits rs; length (take j (stream rs)) \<le> k\<rbrakk>
    \<Longrightarrow> prefix (unframe_upto k dec (take j (stream rs))) rs"
proof (induction rs arbitrary: j k)
  case Nil
  then show ?case by (cases k) (simp_all add: dec_Nil)
next
  case (Cons r rs)
  show ?case
  proof (cases k)
    case (Suc i)
    show ?thesis
    proof (cases "j < length (enc r)")
      case True
      then have eq: "take j (stream (r # rs)) = take j (enc r)" by simp
      have "unframe_upto i dec [] = []" by (cases i) (simp_all add: dec_Nil)
      then have "prefix (unframe_upto k dec (take j (enc r))) (r # rs)"
        using Cons.prems(1) dec_prefix [OF _ True] by (auto simp: Suc)
      then show ?thesis by (simp only: eq)
    next
      case False
      have "0 < length (enc r)" by (simp add: enc_nonempty)
      then have "length (take (j - length (enc r)) (stream rs)) \<le> i"
        using Cons.prems(2) False by (auto simp: Suc simp del: length_greater_0_conv)
      then have "prefix (unframe_upto i dec (take (j - length (enc r)) (stream rs))) rs"
        using Cons.prems(1) by (intro Cons.IH) simp_all
      then show ?thesis
        using Cons.prems(1) False by (simp add: Suc dec_enc)
    qed
  qed simp
qed

lemma unframe_truncated: "list_all fits rs \<Longrightarrow> prefix (unframe dec (take j (stream rs))) rs"
  by (simp add: unframe_def unframe_upto_truncated)

end

end
