(* ===== verification/Forge_Graph.thy ===== *)
theory Forge_Graph
  imports Forge_Framing
begin

text \<open>
  The build graph: \<^verbatim>\<open>include/forge/graph.hpp\<close>, \<^verbatim>\<open>src/graph/build_graph.cpp\<close>, \<^verbatim>\<open>src/graph/snapshot.cpp\<close>
  and \<^verbatim>\<open>src/graph/invalidation.cpp\<close>. The lemmas show the invariant of the graph under every
  sequence of its operations, that the reverse closure is exactly the set of transitive
  dependents of its seeds, and what the action key does and does not tell apart.
\<close>

section \<open>Definitions\<close>

datatype EdgeKind = ek_declared | ek_discovered
datatype NodeState = ns_clean | ns_dirty | ns_building | ns_failed

record ActionSpec =
  as_command :: string
  as_options :: "(string, string) std_map"

record BuildNode =
  bn_id :: NodeId
  bn_generation :: Generation
  bn_name :: string
  bn_action :: ActionSpec
  bn_state :: NodeState
  bn_last_action_key :: Digest256

record DependencyEdge =
  de_id :: EdgeId
  de_generation :: Generation
  de_from :: NodeId
  de_to :: NodeId
  de_kind :: EdgeKind

type_synonym Nodes = "(NodeId, BuildNode) std_map"
type_synonym Edges = "(EdgeId, DependencyEdge) std_map"

record GraphSnapshot =
  gs_generation :: Generation
  gs_nodes :: Nodes
  gs_edges :: Edges

record BuildGraph =
  bg_next_node :: u64
  bg_next_edge :: u64
  bg_generation :: Generation
  bg_nodes :: Nodes
  bg_edges :: Edges

definition new_graph :: BuildGraph where
  "new_graph = \<lparr>bg_next_node = 1, bg_next_edge = 1, bg_generation = gen_default, bg_nodes = [], bg_edges = []\<rparr>"

definition graph_conflict :: "string \<Rightarrow> Status" where
  "graph_conflict msg = error ec_graph_conflict ''graph'' msg"

definition publish_generation :: "BuildGraph \<Rightarrow> BuildGraph" where
  "publish_generation g = g\<lparr>bg_generation := gen_next (bg_generation g)\<rparr>"

definition put_node :: "BuildGraph \<Rightarrow> string \<Rightarrow> ActionSpec \<Rightarrow> BuildGraph \<times> NodeId Result" where
  "put_node g name action =
     (if name = [] then (g, Inl (graph_conflict ''node name is empty''))
      else
        case find (\<lambda>(nid, node). bn_name node = name) (bg_nodes g) of
          Some (nid, node) \<Rightarrow>
            let updated = node\<lparr>bn_action := action, bn_generation := gen_next (bg_generation g), bn_state := ns_dirty\<rparr>
            in (publish_generation (g\<lparr>bg_nodes := sm_put nid updated (bg_nodes g)\<rparr>), Inr nid)
        | None \<Rightarrow>
            let nid = Id (bg_next_node g);
                node = \<lparr>bn_id = nid, bn_generation = gen_next (bg_generation g), bn_name = name, bn_action = action,
                        bn_state = ns_dirty, bn_last_action_key = zero_digest\<rparr>
            in (publish_generation (g\<lparr>bg_next_node := bg_next_node g + 1, bg_nodes := sm_put nid node (bg_nodes g)\<rparr>), Inr nid))"

text \<open>\<open>nodes_[from].state = dirty\<close> on a node that is known to exist.\<close>

definition mark_dirty :: "NodeId \<Rightarrow> Nodes \<Rightarrow> Nodes" where
  "mark_dirty n nodes = (case sm_find nodes n of None \<Rightarrow> nodes | Some node \<Rightarrow> sm_put n (node\<lparr>bn_state := ns_dirty\<rparr>) nodes)"

definition put_edge :: "BuildGraph \<Rightarrow> NodeId \<Rightarrow> NodeId \<Rightarrow> EdgeKind \<Rightarrow> BuildGraph \<times> EdgeId Result" where
  "put_edge g from to kind =
     (if \<not> sm_contains (bg_nodes g) from \<or> \<not> sm_contains (bg_nodes g) to
      then (g, Inl (graph_conflict ''edge references unknown node''))
      else
        case find (\<lambda>(eid, edge). de_from edge = from \<and> de_to edge = to \<and> de_kind edge = kind) (bg_edges g) of
          Some (eid, edge) \<Rightarrow> (g, Inr eid)
        | None \<Rightarrow>
            let eid = Id (bg_next_edge g);
                edge = \<lparr>de_id = eid, de_generation = gen_next (bg_generation g), de_from = from, de_to = to, de_kind = kind\<rparr>
            in (publish_generation
                  (g\<lparr>bg_next_edge := bg_next_edge g + 1, bg_edges := sm_put eid edge (bg_edges g),
                     bg_nodes := mark_dirty from (bg_nodes g)\<rparr>), Inr eid))"

definition remove_discovered_from :: "BuildGraph \<Rightarrow> NodeId \<Rightarrow> BuildGraph" where
  "remove_discovered_from g from =
     publish_generation (g\<lparr>bg_edges := filter (\<lambda>(eid, edge). \<not> (de_from edge = from \<and> de_kind edge = ek_discovered)) (bg_edges g)\<rparr>)"

text \<open>The worklist of \<open>reverse_closure\<close>: one edge, one pass over the edges, and the loop.\<close>

definition closure_edge :: "NodeId \<Rightarrow> NodeId list \<times> NodeId list \<Rightarrow> EdgeId \<times> DependencyEdge \<Rightarrow> NodeId list \<times> NodeId list" where
  "closure_edge node rw e =
     (if de_to (snd e) = node \<and> de_from (snd e) \<notin> set (fst rw)
      then (ss_insert (de_from (snd e)) (fst rw), snd rw @ [de_from (snd e)])
      else rw)"

definition closure_scan :: "Edges \<Rightarrow> NodeId \<Rightarrow> NodeId list \<times> NodeId list \<Rightarrow> NodeId list \<times> NodeId list" where
  "closure_scan edges node rw = foldl (closure_edge node) rw edges"

abbreviation edge_sources :: "Edges \<Rightarrow> NodeId set" where
  "edge_sources edges \<equiv> (\<lambda>e. de_from (snd e)) ` set edges"

text \<open>Every insertion moves one source from the unreached to the work list.\<close>

lemma closure_edge_measure:
  assumes "finite S" "de_from (snd e) \<in> S"
  shows "card (S - set (fst (closure_edge n rw e))) + length (snd (closure_edge n rw e)) =
    card (S - set (fst rw)) + length (snd rw)"
proof -
  let ?f = "de_from (snd e)"
  have "card (S - set (fst rw)) = Suc (card (S - insert ?f (set (fst rw))))" if "?f \<notin> set (fst rw)"
  proof -
    have "S - insert ?f (set (fst rw)) = (S - set (fst rw)) - {?f}" by auto
    then show ?thesis using assms that card_Suc_Diff1 [of "S - set (fst rw)" ?f] by simp
  qed
  then show ?thesis by (simp add: closure_edge_def)
qed

lemma closure_scan_measure:
  assumes "finite S" "edge_sources edges \<subseteq> S"
  shows "card (S - set (fst (closure_scan edges n rw))) + length (snd (closure_scan edges n rw)) =
    card (S - set (fst rw)) + length (snd rw)"
  using assms(2) unfolding closure_scan_def
proof (induction edges arbitrary: rw)
  case (Cons e edges)
  then show ?case using closure_edge_measure [OF assms(1), of e n rw] by simp
qed simp

function closure_loop :: "Edges \<Rightarrow> NodeId list \<Rightarrow> NodeId list \<Rightarrow> NodeId list" where
  "closure_loop edges reached work =
     (if work = [] then reached
      else
        let rw = closure_scan edges (last work) (reached, butlast work)
        in closure_loop edges (fst rw) (snd rw))"
  by pat_completeness auto
termination
proof (relation "measure (\<lambda>(edges, reached, work). card (edge_sources edges - set reached) + length work)")
  fix edges reached and work :: "NodeId list" and rw
  assume "work \<noteq> []" "rw = closure_scan edges (last work) (reached, butlast work)"
  then show "((edges, fst rw, snd rw), (edges, reached, work)) \<in>
      measure (\<lambda>(edges, reached, work). card (edge_sources edges - set reached) + length work)"
    using closure_scan_measure [of "edge_sources edges" edges "last work" "(reached, butlast work)"]
    by (cases work) (auto simp: case_prod_beta)
qed simp

declare closure_loop.simps [simp del]

definition reverse_closure :: "BuildGraph \<Rightarrow> NodeId list \<Rightarrow> NodeId list" where
  "reverse_closure g seeds = closure_loop (bg_edges g) seeds seeds"

definition snapshot :: "BuildGraph \<Rightarrow> GraphSnapshot" where
  "snapshot g = \<lparr>gs_generation = bg_generation g, gs_nodes = bg_nodes g, gs_edges = bg_edges g\<rparr>"

definition dependencies :: "GraphSnapshot \<Rightarrow> NodeId \<Rightarrow> NodeId list" where
  "dependencies s node = foldl (\<lambda>deps (eid, edge). if de_from edge = node then ss_insert (de_to edge) deps else deps) [] (gs_edges s)"

definition reverse_dependencies :: "GraphSnapshot \<Rightarrow> NodeId \<Rightarrow> NodeId list" where
  "reverse_dependencies s node = foldl (\<lambda>deps (eid, edge). if de_to edge = node then ss_insert (de_from edge) deps else deps) [] (gs_edges s)"

text \<open>The key of an action: the digest of its command, its options and the given digests.\<close>

definition append_string :: "Bytes \<Rightarrow> string \<Rightarrow> Bytes" where
  "append_string material value = append_u32_le material (of_nat (length value)) @ map char_byte value"

definition append_option :: "Bytes \<Rightarrow> string \<times> string \<Rightarrow> Bytes" where
  "append_option material kv = append_string (append_string material (fst kv)) (snd kv)"

definition append_digest :: "Bytes \<Rightarrow> Digest256 \<Rightarrow> Bytes" where
  "append_digest material d = foldl append_u64_le material (digest_words d)"

definition action_material :: "BuildNode \<Rightarrow> Digest256 list \<Rightarrow> Digest256 list \<Rightarrow> Bytes" where
  "action_material node input_keys dependency_artifacts =
     (let material = append_string [] ''forge-action-key-v1'';
          material = append_string material (as_command (bn_action node));
          material = foldl append_option material (as_options (bn_action node));
          material = foldl append_digest material input_keys
      in foldl append_digest material dependency_artifacts)"

definition action_key_for :: "BuildNode \<Rightarrow> Digest256 list \<Rightarrow> Digest256 list \<Rightarrow> Digest256" where
  "action_key_for node input_keys dependency_artifacts =
     digest_bytes ''action'' (action_material node input_keys dependency_artifacts)"

section \<open>The reverse closure\<close>

text \<open>The dependency relation: a pair says that its first node depends on its second.\<close>

definition depends :: "Edges \<Rightarrow> (NodeId \<times> NodeId) set" where
  "depends edges = (\<lambda>e. (de_from (snd e), de_to (snd e))) ` set edges"

lemma closure_scan_sets:
  "set (fst (closure_scan edges n rw)) = set (fst rw) \<union> {f. (f, n) \<in> depends edges}"
  "set (snd (closure_scan edges n rw)) = set (snd rw) \<union> ({f. (f, n) \<in> depends edges} - set (fst rw))"
  unfolding closure_scan_def
  by (induction edges arbitrary: rw) (auto simp: closure_edge_def depends_def)

lemma closure_scan_sorted: "sorted_wrt (<) (fst rw) \<Longrightarrow> sorted_wrt (<) (fst (closure_scan edges n rw))"
  unfolding closure_scan_def by (induction edges arbitrary: rw) (auto simp: closure_edge_def)

lemma closed_upwards:
  assumes "\<And>f x. (f, x) \<in> R \<Longrightarrow> x \<in> S \<Longrightarrow> f \<in> S" "(n, s) \<in> R\<^sup>*" "s \<in> S"
  shows "n \<in> S"
  using assms(2,3) by (induction rule: converse_rtrancl_induct) (auto intro: assms(1))

lemma closure_loop_spec:
  assumes "set work \<subseteq> set reached"
    and "\<And>f x. (f, x) \<in> depends edges \<Longrightarrow> x \<in> set reached - set work \<Longrightarrow> f \<in> set reached"
  shows "set (closure_loop edges reached work) = {n. \<exists>s \<in> set reached. (n, s) \<in> (depends edges)\<^sup>*}"
  using assms
proof (induction edges reached work rule: closure_loop.induct)
  case (1 edges reached work)
  show ?case
  proof (cases "work = []")
    case True
    then show ?thesis using 1(3) closed_upwards [of "depends edges" "set reached"]
      by (subst closure_loop.simps) auto
  next
    case False
    let ?n = "last work" and ?rw = "closure_scan edges (last work) (reached, butlast work)"
    have work: "set work = insert ?n (set (butlast work))"
      using False by (metis append_butlast_last_id list.set(1,2) set_append Un_insert_right sup_bot.right_neutral)
    note sets = closure_scan_sets [of edges ?n "(reached, butlast work)"]
    have "set (closure_loop edges (fst ?rw) (snd ?rw)) = {n. \<exists>s \<in> set (fst ?rw). (n, s) \<in> (depends edges)\<^sup>*}"
      using 1(2,3) work by (intro 1(1) [OF False refl]) (auto simp: sets)
    also have "\<dots> = {n. \<exists>s \<in> set reached. (n, s) \<in> (depends edges)\<^sup>*}"
      using 1(2) work by (auto simp: sets intro: rtrancl_into_rtrancl)
    finally show ?thesis using False by (subst closure_loop.simps) (simp add: Let_def)
  qed
qed

lemma closure_loop_sorted: "sorted_wrt (<) reached \<Longrightarrow> sorted_wrt (<) (closure_loop edges reached work)"
proof (induction edges reached work rule: closure_loop.induct)
  case (1 edges reached work)
  then show ?case
    by (subst closure_loop.simps) (simp add: Let_def closure_scan_sorted)
qed

lemma reverse_closure_eq:
  "set (reverse_closure g seeds) = {n. \<exists>s \<in> set seeds. (n, s) \<in> (depends (bg_edges g))\<^sup>*}"
  unfolding reverse_closure_def by (rule closure_loop_spec) auto

lemma dependencies_fold:
  "set (foldl (\<lambda>ds (eid, e). if P e then ss_insert (f e) ds else ds) ds es) = set ds \<union> {f e |eid e. (eid, e) \<in> set es \<and> P e}"
  "sorted_wrt (<) ds \<Longrightarrow> sorted_wrt (<) (foldl (\<lambda>ds (eid, e). if P e then ss_insert (f e) ds else ds) ds es)"
  by (induction es arbitrary: ds) (auto split: if_splits)

lemma set_dependencies: "set (dependencies s n) = {m. (n, m) \<in> depends (gs_edges s)}"
  unfolding dependencies_def dependencies_fold by (force simp: depends_def)

lemma set_reverse_dependencies: "set (reverse_dependencies s n) = {m. (m, n) \<in> depends (gs_edges s)}"
  unfolding reverse_dependencies_def dependencies_fold by (force simp: depends_def)

section \<open>The graph invariant\<close>

definition unique_on :: "('a \<Rightarrow> 'b) \<Rightarrow> ('k \<times> 'a) list \<Rightarrow> bool" where
  "unique_on f m \<longleftrightarrow> (\<forall>x \<in> set m. \<forall>y \<in> set m. f (snd x) = f (snd y) \<longrightarrow> fst x = fst y)"

definition edge_triple :: "DependencyEdge \<Rightarrow> NodeId \<times> NodeId \<times> EdgeKind" where
  "edge_triple e = (de_from e, de_to e, de_kind e)"

definition nodes_inv :: "u64 \<Rightarrow> Nodes \<Rightarrow> bool" where
  "nodes_inv next nodes \<longleftrightarrow> sm_ok nodes \<and> unique_on bn_name nodes \<and>
     (\<forall>(n, node) \<in> set nodes. bn_id node = n \<and> bn_name node \<noteq> [] \<and> n < Id next)"

definition edges_inv :: "u64 \<Rightarrow> Nodes \<Rightarrow> Edges \<Rightarrow> bool" where
  "edges_inv next nodes edges \<longleftrightarrow> sm_ok edges \<and> unique_on edge_triple edges \<and>
     (\<forall>(k, e) \<in> set edges. de_id e = k \<and> k < Id next \<and> sm_contains nodes (de_from e) \<and> sm_contains nodes (de_to e))"

text \<open>
  Nodes and edges are stored under their own ids, which were all handed out before; names are
  unique and not empty; no edge dangles and no dependency of one kind is stored twice.
\<close>

definition graph_inv :: "BuildGraph \<Rightarrow> bool" where
  "graph_inv g \<longleftrightarrow> nodes_inv (bg_next_node g) (bg_nodes g) \<and> edges_inv (bg_next_edge g) (bg_nodes g) (bg_edges g)"

lemma new_graph_inv: "graph_inv new_graph"
  by (simp add: graph_inv_def new_graph_def nodes_inv_def edges_inv_def unique_on_def)

lemma sm_put_entries: "sm_ok m \<Longrightarrow> set (sm_put k v m) = insert (k, v) {e \<in> set m. fst e \<noteq> k}"
  using std_map.find_Some_iff [of "sm_put k v m"] std_map.find_Some_iff [of m] by (force split: if_splits)

lemma unique_on_put:
  assumes "sm_ok m" "unique_on f m" "\<And>l w. (l, w) \<in> set m \<Longrightarrow> f w = f v \<Longrightarrow> l = k"
  shows "unique_on f (sm_put k v m)"
  using assms by (force simp: unique_on_def sm_put_entries)

lemma unique_on_filter: "unique_on f m \<Longrightarrow> unique_on f (filter P m)"
  by (simp add: unique_on_def)

lemma find_entry_None: "find P m = None \<Longrightarrow> e \<in> set m \<Longrightarrow> \<not> P e"
  by (auto simp: find_None_iff)

lemma find_entry_Some: "find P m = Some e \<Longrightarrow> e \<in> set m \<and> P e"
  by (auto simp: find_Some_iff)

lemma sm_contains_put [simp]: "sm_contains (sm_put k v m) l \<longleftrightarrow> l = k \<or> sm_contains m l"
  by (simp add: sm_contains_def)

lemma unique_onD: "\<lbrakk>unique_on f m; (l, w) \<in> set m; (k, v) \<in> set m; f w = f v\<rbrakk> \<Longrightarrow> l = k"
  by (force simp: unique_on_def)

lemma nodes_invD:
  assumes "nodes_inv next nodes" "(n, node) \<in> set nodes"
  shows "bn_id node = n" "bn_name node \<noteq> []" "n < Id next"
    and "(l, w) \<in> set nodes \<Longrightarrow> bn_name w = bn_name node \<Longrightarrow> l = n"
  using assms unique_onD [of bn_name nodes l w n node] by (auto simp: nodes_inv_def)

lemma nodes_inv_put:
  assumes "nodes_inv next nodes" "n < Id next" "bn_id node = n" "bn_name node \<noteq> []"
    and "\<And>l w. (l, w) \<in> set nodes \<Longrightarrow> bn_name w = bn_name node \<Longrightarrow> l = n"
  shows "nodes_inv next (sm_put n node nodes)"
  using assms by (auto simp: nodes_inv_def sm_put_entries intro: unique_on_put)

lemma less_Id_mono: "n < Id x \<Longrightarrow> x \<le> y \<Longrightarrow> n < Id y"
  by (cases n) auto

lemma nodes_inv_next: "nodes_inv next nodes \<Longrightarrow> next \<le> next' \<Longrightarrow> nodes_inv next' nodes"
  unfolding nodes_inv_def using less_Id_mono by blast

lemma edges_inv_mono:
  assumes "edges_inv next nodes edges" "next \<le> next'" "\<And>n. sm_contains nodes n \<Longrightarrow> sm_contains nodes' n"
  shows "edges_inv next' nodes' edges"
  using assms(1,3) less_Id_mono [OF _ assms(2)] unfolding edges_inv_def by blast

lemma nodes_inv_mark:
  assumes "nodes_inv next nodes"
  shows "nodes_inv next (mark_dirty n nodes)"
proof (cases "sm_find nodes n")
  case (Some node)
  then have "(n, node) \<in> set nodes" by (rule sm_find_mem)
  then have "nodes_inv next (sm_put n (node\<lparr>bn_state := ns_dirty\<rparr>) nodes)"
    using assms nodes_invD [OF assms] by (intro nodes_inv_put) simp_all
  then show ?thesis by (simp add: mark_dirty_def Some)
qed (simp add: mark_dirty_def assms)

lemma contains_mark [simp]: "sm_contains (mark_dirty n nodes) l \<longleftrightarrow> sm_contains nodes l"
  by (auto simp: mark_dirty_def sm_contains_def split: option.split)

lemma edges_inv_put:
  assumes "edges_inv next nodes edges" "k < Id next" "de_id e = k" "sm_contains nodes (de_from e)" "sm_contains nodes (de_to e)"
    and "\<And>l w. (l, w) \<in> set edges \<Longrightarrow> edge_triple w = edge_triple e \<Longrightarrow> l = k"
  shows "edges_inv next nodes (sm_put k e edges)"
  using assms by (auto simp: edges_inv_def sm_put_entries intro: unique_on_put)

lemma word_le_succ: "(x :: u64) \<noteq> - 1 \<Longrightarrow> x \<le> x + 1"
  by (rule order_less_imp_le) (rule word_less_succ)

lemma put_node_inv [forge_inv]:
  assumes inv: "graph_inv g" and room: "bg_next_node g \<noteq> - 1"
  shows "graph_inv (fst (put_node g name action))"
proof (cases "name = []")
  case False
  note ni = inv [unfolded graph_inv_def, THEN conjunct1] and ei = inv [unfolded graph_inv_def, THEN conjunct2]
  show ?thesis
  proof (cases "find (\<lambda>(nid, node). bn_name node = name) (bg_nodes g)")
    case None
    let ?n = "bg_next_node g"
    let ?node = "\<lparr>bn_id = Id ?n, bn_generation = gen_next (bg_generation g), bn_name = name, bn_action = action,
      bn_state = ns_dirty, bn_last_action_key = zero_digest\<rparr>"
    have le: "?n \<le> ?n + 1" "?n < ?n + 1" using room by (simp_all add: word_le_succ word_less_succ)
    have "nodes_inv (?n + 1) (sm_put (Id ?n) ?node (bg_nodes g))"
      using nodes_inv_next [OF ni le(1)] le(2) False find_entry_None [OF None] by (intro nodes_inv_put) auto
    moreover have "edges_inv (bg_next_edge g) (sm_put (Id ?n) ?node (bg_nodes g)) (bg_edges g)"
      using ei by (rule edges_inv_mono) auto
    ultimately show ?thesis
      using False None by (simp add: put_node_def publish_generation_def graph_inv_def Let_def)
  next
    case (Some e)
    obtain n node where e: "e = (n, node)" by (cases e)
    have mem: "(n, node) \<in> set (bg_nodes g)" "bn_name node = name" using find_entry_Some [OF Some] by (auto simp: e)
    let ?node = "node\<lparr>bn_action := action, bn_generation := gen_next (bg_generation g), bn_state := ns_dirty\<rparr>"
    have "nodes_inv (bg_next_node g) (sm_put n ?node (bg_nodes g))"
      using ni nodes_invD [OF ni mem(1)] by (intro nodes_inv_put) simp_all
    moreover have "edges_inv (bg_next_edge g) (sm_put n ?node (bg_nodes g)) (bg_edges g)"
      using ei by (rule edges_inv_mono) auto
    ultimately show ?thesis
      using False Some by (simp add: put_node_def publish_generation_def graph_inv_def Let_def e)
  qed
qed (simp add: put_node_def inv)

lemma put_edge_inv [forge_inv]:
  assumes inv: "graph_inv g" and room: "bg_next_edge g \<noteq> - 1"
  shows "graph_inv (fst (put_edge g from to kind))"
proof -
  let ?n = "bg_next_edge g" and ?nodes = "mark_dirty from (bg_nodes g)"
  let ?e = "\<lparr>de_id = Id ?n, de_generation = gen_next (bg_generation g), de_from = from, de_to = to, de_kind = kind\<rparr>"
  have le: "?n \<le> ?n + 1" "?n < ?n + 1" using room by (simp_all add: word_le_succ word_less_succ)
  note ni = inv [unfolded graph_inv_def, THEN conjunct1] and ei = inv [unfolded graph_inv_def, THEN conjunct2]
  have "edges_inv (?n + 1) ?nodes (sm_put (Id ?n) ?e (bg_edges g))"
    if "sm_contains (bg_nodes g) from" "sm_contains (bg_nodes g) to"
      and none: "find (\<lambda>(eid, edge). de_from edge = from \<and> de_to edge = to \<and> de_kind edge = kind) (bg_edges g) = None"
  proof (intro edges_inv_put)
    show "edges_inv (?n + 1) ?nodes (bg_edges g)" using ei le(1) by (rule edges_inv_mono) simp
    show "l = Id ?n" if "(l, w) \<in> set (bg_edges g)" "edge_triple w = edge_triple ?e" for l w
      using find_entry_None [OF none that(1)] that(2) by (simp add: edge_triple_def)
  qed (use that le in simp_all)
  then show ?thesis
    using inv nodes_inv_mark [OF ni, of "from"]
    by (auto simp: put_edge_def publish_generation_def graph_inv_def Let_def split: option.split)
qed

lemma remove_discovered_from_inv [forge_inv]: "graph_inv g \<Longrightarrow> graph_inv (remove_discovered_from g n)"
  by (auto simp: graph_inv_def remove_discovered_from_def publish_generation_def edges_inv_def unique_on_filter)

text \<open>Sequences of operations on a graph.\<close>

datatype graph_op = PutNode string ActionSpec | PutEdge NodeId NodeId EdgeKind | RemoveDiscovered NodeId

fun graph_step :: "BuildGraph \<Rightarrow> graph_op \<Rightarrow> BuildGraph" where
  "graph_step g (PutNode name action) = fst (put_node g name action)"
| "graph_step g (PutEdge f t kind) = fst (put_edge g f t kind)"
| "graph_step g (RemoveDiscovered n) = remove_discovered_from g n"

lemma graph_step_counters:
  "unat (bg_next_node (graph_step g op)) \<le> Suc (unat (bg_next_node g))"
  "unat (bg_next_edge (graph_step g op)) \<le> Suc (unat (bg_next_edge g))"
proof -
  have "unat (x + 1) \<le> Suc (unat x)" for x :: u64
    using mod_less_eq_dividend [of "Suc (unat x)" "2 ^ 64"] by (simp add: unat_word_ariths)
  then show "unat (bg_next_node (graph_step g op)) \<le> Suc (unat (bg_next_node g))"
    "unat (bg_next_edge (graph_step g op)) \<le> Suc (unat (bg_next_edge g))"
    by (cases op; auto simp: put_node_def put_edge_def remove_discovered_from_def publish_generation_def Let_def
        split: option.split)+
qed

lemma graph_run_inv:
  assumes "length ops < 2 ^ 64 - 1"
  shows "graph_inv (foldl graph_step new_graph ops) \<and> unat (bg_next_node (foldl graph_step new_graph ops)) \<le> Suc (length ops) \<and>
    unat (bg_next_edge (foldl graph_step new_graph ops)) \<le> Suc (length ops)"
  using assms
proof (induction ops rule: rev_induct)
  case (snoc op ops)
  let ?g = "foldl graph_step new_graph ops"
  have IH: "graph_inv ?g" "unat (bg_next_node ?g) \<le> Suc (length ops)" "unat (bg_next_edge ?g) \<le> Suc (length ops)"
    using snoc by simp_all
  have "unat (- 1 :: u64) = 2 ^ 64 - 1" by (simp add: unat_max_word)
  then have "bg_next_node ?g \<noteq> - 1" "bg_next_edge ?g \<noteq> - 1" using IH snoc.prems by force+
  then have "graph_inv (graph_step ?g op)" using IH(1) by (cases op) (simp_all add: forge_inv)
  then show ?case using graph_step_counters [of ?g op] IH(2,3) by simp
qed (simp add: new_graph_inv, simp add: new_graph_def)

section \<open>Action keys\<close>

lemma append_string_eq: "append_string m v = m @ le32 (of_nat (length v)) @ map char_byte v"
  by (simp add: append_string_def)

lemma foldl_append_option: "foldl append_option m os = m @ foldl append_option [] os"
  by (induction os rule: rev_induct) (simp_all add: append_option_def append_string_eq)

lemma append_digest_eq: "append_digest m d = m @ concat (map le64 (digest_words d))"
  by (cases d) (simp add: append_digest_def)

lemma foldl_append_digest: "foldl append_digest m ds = m @ concat (map (\<lambda>d. concat (map le64 (digest_words d))) ds)"
  by (induction ds arbitrary: m) (simp_all add: append_digest_eq)

lemma action_material_eq:
  "action_material node is ds = append_string [] ''forge-action-key-v1'' @ le32 (of_nat (length (as_command (bn_action node)))) @
     map char_byte (as_command (bn_action node)) @ foldl append_option [] (as_options (bn_action node)) @
     concat (map (\<lambda>d. concat (map le64 (digest_words d))) (is @ ds))"
  unfolding action_material_def Let_def foldl_append_digest
  by (subst foldl_append_option) (simp add: append_string_eq)

lemma unat_char_byte: "unat (char_byte c) = of_char c"
  unfolding char_byte_def by (subst of_nat_of_char [symmetric]) (simp add: unat_of_nat)

lemma char_byte_inj [simp]: "char_byte c = char_byte d \<longleftrightarrow> c = d"
  by (metis unat_char_byte of_char_eq_iff)

section \<open>Properties\<close>

text \<open>A graph of three nodes for the witnesses: app depends on lib, lib depends on gen.\<close>

definition plain_action :: "string \<Rightarrow> ActionSpec" where
  "plain_action cmd = \<lparr>as_command = cmd, as_options = []\<rparr>"

definition demo_ops :: "graph_op list" where
  "demo_ops =
     [PutNode ''app'' (plain_action ''link''), PutNode ''lib'' (plain_action ''ar''), PutNode ''gen'' (plain_action ''py''),
      PutEdge (Id 1) (Id 2) ek_declared, PutEdge (Id 2) (Id 3) ek_discovered]"

definition demo_graph :: BuildGraph where
  "demo_graph = foldl graph_step new_graph demo_ops"

lemma length_demo_ops: "length demo_ops < 2 ^ 64 - 1"
  by (simp add: demo_ops_def)

lemma demo_graph_inv: "graph_inv demo_graph"
  using graph_run_inv [OF length_demo_ops] by (simp only: demo_graph_def)

text \<open>
  C23. The invariant of the build graph holds after every sequence of operations, as long as
  the 64-bit id counters do not wrap around: nodes and edges are stored under their own ids,
  names are unique and not empty, no edge dangles and no dependency of one kind is stored twice.
\<close>

theorem graph_invariant:
  assumes "length ops < 2 ^ 64 - 1"
  shows "graph_inv (foldl graph_step new_graph ops)"
  using graph_run_inv [OF assms] by simp

theorem graph_invariant_witness: "graph_inv demo_graph"
  unfolding demo_graph_def by (rule graph_invariant [OF length_demo_ops])

text \<open>
  C24. The reverse closure of a set of nodes is exactly the set of the nodes that depend on
  one of them, directly or through others, in increasing order and without duplicates.
\<close>

theorem reverse_closure_dependents:
  assumes "sorted_wrt (<) seeds"
  shows "set (reverse_closure g seeds) = {n. \<exists>s. s \<in> set seeds \<and> (n, s) \<in> (depends (bg_edges g))\<^sup>*} \<and>
    sorted_wrt (<) (reverse_closure g seeds)"
proof
  show "set (reverse_closure g seeds) = {n. \<exists>s. s \<in> set seeds \<and> (n, s) \<in> (depends (bg_edges g))\<^sup>*}"
    by (auto simp: reverse_closure_eq)
  show "sorted_wrt (<) (reverse_closure g seeds)"
    unfolding reverse_closure_def by (rule closure_loop_sorted [OF assms])
qed

theorem reverse_closure_dependents_witness:
  "set (reverse_closure demo_graph [Id 3]) = {n. \<exists>s. s \<in> set [Id 3] \<and> (n, s) \<in> (depends (bg_edges demo_graph))\<^sup>*} \<and>
   reverse_closure demo_graph [Id 3] = [Id 1, Id 2, Id 3]"
proof -
  have "reverse_closure demo_graph [Id 3] = [Id 1, Id 2, Id 3]" by code_simp
  then show ?thesis using reverse_closure_dependents [of "[Id 3]" demo_graph] by simp
qed

text \<open>
  C25. Putting a node under a name updates the node of that name or adds one under a fresh id: an
  empty name is refused without a change; otherwise the returned id holds the action afterwards,
  dirty and at the new generation of the graph, every other node and all edges are unchanged, a node
  that had the name before keeps its id and its last action key, and the returned id belonged to the
  node of that name or to none.
\<close>

theorem put_node_upserts:
  assumes inv: "graph_inv g" and put: "put_node g name action = (g', r)"
  shows "if name = [] then g' = g \<and> r = Inl (graph_conflict ''node name is empty'')
   else \<exists>n node. r = Inr n \<and> sm_find (bg_nodes g') n = Some node \<and> bn_id node = n \<and> bn_name node = name \<and> bn_action node = action \<and>
     bn_state node = ns_dirty \<and> bn_generation node = bg_generation g' \<and> bg_generation g' = gen_next (bg_generation g) \<and>
     (\<forall>m. m \<noteq> n \<longrightarrow> sm_find (bg_nodes g') m = sm_find (bg_nodes g) m) \<and> bg_edges g' = bg_edges g \<and>
     (\<forall>m old. sm_find (bg_nodes g) m = Some old \<and> bn_name old = name \<longrightarrow> m = n \<and> bn_last_action_key node = bn_last_action_key old) \<and>
     (\<forall>old. sm_find (bg_nodes g) n = Some old \<longrightarrow> bn_name old = name)"
proof (cases "name = []")
  case True
  then show ?thesis using put by (simp add: put_node_def)
next
  case name: False
  have ok: "sm_ok (bg_nodes g)" and ni: "nodes_inv (bg_next_node g) (bg_nodes g)"
    using inv by (simp_all add: graph_inv_def nodes_inv_def)
  show ?thesis
  proof (cases "find (\<lambda>(nid, node). bn_name node = name) (bg_nodes g)")
    case None
    have "bn_name old \<noteq> name" if "sm_find (bg_nodes g) m = Some old" for m old
      using find_entry_None [OF None sm_find_mem [OF that]] by simp
    moreover have "sm_find (bg_nodes g) (Id (bg_next_node g)) \<noteq> Some old" for old
      using nodes_invD(3) [OF ni sm_find_mem, of "Id (bg_next_node g)" old] by auto
    ultimately show ?thesis
      using put name None by (fastforce simp: put_node_def publish_generation_def Let_def)
  next
    case (Some e)
    obtain n node where e: "e = (n, node)" by (cases e)
    have mem: "(n, node) \<in> set (bg_nodes g)" "bn_name node = name" using find_entry_Some [OF Some] by (auto simp: e)
    then have at_n: "sm_find (bg_nodes g) n = Some node" using std_map.find_Some_iff [OF ok] by simp
    have only: "m = n \<and> old = node" if "sm_find (bg_nodes g) m = Some old" "bn_name old = name" for m old
      using nodes_invD(4) [OF ni mem(1) sm_find_mem [OF that(1)]] that mem(2) at_n by simp
    let ?node = "node\<lparr>bn_action := action, bn_generation := gen_next (bg_generation g), bn_state := ns_dirty\<rparr>"
    have g': "r = Inr n" "g' = publish_generation (g\<lparr>bg_nodes := sm_put n ?node (bg_nodes g)\<rparr>)"
      using put name Some by (simp_all add: put_node_def Let_def e)
    have "\<exists>n node. r = Inr n \<and> sm_find (bg_nodes g') n = Some node \<and> bn_id node = n \<and> bn_name node = name \<and> bn_action node = action \<and>
     bn_state node = ns_dirty \<and> bn_generation node = bg_generation g' \<and> bg_generation g' = gen_next (bg_generation g) \<and>
     (\<forall>m. m \<noteq> n \<longrightarrow> sm_find (bg_nodes g') m = sm_find (bg_nodes g) m) \<and> bg_edges g' = bg_edges g \<and>
     (\<forall>m old. sm_find (bg_nodes g) m = Some old \<and> bn_name old = name \<longrightarrow> m = n \<and> bn_last_action_key node = bn_last_action_key old) \<and>
     (\<forall>old. sm_find (bg_nodes g) n = Some old \<longrightarrow> bn_name old = name)"
      by (rule exI [of _ n], rule exI [of _ ?node])
        (simp add: g' publish_generation_def mem(2) at_n nodes_invD(1) [OF ni mem(1)], metis only)
    then show ?thesis using name by simp
  qed
qed

theorem put_node_upserts_witness:
  "\<exists>node. sm_find (bg_nodes (fst (put_node demo_graph ''lib'' (plain_action ''ld'')))) (Id 2) = Some node \<and>
     bn_action node = plain_action ''ld''"
proof -
  have r: "put_node demo_graph ''lib'' (plain_action ''ld'') =
      (fst (put_node demo_graph ''lib'' (plain_action ''ld'')), snd (put_node demo_graph ''lib'' (plain_action ''ld'')))" by simp
  have id: "snd (put_node demo_graph ''lib'' (plain_action ''ld'')) = Inr (Id 2)" by code_simp
  show ?thesis using put_node_upserts [OF demo_graph_inv r] unfolding id by auto
qed

text \<open>
  C26. The action key notices every changed character of the command: two nodes that differ in
  one character of their commands have different keys for the same inputs.
\<close>

theorem action_key_notices_command:
  assumes "i < length (as_command (bn_action node))" "c \<noteq> as_command (bn_action node) ! i"
    and "node' = node\<lparr>bn_action := (bn_action node)\<lparr>as_command := (as_command (bn_action node))[i := c]\<rparr>\<rparr>"
  shows "action_key_for node' is ds \<noteq> action_key_for node is ds"
proof -
  let ?pre = "append_string [] ''forge-action-key-v1'' @ le32 (of_nat (length (as_command (bn_action node))))"
  let ?cmd = "map char_byte (as_command (bn_action node))"
  let ?m = "action_material node is ds" and ?j = "length ?pre + i"
  have "action_material node' is ds = ?m[?j := char_byte c]"
    using assms(1) by (simp add: action_material_eq assms(3) list_update_append map_update)
  moreover have "?j < length ?m" "?m ! ?j = char_byte (as_command (bn_action node) ! i)"
    using assms(1) by (simp_all add: action_material_eq nth_append)
  ultimately show ?thesis
    using assms(2) digest_one_byte [of ?j ?m "''action''" "char_byte c"] by (simp add: action_key_for_def)
qed

theorem action_key_notices_command_witness:
  "let node = \<lparr>bn_id = Id 1, bn_generation = Generation 2, bn_name = ''app'', bn_action = plain_action ''link'',
         bn_state = ns_dirty, bn_last_action_key = zero_digest\<rparr>
   in action_key_for (node\<lparr>bn_action := plain_action ''lint''\<rparr>) [] [] \<noteq> action_key_for node [] []"
  unfolding Let_def
  by (rule action_key_notices_command [of 3 _ "CHR ''t''"]) (simp_all add: plain_action_def)

text \<open>
  The action key does not tell input digests from dependency digests: only the
  concatenation of the two lists enters the key.
\<close>

theorem action_key_ignores_role:
  "action_key_for node (is @ ds) [] = action_key_for node is ds"
  by (simp add: action_key_for_def action_material_eq)

end
