(* ===== verification/Forge_Cycle.thy ===== *)
theory Forge_Cycle
  imports Forge_Graph
begin

text \<open>
  Cycle detection (\<^verbatim>\<open>src/graph/cycle_analyzer.cpp\<close>): the depth-first search with its colours and
  its explicit stack. The recursive lambda \<open>visit\<close> is modelled with the recursion depth as fuel;
  running out of fuel is a result of its own, and the lemmas show that the number of nodes is
  enough fuel, that a witness is a cycle of the graph and that its absence means there is none.
\<close>

section \<open>Definitions\<close>

datatype Color = white | gray | black

record CycleWitness =
  cw_nodes :: "NodeId list"
  cw_edges :: "EdgeId list"

type_synonym Colors = "(NodeId, Color) std_map"

text \<open>Reading a missing colour with \<open>operator[]\<close> gives the first enumerator.\<close>

definition color_of :: "Colors \<Rightarrow> NodeId \<Rightarrow> Color" where
  "color_of color n = (case sm_find color n of None \<Rightarrow> white | Some c \<Rightarrow> c)"

text \<open>The outcome of \<open>visit\<close>: a witness, or the updated colours and stack.\<close>

datatype visit_result = Found CycleWitness | Visited Colors "NodeId list" | OutOfFuel

fun witness_edges :: "Edges \<Rightarrow> NodeId list \<Rightarrow> EdgeId list" where
  "witness_edges edges (a # b # rest) =
     (case find (\<lambda>(eid, e). de_from e = a \<and> de_to e = b) edges of
        None \<Rightarrow> witness_edges edges (b # rest)
      | Some (eid, e) \<Rightarrow> eid # witness_edges edges (b # rest))"
| "witness_edges edges _ = []"

definition make_witness :: "Edges \<Rightarrow> NodeId list \<Rightarrow> NodeId \<Rightarrow> CycleWitness" where
  "make_witness edges stack to =
     (let nodes = dropWhile (\<lambda>n. n \<noteq> to) stack @ [to]
      in \<lparr>cw_nodes = nodes, cw_edges = witness_edges edges nodes\<rparr>)"

function (sequential) visit :: "nat \<Rightarrow> Edges \<Rightarrow> NodeId \<Rightarrow> Colors \<Rightarrow> NodeId list \<Rightarrow> visit_result"
  and visit_edges :: "nat \<Rightarrow> Edges \<Rightarrow> NodeId \<Rightarrow> Edges \<Rightarrow> Colors \<Rightarrow> NodeId list \<Rightarrow> visit_result" where
  "visit 0 edges node color stack = OutOfFuel"
| "visit (Suc fuel) edges node color stack =
     visit_edges fuel edges node edges (sm_put node gray color) (stack @ [node])"
| "visit_edges fuel edges node [] color stack = Visited (sm_put node black color) (butlast stack)"
| "visit_edges fuel edges node ((eid, edge) # rest) color stack =
     (if de_from edge \<noteq> node then visit_edges fuel edges node rest color stack
      else if color_of color (de_to edge) = white then
        (case visit fuel edges (de_to edge) color stack of
           Visited color' stack' \<Rightarrow> visit_edges fuel edges node rest color' stack'
         | r \<Rightarrow> r)
      else if color_of color (de_to edge) = gray then Found (make_witness edges stack (de_to edge))
      else visit_edges fuel edges node rest color stack)"
  by pat_completeness auto
termination
  by (relation "measures [case_sum (\<lambda>(fuel, _). fuel) (\<lambda>(fuel, _). fuel),
      case_sum (\<lambda>_. 0) (\<lambda>(_, _, _, rest, _). Suc (length rest))]") auto

fun visit_nodes :: "nat \<Rightarrow> Edges \<Rightarrow> NodeId list \<Rightarrow> Colors \<Rightarrow> NodeId list \<Rightarrow> visit_result" where
  "visit_nodes fuel edges [] color stack = Visited color stack"
| "visit_nodes fuel edges (n # ns) color stack =
     (if color_of color n = white then
        (case visit fuel edges n color stack of
           Visited color' stack' \<Rightarrow> visit_nodes fuel edges ns color' stack'
         | r \<Rightarrow> r)
      else visit_nodes fuel edges ns color stack)"

text \<open>The search with one unit of fuel per node; \<open>None\<close> is running out of it.\<close>

definition cycle_witness :: "BuildGraph \<Rightarrow> CycleWitness option option" where
  "cycle_witness g =
     (let color = foldl (\<lambda>color n. sm_put n white color) [] (sm_keys (bg_nodes g))
      in case visit_nodes (length (bg_nodes g)) (bg_edges g) (sm_keys (bg_nodes g)) color [] of
           Found w \<Rightarrow> Some (Some w)
         | Visited _ _ \<Rightarrow> Some None
         | OutOfFuel \<Rightarrow> None)"

section \<open>Witnesses are cycles\<close>

definition cycle_of :: "Edges \<Rightarrow> CycleWitness \<Rightarrow> bool" where
  "cycle_of edges w \<longleftrightarrow> 2 \<le> length (cw_nodes w) \<and> hd (cw_nodes w) = last (cw_nodes w) \<and> distinct (butlast (cw_nodes w)) \<and>
     Suc (length (cw_edges w)) = length (cw_nodes w) \<and>
     (\<forall>i < length (cw_edges w). \<exists>e. (cw_edges w ! i, e) \<in> set edges \<and>
        de_from e = cw_nodes w ! i \<and> de_to e = cw_nodes w ! Suc i)"

abbreviation linked :: "Edges \<Rightarrow> NodeId list \<Rightarrow> bool" where
  "linked edges ns \<equiv> successively (\<lambda>a b. (a, b) \<in> depends edges) ns"

lemma find_edge:
  assumes "(a, b) \<in> depends edges"
  obtains eid e where "find (\<lambda>(eid, e). de_from e = a \<and> de_to e = b) edges = Some (eid, e)"
    "(eid, e) \<in> set edges" "de_from e = a" "de_to e = b"
proof -
  let ?P = "\<lambda>(eid, e). de_from e = a \<and> de_to e = b"
  have "\<exists>x \<in> set edges. ?P x" using assms by (force simp: depends_def)
  then have "find ?P edges \<noteq> None" by (auto simp: find_None_iff)
  then obtain x where "find ?P edges = Some x" by blast
  then show ?thesis using find_entry_Some [of ?P edges x] by (cases x) (auto intro: that)
qed

lemma witness_edges_linked:
  "linked edges ns \<Longrightarrow> ns \<noteq> [] \<Longrightarrow> Suc (length (witness_edges edges ns)) = length ns \<and>
    (\<forall>i < length (witness_edges edges ns). \<exists>e. (witness_edges edges ns ! i, e) \<in> set edges \<and>
       de_from e = ns ! i \<and> de_to e = ns ! Suc i)"
proof (induction edges ns rule: witness_edges.induct)
  case (1 edges a b rest)
  then have "(a, b) \<in> depends edges" by simp
  then obtain eid e where f: "find (\<lambda>(eid, e). de_from e = a \<and> de_to e = b) edges = Some (eid, e)"
    "(eid, e) \<in> set edges" "de_from e = a" "de_to e = b" by (rule find_edge)
  show ?case using 1(2) [OF f(1) refl] 1(3) f by (auto simp: nth_Cons split: nat.split)
qed simp_all

lemma make_witness_cycle:
  assumes "linked edges stack" "distinct stack" "to \<in> set stack" "(last stack, to) \<in> depends edges"
  shows "cycle_of edges (make_witness edges stack to)"
proof -
  let ?d = "dropWhile (\<lambda>n. n \<noteq> to) stack"
  have ne: "?d \<noteq> []" using assms(3) by (simp add: dropWhile_eq_Nil_conv)
  have split: "stack = takeWhile (\<lambda>n. n \<noteq> to) stack @ ?d" by simp
  have hd: "hd ?d = to" using hd_dropWhile [OF ne] by simp
  have last: "last ?d = last stack" using ne split by (metis last_appendR)
  have "linked edges ?d" "distinct ?d"
    using assms(1,2) split by (metis successively_append_iff, simp add: distinct_dropWhile)
  then have "linked edges (?d @ [to])" using ne last assms(4) by (simp add: successively_append_iff)
  then show ?thesis
    using witness_edges_linked [of edges "?d @ [to]"] ne hd \<open>distinct ?d\<close>
    by (simp add: cycle_of_def make_witness_def Let_def Suc_le_eq)
qed

lemma cycle_of_cyclic:
  assumes "cycle_of edges w"
  shows "\<not> acyclic (depends edges)"
proof -
  let ?ns = "cw_nodes w"
  have "(?ns ! i, ?ns ! Suc i) \<in> depends edges" if "Suc i < length ?ns" for i
  proof -
    have "i < length (cw_edges w)" using assms that by (simp add: cycle_of_def)
    then obtain e where e: "(cw_edges w ! i, e) \<in> set edges" "de_from e = ?ns ! i" "de_to e = ?ns ! Suc i"
      using assms unfolding cycle_of_def by blast
    then have "(de_from e, de_to e) \<in> depends edges" unfolding depends_def by force
    then show ?thesis by (simp add: e)
  qed
  then have "(?ns ! 0, ?ns ! Suc i) \<in> (depends edges)\<^sup>+" if "Suc i < length ?ns" for i
    using that by (induction i) (auto intro: trancl_into_trancl)
  moreover have len: "2 \<le> length ?ns" and "hd ?ns = last ?ns" using assms by (simp_all add: cycle_of_def)
  moreover have "hd ?ns = ?ns ! 0" "last ?ns = ?ns ! (length ?ns - 1)" "length ?ns - 1 = Suc (length ?ns - 2)"
    using len by (cases ?ns; simp add: last_conv_nth)+
  ultimately have "(?ns ! 0, ?ns ! 0) \<in> (depends edges)\<^sup>+" by (metis Suc_le_lessD diff_less le_simps(2) numeral_2_eq_2 zero_less_one zero_less_Suc order.strict_trans2)
  then show ?thesis by (auto simp: acyclic_def)
qed

section \<open>The search invariant\<close>

definition dfs_inv :: "Edges \<Rightarrow> Colors \<Rightarrow> NodeId list \<Rightarrow> bool" where
  "dfs_inv edges color stack \<longleftrightarrow>
     (\<forall>n. color_of color n = gray \<longleftrightarrow> n \<in> set stack) \<and> distinct stack \<and> linked edges stack \<and>
     (\<forall>b m. color_of color b = black \<and> (b, m) \<in> depends edges \<longrightarrow> color_of color m = black) \<and>
     (\<forall>b. color_of color b = black \<longrightarrow> (b, b) \<notin> (depends edges)\<^sup>+)"

lemma color_of_put [simp]: "color_of (sm_put n c color) m = (if m = n then c else color_of color m)"
  by (simp add: color_of_def)

lemma dfs_inv_gray:
  assumes "dfs_inv edges color stack" "color_of color n = white" "stack \<noteq> [] \<longrightarrow> (last stack, n) \<in> depends edges"
  shows "dfs_inv edges (sm_put n gray color) (stack @ [n])"
proof -
  have "n \<notin> set stack" using assms(1,2) by (metis Color.distinct(1) dfs_inv_def)
  then show ?thesis
    using assms unfolding dfs_inv_def by (auto simp: successively_append_iff)
qed

text \<open>When all dependencies of the node on top of the stack are black, it can become black.\<close>

lemma dfs_inv_black:
  assumes inv: "dfs_inv edges color (stack @ [n])" and fin: "\<And>m. (n, m) \<in> depends edges \<Longrightarrow> color_of color m = black"
  shows "dfs_inv edges (sm_put n black color) stack"
proof -
  have n: "color_of color n = gray" using inv by (simp add: dfs_inv_def)
  have up: "color_of color m = black" if "(b, m) \<in> (depends edges)\<^sup>*" "color_of color b = black" for b m
    using that inv by (induction rule: rtrancl_induct) (auto simp: dfs_inv_def)
  have "(n, n) \<notin> (depends edges)\<^sup>+"
    using fin up n by (auto dest!: tranclD)
  then show ?thesis
    using inv fin n unfolding dfs_inv_def by (auto simp: successively_append_iff)
qed

definition keeps :: "NodeId set \<Rightarrow> Colors \<Rightarrow> Colors \<Rightarrow> bool" where
  "keeps S color color' \<longleftrightarrow> (\<forall>n. n \<notin> S \<and> color_of color n \<noteq> white \<longrightarrow> color_of color' n = color_of color n)"

definition whites :: "NodeId set \<Rightarrow> Colors \<Rightarrow> NodeId set" where
  "whites V color = {n \<in> V. color_of color n = white}"

lemma card_whites_keeps:
  assumes "finite V" "keeps {} c d"
  shows "card (whites V d) \<le> card (whites V c)"
proof (rule card_mono)
  show "whites V d \<subseteq> whites V c" using assms(2) by (auto simp: keeps_def whites_def)
qed (simp add: whites_def assms(1))

lemma card_whites_gray:
  assumes "finite V" "n \<in> V" "color_of color n = white"
  shows "Suc (card (whites V (sm_put n gray color))) = card (whites V color)"
proof -
  have "whites V (sm_put n gray color) = whites V color - {n}" by (auto simp: whites_def)
  moreover have "finite (whites V color)" "n \<in> whites V color" using assms by (simp_all add: whites_def)
  ultimately show ?thesis using card_Suc_Diff1 by metis
qed

definition targets_in :: "NodeId set \<Rightarrow> Edges \<Rightarrow> bool" where
  "targets_in V edges \<longleftrightarrow> finite V \<and> (\<forall>a b. (a, b) \<in> depends edges \<longrightarrow> b \<in> V)"

text \<open>
  The contract of the two mutually recursive functions. Visiting a node keeps every colour that
  is not white; the pass over the edges of a node blackens that node, which was gray.
\<close>

definition search_ok ::
    "NodeId set \<Rightarrow> NodeId set \<Rightarrow> nat \<Rightarrow> Edges \<Rightarrow> NodeId \<Rightarrow> Colors \<Rightarrow> NodeId list \<Rightarrow> visit_result \<Rightarrow> bool" where
  "search_ok V S fuel edges node color stack r \<longleftrightarrow>
     (case r of
        Found w \<Rightarrow> cycle_of edges w
      | Visited color' stack' \<Rightarrow> stack' = stack \<and> dfs_inv edges color' stack \<and> keeps S color color' \<and> color_of color' node = black
      | OutOfFuel \<Rightarrow> fuel < card (whites V color))"

lemma keeps_gray: "keeps {n} (sm_put n gray color) color' \<Longrightarrow> color_of color n = white \<Longrightarrow> keeps {} color color'"
  unfolding keeps_def by (metis color_of_put empty_iff singletonD)

lemma search_ok_step:
  assumes "search_ok V {} fuel edges n color stack r" "finite V"
    and "\<And>color'. \<lbrakk>r = Visited color' stack; dfs_inv edges color' stack; keeps {} color color'; color_of color' n = black\<rbrakk>
      \<Longrightarrow> search_ok V {node} fuel edges node color' below (k color')"
  shows "search_ok V {node} fuel edges node color below (case r of Visited color' stack' \<Rightarrow> k color' | r \<Rightarrow> r)"
proof (cases r)
  case (Visited c' s')
  then have "search_ok V {node} fuel edges node c' below (k c')" "keeps {} color c'"
    using assms(1,3) by (auto simp: search_ok_def)
  then show ?thesis
    using card_whites_keeps [OF assms(2), of color c']
    by (auto simp: Visited search_ok_def keeps_def split: visit_result.splits)
qed (use assms(1) in \<open>auto simp: search_ok_def\<close>)

lemma visit_edges_step:
  assumes inv: "targets_in V edges" "dfs_inv edges color stack" "stack = below @ [node]" "set ((eid, edge) # rest) \<subseteq> set edges"
    and pending: "\<And>m. (node, m) \<in> depends edges \<Longrightarrow> (node, m) \<in> depends ((eid, edge) # rest) \<or> color_of color m = black"
    and sub: "\<lbrakk>de_from edge = node; color_of color (de_to edge) = white; de_to edge \<in> V; (last stack, de_to edge) \<in> depends edges\<rbrakk>
      \<Longrightarrow> search_ok V {} fuel edges (de_to edge) color stack (visit fuel edges (de_to edge) color stack)"
    and skip: "\<lbrakk>de_from edge \<noteq> node \<or> color_of color (de_to edge) = black; \<And>m. (node, m) \<in> depends edges \<Longrightarrow> (node, m) \<in> depends rest \<or> color_of color m = black\<rbrakk>
      \<Longrightarrow> search_ok V {node} fuel edges node color below (visit_edges fuel edges node rest color stack)"
    and next_edge: "\<And>color'. \<lbrakk>de_from edge = node; color_of color (de_to edge) = white; visit fuel edges (de_to edge) color stack = Visited color' stack;
        dfs_inv edges color' stack; \<And>m. (node, m) \<in> depends edges \<Longrightarrow> (node, m) \<in> depends rest \<or> color_of color' m = black\<rbrakk>
      \<Longrightarrow> search_ok V {node} fuel edges node color' below (visit_edges fuel edges node rest color' stack)"
  shows "search_ok V {node} fuel edges node color below (visit_edges fuel edges node ((eid, edge) # rest) color stack)"
proof -
  let ?to = "de_to edge"
  have fin: "finite V" using inv(1) by (simp add: targets_in_def)
  have edge: "(de_from edge, ?to) \<in> depends edges" using inv(4) by (force simp: depends_def)
  have rest: "(node, m) \<in> depends rest \<or> color_of color' m = black"
    if "(node, m) \<in> depends edges" "de_from edge = node \<longrightarrow> color_of color' ?to = black" "keeps {} color color'" for m color'
    using pending [OF that(1)] that(2,3) by (auto simp: depends_def keeps_def)
  consider "de_from edge \<noteq> node \<or> color_of color ?to = black" | "de_from edge = node" "color_of color ?to = white"
    | "de_from edge = node" "color_of color ?to = gray" by (cases "color_of color ?to") auto
  then show ?thesis
  proof cases
    case 1
    then have "search_ok V {node} fuel edges node color below (visit_edges fuel edges node rest color stack)"
      using rest [of _ color] by (intro skip) (auto simp: keeps_def)
    then show ?thesis using 1 by auto
  next
    case 2
    have search: "search_ok V {} fuel edges ?to color stack (visit fuel edges ?to color stack)"
      using sub 2 inv(1,3,4) edge by (simp add: targets_in_def)
    then have "search_ok V {node} fuel edges node color below
        (case visit fuel edges ?to color stack of Visited c' s' \<Rightarrow> visit_edges fuel edges node rest c' stack | r \<Rightarrow> r)"
      using rest 2 by (intro search_ok_step [OF search fin] next_edge) simp_all
    moreover have "(case visit fuel edges ?to color stack of Visited c' s' \<Rightarrow> visit_edges fuel edges node rest c' stack | r \<Rightarrow> r) =
        (case visit fuel edges ?to color stack of Visited c' s' \<Rightarrow> visit_edges fuel edges node rest c' s' | r \<Rightarrow> r)"
      using search by (auto simp: search_ok_def split: visit_result.split)
    ultimately show ?thesis using 2 by simp
  next
    case 3
    then have "cycle_of edges (make_witness edges stack ?to)"
      using inv(2,3) edge by (intro make_witness_cycle) (auto simp: dfs_inv_def)
    then show ?thesis using 3 by (simp add: search_ok_def)
  qed
qed

lemma visit_contract:
  "\<lbrakk>targets_in V edges; dfs_inv edges color stack; color_of color node = white; node \<in> V;
    stack \<noteq> [] \<longrightarrow> (last stack, node) \<in> depends edges\<rbrakk>
    \<Longrightarrow> search_ok V {} fuel edges node color stack (visit fuel edges node color stack)"
  "\<lbrakk>targets_in V edges; dfs_inv edges color stack; stack = below @ [node]; set rest \<subseteq> set edges;
    \<And>m. (node, m) \<in> depends edges \<Longrightarrow> (node, m) \<in> depends rest \<or> color_of color m = black\<rbrakk>
    \<Longrightarrow> search_ok V {node} fuel edges node color below (visit_edges fuel edges node rest color stack)"
proof (induction fuel edges node color stack and fuel edges node rest color stack
    arbitrary: and below rule: visit_visit_edges.induct)
  case (1 edges node color stack)
  then have "node \<in> whites V color" "finite (whites V color)" by (auto simp: whites_def targets_in_def)
  then show ?case by (auto simp: search_ok_def card_gt_0_iff)
next
  case (2 fuel edges node color stack)
  let ?c = "sm_put node gray color"
  have "search_ok V {node} fuel edges node ?c stack (visit_edges fuel edges node edges ?c (stack @ [node]))"
    using 2(1) [OF 2(2) dfs_inv_gray [OF 2(3,4,6)] refl] by simp
  moreover have "Suc (card (whites V ?c)) = card (whites V color)"
    using card_whites_gray 2(2,4,5) by (simp add: targets_in_def)
  ultimately show ?case
    using 2(4) by (auto simp: search_ok_def keeps_gray split: visit_result.splits)
next
  case (3 fuel edges node color stack)
  then have "dfs_inv edges (sm_put node black color) below"
    by (intro dfs_inv_black) (auto simp: depends_def)
  then show ?case using 3 by (simp add: search_ok_def keeps_def)
next
  case (4 fuel edges node eid edge rest color stack)
  show ?case
  proof (rule visit_edges_step [OF 4(5-9)])
    show "search_ok V {} fuel edges (de_to edge) color stack (visit fuel edges (de_to edge) color stack)"
      if "de_from edge = node" "color_of color (de_to edge) = white" "de_to edge \<in> V" "(last stack, de_to edge) \<in> depends edges"
      using 4(2) that 4(5,6) by simp
    show "search_ok V {node} fuel edges node color below (visit_edges fuel edges node rest color stack)"
      if "de_from edge \<noteq> node \<or> color_of color (de_to edge) = black"
        "\<And>m. (node, m) \<in> depends edges \<Longrightarrow> (node, m) \<in> depends rest \<or> color_of color m = black"
      using 4(1) [OF _ 4(5,6,7) _ that(2)] 4(4) [OF _ _ _ 4(5,6,7) _ that(2)] that(1) 4(8) by (cases "de_from edge = node") simp_all
    show "search_ok V {node} fuel edges node color' below (visit_edges fuel edges node rest color' stack)"
      if "de_from edge = node" "color_of color (de_to edge) = white" "visit fuel edges (de_to edge) color stack = Visited color' stack"
        "dfs_inv edges color' stack" "\<And>m. (node, m) \<in> depends edges \<Longrightarrow> (node, m) \<in> depends rest \<or> color_of color' m = black" for color'
      using 4(3) [OF _ _ that(3) 4(5) that(4) 4(7) _ that(5)] that(1,2) 4(8) by simp
  qed
qed

lemma visit_nodes_contract:
  assumes "targets_in V edges" "set ns \<subseteq> V"
  shows "\<lbrakk>dfs_inv edges color []; card (whites V color) \<le> fuel\<rbrakk> \<Longrightarrow>
    (\<exists>w. visit_nodes fuel edges ns color [] = Found w \<and> cycle_of edges w) \<or>
    (\<exists>c. visit_nodes fuel edges ns color [] = Visited c [] \<and> dfs_inv edges c [] \<and> keeps {} color c \<and>
       (\<forall>n \<in> set ns. color_of c n = black))"
  using assms(2)
proof (induction ns arbitrary: color)
  case (Cons n ns)
  show ?case
  proof (cases "color_of color n = white")
    case True
    have "search_ok V {} fuel edges n color [] (visit fuel edges n color [])"
      using Cons.prems True by (intro visit_contract(1) [OF assms(1)]) auto
    then consider w where "visit fuel edges n color [] = Found w" "cycle_of edges w"
      | c where "visit fuel edges n color [] = Visited c []" "dfs_inv edges c []" "keeps {} color c" "color_of c n = black"
      using Cons.prems(2) by (auto simp: search_ok_def split: visit_result.splits)
    then show ?thesis
    proof cases
      case 2
      then have "card (whites V c) \<le> fuel"
        using card_whites_keeps [of V color c] assms(1) Cons.prems(2) by (simp add: targets_in_def)
      then show ?thesis
        using Cons.IH [OF 2(2)] Cons.prems(3) 2 True by (fastforce simp: keeps_def)
    qed (simp add: True)
  next
    case False
    then have "color_of color n = black" using Cons.prems(1) by (cases "color_of color n") (auto simp: dfs_inv_def)
    then show ?thesis using Cons False by (fastforce simp: keeps_def)
  qed
qed (simp add: keeps_def)

lemma initial_colors: "color_of (foldl (\<lambda>color n. sm_put n white color) color ns) n = (if n \<in> set ns then white else color_of color n)"
  by (induction ns arbitrary: color) auto

lemma depends_nodes:
  "graph_inv g \<Longrightarrow> (a, b) \<in> depends (bg_edges g) \<Longrightarrow> a \<in> set (sm_keys (bg_nodes g)) \<and> b \<in> set (sm_keys (bg_nodes g))"
  by (fastforce simp: graph_inv_def edges_inv_def depends_def sm_contains_iff sm_keys_def)

lemma cycle_witness_cases:
  assumes "graph_inv g"
  shows "(cycle_witness g = Some None \<and> acyclic (depends (bg_edges g))) \<or>
    (\<exists>w. cycle_witness g = Some (Some w) \<and> cycle_of (bg_edges g) w)"
proof -
  let ?V = "set (sm_keys (bg_nodes g))" and ?E = "bg_edges g"
  let ?c = "foldl (\<lambda>color n. sm_put n white color) [] (sm_keys (bg_nodes g))"
  have white: "color_of ?c n = white" for n by (simp add: initial_colors) (simp add: color_of_def)
  have "card (whites ?V ?c) \<le> length (bg_nodes g)"
    using card_length [of "sm_keys (bg_nodes g)"] by (simp add: whites_def white) (simp add: sm_keys_def)
  moreover have "targets_in ?V ?E" using depends_nodes [OF assms] by (auto simp: targets_in_def)
  moreover have "dfs_inv ?E ?c []" by (simp add: dfs_inv_def white)
  ultimately consider w where "visit_nodes (length (bg_nodes g)) ?E (sm_keys (bg_nodes g)) ?c [] = Found w" "cycle_of ?E w"
    | c where "visit_nodes (length (bg_nodes g)) ?E (sm_keys (bg_nodes g)) ?c [] = Visited c []" "dfs_inv ?E c []"
      "\<forall>n \<in> ?V. color_of c n = black"
    using visit_nodes_contract [of ?V ?E "sm_keys (bg_nodes g)" ?c "length (bg_nodes g)"] by blast
  then show ?thesis
  proof cases
    case 2
    have "n \<in> ?V" if "(n, n) \<in> (depends ?E)\<^sup>+" for n
      using that depends_nodes [OF assms] by (auto dest!: tranclD)
    then have "acyclic (depends ?E)" using 2(2,3) unfolding acyclic_def dfs_inv_def by blast
    then show ?thesis using 2(1) by (simp add: cycle_witness_def)
  qed (simp add: cycle_witness_def)
qed

section \<open>Properties\<close>

text \<open>
  C6. Cycle detection is exact and always returns: on a graph that satisfies its invariant it
  reports no witness exactly when the dependency relation is acyclic, and otherwise a witness
  that is a simple cycle, given by its nodes and by edges of the graph that connect them.
\<close>

theorem cycle_witness_exact:
  assumes "graph_inv g"
  shows "if acyclic (depends (bg_edges g)) then cycle_witness g = Some None
    else \<exists>w. cycle_witness g = Some (Some w) \<and> cycle_of (bg_edges g) w"
  using cycle_witness_cases [OF assms] cycle_of_cyclic by auto

definition cyclic_graph :: BuildGraph where
  "cyclic_graph = fst (put_edge demo_graph (Id 3) (Id 1) ek_declared)"

theorem cycle_witness_exact_witness:
  "cycle_witness cyclic_graph = Some (Some \<lparr>cw_nodes = [Id 1, Id 2, Id 3, Id 1], cw_edges = [Id 1, Id 2, Id 3]\<rparr>) \<and>
   \<not> acyclic (depends (bg_edges cyclic_graph))"
proof -
  have "cycle_witness cyclic_graph = Some (Some \<lparr>cw_nodes = [Id 1, Id 2, Id 3, Id 1], cw_edges = [Id 1, Id 2, Id 3]\<rparr>)"
    by code_simp
  moreover have "bg_next_edge demo_graph \<noteq> - 1" by code_simp
  then have "graph_inv cyclic_graph" unfolding cyclic_graph_def by (intro put_edge_inv demo_graph_inv)
  ultimately show ?thesis using cycle_witness_exact [of cyclic_graph] by auto
qed

end
