(* ===== verification/Forge_Credit.thy ===== *)
theory Forge_Credit
  imports Forge_Base
begin

text \<open>
  Byte credit as an interface. The FIPC session (\<open>send_credit\<close>, \<open>reserve_send\<close>) and the event
  hub (\<open>add_credit\<close>, \<open>publish\<close>) both keep a 64-bit credit per stream that grants raise with
  checked addition and sends lower; a terminal send beyond the credit goes out uncharged. The locale \<open>credit_ledger\<close> states that contract and proves
  the conservation law once; both components interpret it.
\<close>

section \<open>Ledgers\<close>

text \<open>A send carries the flag of a terminal message, which may go out beyond the credit.\<close>

datatype 'k credit_op = Grant 'k u64 | Spend 'k u64 bool

text \<open>Runs a sequence of operations; a refused operation leaves its state and the run goes on.\<close>

fun ledger_run ::
    "('s \<Rightarrow> 'k \<Rightarrow> u64 \<Rightarrow> 's \<times> unit Result) \<Rightarrow> ('s \<Rightarrow> 'k \<Rightarrow> u64 \<Rightarrow> bool \<Rightarrow> 's \<times> unit Result) \<Rightarrow>
     's \<Rightarrow> 'k credit_op list \<Rightarrow> 's" where
  "ledger_run grant spend s [] = s"
| "ledger_run grant spend s (Grant k n # ops) = ledger_run grant spend (fst (grant s k n)) ops"
| "ledger_run grant spend s (Spend k n t # ops) = ledger_run grant spend (fst (spend s k n t)) ops"

text \<open>
  The bytes granted to and charged to one stream by the operations that succeed. Every successful
  send is charged, except a terminal one beyond the credit of its stream.
\<close>

fun total_granted ::
    "('s \<Rightarrow> 'k \<Rightarrow> u64 \<Rightarrow> 's \<times> unit Result) \<Rightarrow> ('s \<Rightarrow> 'k \<Rightarrow> u64 \<Rightarrow> bool \<Rightarrow> 's \<times> unit Result) \<Rightarrow>
     'k \<Rightarrow> 's \<Rightarrow> 'k credit_op list \<Rightarrow> nat" where
  "total_granted grant spend j s [] = 0"
| "total_granted grant spend j s (Grant k n # ops) =
     (if k = j \<and> \<not> isl (snd (grant s k n)) then unat n else 0) + total_granted grant spend j (fst (grant s k n)) ops"
| "total_granted grant spend j s (Spend k n t # ops) = total_granted grant spend j (fst (spend s k n t)) ops"

definition beyond_credit :: "('s \<Rightarrow> 'k \<Rightarrow> u64 option) \<Rightarrow> 's \<Rightarrow> 'k \<Rightarrow> u64 \<Rightarrow> bool" where
  "beyond_credit balance s k n \<longleftrightarrow> (case balance s k of None \<Rightarrow> True | Some b \<Rightarrow> b < n)"

fun total_charged ::
    "('s \<Rightarrow> 'k \<Rightarrow> u64 option) \<Rightarrow> ('s \<Rightarrow> 'k \<Rightarrow> u64 \<Rightarrow> 's \<times> unit Result) \<Rightarrow>
     ('s \<Rightarrow> 'k \<Rightarrow> u64 \<Rightarrow> bool \<Rightarrow> 's \<times> unit Result) \<Rightarrow> 'k \<Rightarrow> 's \<Rightarrow> 'k credit_op list \<Rightarrow> nat" where
  "total_charged balance grant spend j s [] = 0"
| "total_charged balance grant spend j s (Grant k n # ops) = total_charged balance grant spend j (fst (grant s k n)) ops"
| "total_charged balance grant spend j s (Spend k n t # ops) =
     (if k = j \<and> \<not> isl (snd (spend s k n t)) \<and> \<not> (t \<and> beyond_credit balance s k n) then unat n else 0) +
     total_charged balance grant spend j (fst (spend s k n t)) ops"

lemma unat_sub_le: "n \<le> (b :: u64) \<Longrightarrow> unat b = unat (b - n) + unat n"
  by (simp add: unat_sub word_le_nat_alt)

locale credit_ledger =
  fixes balance :: "'s \<Rightarrow> 'k \<Rightarrow> u64 option"
    and grant :: "'s \<Rightarrow> 'k \<Rightarrow> u64 \<Rightarrow> 's \<times> unit Result"
    and spend :: "'s \<Rightarrow> 'k \<Rightarrow> u64 \<Rightarrow> bool \<Rightarrow> 's \<times> unit Result"
  assumes grant_ok: "\<lbrakk>grant s k n = (s', Inr u); balance s k = Some b\<rbrakk>
      \<Longrightarrow> \<exists>c. balance s' k = Some c \<and> unat c = unat b + unat n"
    and spend_ok: "\<lbrakk>spend s k n t = (s', Inr u); balance s k = Some b\<rbrakk>
      \<Longrightarrow> \<exists>c. balance s' k = Some c \<and> (if t \<and> b < n then c = b else unat b = unat c + unat n)"
    and grant_refused: "grant s k n = (s', Inl e) \<Longrightarrow> balance s' = balance s"
    and spend_refused: "spend s k n t = (s', Inl e) \<Longrightarrow> balance s' = balance s"
    and grant_other: "j \<noteq> k \<Longrightarrow> balance (fst (grant s k n)) j = balance s j"
    and spend_other: "j \<noteq> k \<Longrightarrow> balance (fst (spend s k n t)) j = balance s j"
begin

lemma grant_step:
  assumes "balance s j = Some b"
  shows "\<exists>c. balance (fst (grant s k n)) j = Some c \<and>
     unat c = unat b + (if k = j \<and> \<not> isl (snd (grant s k n)) then unat n else 0)"
proof (cases "snd (grant s k n)")
  case (Inl e)
  then show ?thesis using assms grant_refused [of s k n "fst (grant s k n)" e] by (simp add: prod_eq_iff)
next
  case (Inr u)
  then show ?thesis using assms grant_ok [of s k n "fst (grant s k n)" u b] grant_other [of j k s n]
    by (cases "k = j") (simp_all add: prod_eq_iff)
qed

lemma spend_step:
  assumes "balance s j = Some b"
  shows "\<exists>c. balance (fst (spend s k n t)) j = Some c \<and>
     unat b = unat c + (if k = j \<and> \<not> isl (snd (spend s k n t)) \<and> \<not> (t \<and> beyond_credit balance s k n) then unat n else 0)"
proof (cases "snd (spend s k n t)")
  case (Inl e)
  then show ?thesis using assms spend_refused [of s k n t "fst (spend s k n t)" e] by (simp add: prod_eq_iff)
next
  case (Inr u)
  then show ?thesis using assms spend_ok [of s k n t "fst (spend s k n t)" u b] spend_other [of j k s n t]
    by (cases "k = j") (auto simp: prod_eq_iff beyond_credit_def split: if_splits)
qed

text \<open>Conservation: what is left plus what was charged is what there was plus what was granted.\<close>

lemma conservation:
  "balance s j = Some b \<Longrightarrow>
    \<exists>c. balance (ledger_run grant spend s ops) j = Some c \<and>
      unat c + total_charged balance grant spend j s ops = unat b + total_granted grant spend j s ops"
proof (induction ops arbitrary: s b)
  case (Cons op ops)
  show ?case
  proof (cases op)
    case (Grant k n)
    obtain c where c: "balance (fst (grant s k n)) j = Some c"
        "unat c = unat b + (if k = j \<and> \<not> isl (snd (grant s k n)) then unat n else 0)"
      using grant_step [OF Cons.prems] by blast
    from Cons.IH [OF c(1)] c(2) show ?thesis by (auto simp: Grant)
  next
    case (Spend k n t)
    obtain c where c: "balance (fst (spend s k n t)) j = Some c"
        "unat b = unat c + (if k = j \<and> \<not> isl (snd (spend s k n t)) \<and> \<not> (t \<and> beyond_credit balance s k n) then unat n else 0)"
      using spend_step [OF Cons.prems] by blast
    from Cons.IH [OF c(1)] c(2) show ?thesis by (auto simp: Spend)
  qed
qed simp

end

end
