(* ===== verification/Forge_Event.thy ===== *)
theory Forge_Event
  imports Forge_Credit
begin

text \<open>
  The event hub (\<^verbatim>\<open>src/event/event_hub.cpp\<close>): per stream a byte credit, a queue and a flag for
  the gap marker. The lemmas show that a stream delivers exactly the accepted events in the order
  of their publication plus at most one gap marker, that no terminal event is lost, and that the
  hub keeps the credit contract.
\<close>

section \<open>Definitions\<close>

datatype EventKind = evk_progress | evk_gap | evk_queued | evk_running | evk_succeeded | evk_failed | evk_cancelled

record BuildEvent =
  be_kind :: EventKind
  be_message :: string
  be_terminal :: bool
  be_bytes :: u64

record EventStream =
  es_credit :: u64
  es_queued :: "BuildEvent list"
  es_gap_emitted :: bool

type_synonym EventHub = "(u32, EventStream) std_map"

definition hub_error :: "ErrorCode \<Rightarrow> string \<Rightarrow> Status" where
  "hub_error c msg = error c ''event-hub'' msg"

definition hub_open_stream :: "EventHub \<Rightarrow> u32 \<Rightarrow> u64 \<Rightarrow> EventHub \<times> unit Result" where
  "hub_open_stream h sid credit =
     (if sid = 0 \<or> sm_contains h sid then (h, Inl (hub_error ec_protocol ''invalid event stream''))
      else (sm_put sid \<lparr>es_credit = credit, es_queued = [], es_gap_emitted = False\<rparr> h, Inr ()))"

definition hub_add_credit :: "EventHub \<Rightarrow> u32 \<Rightarrow> u64 \<Rightarrow> EventHub \<times> unit Result" where
  "hub_add_credit h sid credit =
     (case sm_find h sid of
        None \<Rightarrow> (h, Inl (hub_error ec_protocol ''unknown event stream''))
      | Some s \<Rightarrow>
          (case checked_add (es_credit s) credit ''event-hub'' of
             Inl e \<Rightarrow> (h, Inl e)
           | Inr added \<Rightarrow> (sm_put sid (s\<lparr>es_credit := added\<rparr>) h, Inr ())))"

definition gap_event :: BuildEvent where
  "gap_event = \<lparr>be_kind = evk_gap, be_message = ''progress omitted by credit backpressure'',
     be_terminal = False, be_bytes = 0\<rparr>"

definition hub_publish :: "EventHub \<Rightarrow> u32 \<Rightarrow> BuildEvent \<Rightarrow> EventHub \<times> unit Result" where
  "hub_publish h sid ev =
     (case sm_find h sid of
        None \<Rightarrow> (h, Inl (hub_error ec_protocol ''unknown event stream''))
      | Some s \<Rightarrow>
          if be_bytes ev \<le> es_credit s
          then (sm_put sid (s\<lparr>es_credit := es_credit s - be_bytes ev, es_queued := es_queued s @ [ev]\<rparr>) h, Inr ())
          else if be_terminal ev
          then (sm_put sid (s\<lparr>es_queued := es_queued s @ [ev]\<rparr>) h, Inr ())
          else
            (if \<not> es_gap_emitted s
             then sm_put sid (s\<lparr>es_gap_emitted := True, es_queued := es_queued s @ [gap_event]\<rparr>) h
             else h,
             Inl (hub_error ec_backpressure ''progress event dropped'')))"

fun drain_queue :: "BuildEvent list \<Rightarrow> BuildEvent list \<Rightarrow> BuildEvent list" where
  "drain_queue out [] = out"
| "drain_queue out (ev # queued) = drain_queue (out @ [ev]) queued"

definition hub_drain :: "EventHub \<Rightarrow> u32 \<Rightarrow> EventHub \<times> BuildEvent list" where
  "hub_drain h sid =
     (case sm_find h sid of
        None \<Rightarrow> (h, [])
      | Some s \<Rightarrow> (sm_put sid (s\<lparr>es_queued := []\<rparr>) h, drain_queue [] (es_queued s)))"

section \<open>Delivery\<close>

lemma drain_queue_eq [simp]: "drain_queue out q = out @ q"
  by (induction out q rule: drain_queue.induct) simp_all

fun publish_all :: "EventHub \<Rightarrow> u32 \<Rightarrow> BuildEvent list \<Rightarrow> EventHub \<times> unit Result list" where
  "publish_all h sid [] = (h, [])"
| "publish_all h sid (ev # evs) =
     (case hub_publish h sid ev of (h', r) \<Rightarrow> (case publish_all h' sid evs of (h'', rs) \<Rightarrow> (h'', r # rs)))"

text \<open>The events of a run that were accepted, in order.\<close>

definition accepted :: "BuildEvent list \<Rightarrow> unit Result list \<Rightarrow> BuildEvent list" where
  "accepted evs rs = map fst (filter (\<lambda>(ev, r). \<not> isl r) (zip evs rs))"

abbreviation is_gap :: "BuildEvent \<Rightarrow> bool" where
  "is_gap ev \<equiv> be_kind ev = evk_gap"

lemma hub_publish_known:
  assumes "sm_find h sid = Some s" "hub_publish h sid ev = (h', r)"
  obtains s' where "sm_find h' sid = Some s'"
    "es_queued s' = es_queued s @ (if \<not> isl r then [ev] else if es_gap_emitted s then [] else [gap_event])"
    "es_gap_emitted s' = (es_gap_emitted s \<or> isl r)" "be_terminal ev \<Longrightarrow> \<not> isl r"
  using assms by (auto simp: hub_publish_def split: if_splits)

lemma publish_all_delivery:
  assumes "sm_find h sid = Some s" "publish_all h sid evs = (h', rs)" "list_all (\<lambda>ev. \<not> is_gap ev) evs"
  shows "\<exists>s' new. sm_find h' sid = Some s' \<and> es_queued s' = es_queued s @ new \<and> filter (\<lambda>ev. \<not> is_gap ev) new = accepted evs rs \<and>
    length (filter is_gap new) = (if \<not> es_gap_emitted s \<and> (\<exists>r \<in> set rs. isl r) then 1 else 0) \<and>
    filter be_terminal (accepted evs rs) = filter be_terminal evs"
  using assms
proof (induction evs arbitrary: h s rs)
  case (Cons ev evs)
  obtain h1 r where p: "hub_publish h sid ev = (h1, r)" by fastforce
  then obtain s1 where s1: "sm_find h1 sid = Some s1"
    "es_queued s1 = es_queued s @ (if \<not> isl r then [ev] else if es_gap_emitted s then [] else [gap_event])"
    "es_gap_emitted s1 = (es_gap_emitted s \<or> isl r)" "be_terminal ev \<Longrightarrow> \<not> isl r"
    using Cons.prems(1) by (metis hub_publish_known)
  obtain rs1 where rs: "publish_all h1 sid evs = (h', rs1)" "rs = r # rs1"
    using Cons.prems(2) p by (auto split: prod.splits)
  obtain s' new where IH: "sm_find h' sid = Some s'" "es_queued s' = es_queued s1 @ new"
    "filter (\<lambda>ev. \<not> is_gap ev) new = accepted evs rs1"
    "length (filter is_gap new) = (if \<not> es_gap_emitted s1 \<and> (\<exists>r \<in> set rs1. isl r) then 1 else 0)"
    "filter be_terminal (accepted evs rs1) = filter be_terminal evs"
    using Cons.IH [OF s1(1) rs(1)] Cons.prems(3) by auto
  let ?new = "(if \<not> isl r then [ev] else if es_gap_emitted s then [] else [gap_event]) @ new"
  have "filter (\<lambda>ev. \<not> is_gap ev) ?new = accepted (ev # evs) rs"
    using IH(3) Cons.prems(3) by (simp add: rs(2) accepted_def gap_event_def)
  moreover have "length (filter is_gap ?new) = (if \<not> es_gap_emitted s \<and> (\<exists>r \<in> set rs. isl r) then 1 else 0)"
    using IH(4) s1(3) Cons.prems(3) by (auto simp: rs(2) gap_event_def)
  moreover have "filter be_terminal (accepted (ev # evs) rs) = filter be_terminal (ev # evs)"
    using IH(5) s1(4) by (auto simp: rs(2) accepted_def)
  ultimately show ?case using IH(1,2) s1(2) by (intro exI [of _ s'] exI [of _ ?new]) simp
qed (simp add: accepted_def)

section \<open>Credit as a ledger\<close>

definition hub_balance :: "EventHub \<Rightarrow> u32 \<Rightarrow> u64 option" where
  "hub_balance h sid = map_option es_credit (sm_find h sid)"

definition hub_send :: "EventKind \<Rightarrow> string \<Rightarrow> EventHub \<Rightarrow> u32 \<Rightarrow> u64 \<Rightarrow> bool \<Rightarrow> EventHub \<times> unit Result" where
  "hub_send kind msg h sid n terminal = hub_publish h sid \<lparr>be_kind = kind, be_message = msg, be_terminal = terminal, be_bytes = n\<rparr>"

interpretation hub_credit: credit_ledger hub_balance hub_add_credit "hub_send kind msg" for kind msg
proof unfold_locales
  fix h h' k n u b
  assume "hub_add_credit h k n = (h', Inr u)" "hub_balance h k = Some b"
  then show "\<exists>c. hub_balance h' k = Some c \<and> unat c = unat b + unat n"
    by (auto simp: hub_add_credit_def hub_balance_def checked_add_unat split: sum.splits)
next
  fix h h' k n t u b
  assume "hub_send kind msg h k n t = (h', Inr u)" "hub_balance h k = Some b"
  then show "\<exists>c. hub_balance h' k = Some c \<and> (if t \<and> b < n then c = b else unat b = unat c + unat n)"
    using unat_sub_le [of n b] by (cases "b < n") (auto simp: hub_send_def hub_publish_def hub_balance_def split: if_splits)
qed (auto simp: hub_add_credit_def hub_send_def hub_publish_def hub_balance_def fun_eq_iff
    split: option.splits sum.splits if_splits)

section \<open>Properties\<close>

text \<open>
  C36. What a stream delivers: after any sequence of publications to a drained stream, the
  queue holds exactly the accepted events in the order of publication and, if a progress event was
  refused and no marker was sent before, one gap marker; draining empties it. No terminal event is
  ever refused.
\<close>

theorem hub_delivers_accepted:
  assumes "sm_find h sid = Some s" "es_queued s = []" "list_all (\<lambda>ev. \<not> is_gap ev) evs"
    and "publish_all h sid evs = (h', rs)" "hub_drain h' sid = (h'', out)"
  shows "filter (\<lambda>ev. \<not> is_gap ev) out = accepted evs rs \<and>
    length (filter is_gap out) = (if \<not> es_gap_emitted s \<and> list_ex isl rs then 1 else 0) \<and>
    filter be_terminal (accepted evs rs) = filter be_terminal evs \<and>
    map_option es_queued (sm_find h'' sid) = Some []"
  using publish_all_delivery [OF assms(1,4,3)] assms(2,5) by (auto simp: hub_drain_def list_ex_iff)

definition demo_hub :: EventHub where
  "demo_hub = fst (hub_open_stream [] 4 10)"

definition demo_event :: "EventKind \<Rightarrow> bool \<Rightarrow> u64 \<Rightarrow> BuildEvent" where
  "demo_event k t n = \<lparr>be_kind = k, be_message = [], be_terminal = t, be_bytes = n\<rparr>"

theorem hub_delivers_accepted_witness:
  "let evs = [demo_event evk_progress False 8, demo_event evk_progress False 8, demo_event evk_succeeded True 50];
       r = publish_all demo_hub 4 evs
   in filter (\<lambda>ev. \<not> is_gap ev) (snd (hub_drain (fst r) 4)) = accepted evs (snd r) \<and>
      filter be_terminal (accepted evs (snd r)) = [demo_event evk_succeeded True 50]"
  unfolding Let_def
  using hub_delivers_accepted [of demo_hub 4 "\<lparr>es_credit = 10, es_queued = [], es_gap_emitted = False\<rparr>"
      "[demo_event evk_progress False 8, demo_event evk_progress False 8, demo_event evk_succeeded True 50]"]
  by (simp add: demo_hub_def hub_open_stream_def sm_contains_def demo_event_def prod_eq_iff)

text \<open>
  Byte credit is conserved on every event stream, over any sequence of grants and publications of
  events, whether they succeed or are refused; a terminal event beyond the credit is queued uncharged.
\<close>

theorem hub_credit_conserved:
  assumes "hub_balance h sid = Some b"
  shows "\<exists>c. hub_balance (ledger_run hub_add_credit (hub_send kind msg) h ops) sid = Some c \<and>
    unat c + total_charged hub_balance hub_add_credit (hub_send kind msg) sid h ops =
    unat b + total_granted hub_add_credit (hub_send kind msg) sid h ops"
  using assms by (rule hub_credit.conservation)

end
