(* ===== verification/Forge_Artifact.thy ===== *)
theory Forge_Artifact
  imports Forge_Base
begin

text \<open>
  The content-addressed artifact store: \<^verbatim>\<open>src/artifact/artifact_writer.cpp\<close>, \<^verbatim>\<open>src/artifact/cas.cpp\<close>
  and \<^verbatim>\<open>src/artifact/gc.cpp\<close>. The directory of the store is a map from file names to contents; every
  file system call of \<open>publish\<close> that can fail is an argument. The lemmas show that a read never
  returns bytes that do not match their key, whatever the directory holds, that published
  artifacts survive every later operation on a store with a directory, and what leases protect.
\<close>

section \<open>Definitions\<close>

datatype ArtifactKey = ArtifactKey (ak_digest: Digest256) (ak_size: u64)

text \<open>The comparison of keys: by the hexadecimal digest, then by the size.\<close>

definition artifact_key_less :: "ArtifactKey \<Rightarrow> ArtifactKey \<Rightarrow> bool" where
  "artifact_key_less x y \<longleftrightarrow> digest_hex (ak_digest x) < digest_hex (ak_digest y) \<or>
     digest_hex (ak_digest x) = digest_hex (ak_digest y) \<and> ak_size x < ak_size y"

instantiation ArtifactKey :: linorder
begin

definition less_ArtifactKey :: "ArtifactKey \<Rightarrow> ArtifactKey \<Rightarrow> bool" where
  "less_ArtifactKey = artifact_key_less"

definition less_eq_ArtifactKey :: "ArtifactKey \<Rightarrow> ArtifactKey \<Rightarrow> bool" where
  "less_eq_ArtifactKey x y \<longleftrightarrow> x < y \<or> x = y"

lemmas key_order = less_eq_ArtifactKey_def less_ArtifactKey_def artifact_key_less_def

instance
proof
  fix x y z :: ArtifactKey
  show "x < y \<longleftrightarrow> x \<le> y \<and> \<not> y \<le> x" by (auto simp: key_order)
  show "x \<le> x" by (simp add: key_order)
  show "x \<le> y \<Longrightarrow> y \<le> z \<Longrightarrow> x \<le> z" by (auto simp: key_order)
  show "x \<le> y \<Longrightarrow> y \<le> x \<Longrightarrow> x = y" by (auto simp: key_order)
  show "x \<le> y \<or> y \<le> x"
    by (cases x; cases y) (auto simp: key_order dest: digest_hex_inj [THEN iffD1])
qed

end

record ArtifactObject =
  ao_key :: ArtifactKey
  ao_bytes :: Bytes
  ao_leases :: u64
  ao_durable :: bool

text \<open>The writer's state is its bytes. \<open>finish\<close> moves them into the object.\<close>

type_synonym ArtifactWriter = Bytes

definition writer_append :: "ArtifactWriter \<Rightarrow> Bytes \<Rightarrow> ArtifactWriter" where
  "writer_append w data = w @ data"

definition key_of :: "Bytes \<Rightarrow> ArtifactKey" where
  "key_of bs = ArtifactKey (digest_bytes ''artifact'' bs) (of_nat (length bs))"

definition writer_finish :: "ArtifactWriter \<Rightarrow> ArtifactObject" where
  "writer_finish w = \<lparr>ao_key = key_of w, ao_bytes = w, ao_leases = 0, ao_durable = True\<rparr>"

type_synonym Files = "(string, Bytes) std_map"

record ArtifactStore =
  ca_root :: "Files option"
  ca_objects :: "(ArtifactKey, ArtifactObject) std_map"

definition new_store :: "Files option \<Rightarrow> ArtifactStore" where
  "new_store root = \<lparr>ca_root = root, ca_objects = []\<rparr>"

definition object_path :: "ArtifactKey \<Rightarrow> string" where
  "object_path key = digest_hex (ak_digest key) @ ''.'' @ decimal (unat (ak_size key)) @ ''.cas''"

definition artifact_temp_path :: "ArtifactKey \<Rightarrow> string" where
  "artifact_temp_path key = digest_hex (ak_digest key) @ ''.'' @ decimal (unat (ak_size key)) @ ''.tmp''"

definition cas_error :: "ErrorCode \<Rightarrow> string \<Rightarrow> Status" where
  "cas_error c msg = error c ''cas'' msg"

text \<open>
  The file system calls of \<open>publish\<close> that fail, if any. A failed write leaves a prefix of the
  bytes in the temporary file; when the rename fails and the temporary file cannot be removed either,
  \<open>remove\<close> throws.
\<close>

datatype cas_fault = no_fault | mkdir_fails | open_fails | write_fails nat | rename_fails | rename_and_remove_fail

definition publish_files :: "cas_fault \<Rightarrow> ArtifactKey \<Rightarrow> Bytes \<Rightarrow> Files \<Rightarrow> Files \<times> unit Result" where
  "publish_files fault key bytes files =
     (let temp = artifact_temp_path key; final = object_path key
      in case fault of
           mkdir_fails \<Rightarrow> (files, Inl (cas_error ec_io ''unable to create artifact store''))
         | open_fails \<Rightarrow> (files, Inl (cas_error ec_io ''unable to open artifact temp file''))
         | write_fails n \<Rightarrow> (sm_put temp (take n bytes) files, Inl (cas_error ec_io ''unable to write artifact temp file''))
         | rename_fails \<Rightarrow> (sm_erase temp (sm_put temp bytes files), Inl (cas_error ec_io ''unable to publish artifact file''))
         | rename_and_remove_fail \<Rightarrow> (sm_put temp bytes files, Inl filesystem_exception)
         | no_fault \<Rightarrow> (sm_put final bytes (sm_erase temp (sm_put temp bytes files)), Inr ()))"

definition cas_publish :: "cas_fault \<Rightarrow> ArtifactStore \<Rightarrow> ArtifactWriter \<Rightarrow> ArtifactStore \<times> ArtifactKey Result" where
  "cas_publish fault s w =
     (let obj = writer_finish w; key = ao_key obj
      in if digest_bytes ''artifact'' (ao_bytes obj) \<noteq> ak_digest key
         then (s, Inl (cas_error ec_artifact ''artifact digest mismatch''))
         else
           case ca_root s of
             None \<Rightarrow> (s\<lparr>ca_objects := sm_put key obj (ca_objects s)\<rparr>, Inr key)
           | Some files \<Rightarrow>
               (case publish_files fault key (ao_bytes obj) files of
                  (files', Inl e) \<Rightarrow> (s\<lparr>ca_root := Some files'\<rparr>, Inl e)
                | (files', Inr _) \<Rightarrow>
                    (s\<lparr>ca_root := Some files', ca_objects := sm_put key obj (ca_objects s)\<rparr>, Inr key)))"

text \<open>The file cannot be opened, or reading it stops early, which \<open>read\<close> does not notice itself.\<close>

datatype cas_read_fault = cr_ok | cr_open_fails | cr_stops_after nat

definition cas_read_file :: "cas_read_fault \<Rightarrow> Files option \<Rightarrow> ArtifactKey \<Rightarrow> Bytes Result" where
  "cas_read_file fault root key =
     (case root of
        None \<Rightarrow> Inl (cas_error ec_artifact ''artifact not found'')
      | Some files \<Rightarrow>
          (case (if fault = cr_open_fails then None else sm_find files (object_path key)) of
             None \<Rightarrow> Inl (cas_error ec_artifact ''artifact not found'')
           | Some content \<Rightarrow>
               let bytes = (case fault of cr_stops_after n \<Rightarrow> take n content | _ \<Rightarrow> content)
               in if of_nat (length bytes) \<noteq> ak_size key \<or> digest_bytes ''artifact'' bytes \<noteq> ak_digest key
               then Inl (cas_error ec_artifact ''artifact digest mismatch'')
               else Inr bytes))"

definition cas_read_with :: "cas_read_fault \<Rightarrow> ArtifactStore \<Rightarrow> ArtifactKey \<Rightarrow> Bytes Result" where
  "cas_read_with fault s key =
     (case sm_find (ca_objects s) key of
        None \<Rightarrow> cas_read_file fault (ca_root s) key
      | Some obj \<Rightarrow> if ao_durable obj then Inr (ao_bytes obj) else cas_read_file fault (ca_root s) key)"

definition cas_read :: "ArtifactStore \<Rightarrow> ArtifactKey \<Rightarrow> Bytes Result" where
  "cas_read = cas_read_with cr_ok"

definition cas_acquire :: "ArtifactStore \<Rightarrow> ArtifactKey \<Rightarrow> ArtifactStore \<times> unit Result" where
  "cas_acquire s key =
     (case sm_find (ca_objects s) key of
        None \<Rightarrow> (s, Inl (cas_error ec_artifact ''lease unknown artifact''))
      | Some obj \<Rightarrow> (s\<lparr>ca_objects := sm_put key (obj\<lparr>ao_leases := ao_leases obj + 1\<rparr>) (ca_objects s)\<rparr>, Inr ()))"

definition cas_release :: "ArtifactStore \<Rightarrow> ArtifactKey \<Rightarrow> ArtifactStore \<times> unit Result" where
  "cas_release s key =
     (case sm_find (ca_objects s) key of
        None \<Rightarrow> (s, Inl (cas_error ec_artifact ''release invalid artifact lease''))
      | Some obj \<Rightarrow>
          if ao_leases obj = 0 then (s, Inl (cas_error ec_artifact ''release invalid artifact lease''))
          else (s\<lparr>ca_objects := sm_put key (obj\<lparr>ao_leases := ao_leases obj - 1\<rparr>) (ca_objects s)\<rparr>, Inr ()))"

definition cas_contains :: "ArtifactStore \<Rightarrow> ArtifactKey \<Rightarrow> bool" where
  "cas_contains s key \<longleftrightarrow> sm_contains (ca_objects s) key \<or>
     (case ca_root s of None \<Rightarrow> False | Some files \<Rightarrow> sm_contains files (object_path key))"

fun gc_loop :: "(ArtifactKey, ArtifactObject) std_map \<Rightarrow> (ArtifactKey, ArtifactObject) std_map \<times> nat" where
  "gc_loop [] = ([], 0)"
| "gc_loop ((key, obj) # rest) =
     (case gc_loop rest of (kept, removed) \<Rightarrow>
        if ao_leases obj = 0 then (kept, Suc removed) else ((key, obj) # kept, removed))"

definition cas_gc :: "ArtifactStore \<Rightarrow> ArtifactStore \<times> nat" where
  "cas_gc s = (case gc_loop (ca_objects s) of (kept, removed) \<Rightarrow> (s\<lparr>ca_objects := kept\<rparr>, removed))"

section \<open>File names\<close>

lemma object_path_inj [simp]: "object_path k = object_path l \<longleftrightarrow> k = l"
  by (cases k; cases l) (simp add: object_path_def append_eq_append_conv word_unat_eq_iff)

lemma temp_not_object [simp]: "artifact_temp_path k \<noteq> object_path l" "object_path l \<noteq> artifact_temp_path k"
proof -
  have "last (artifact_temp_path k) \<noteq> last (object_path l)" by (simp add: object_path_def artifact_temp_path_def)
  then show "artifact_temp_path k \<noteq> object_path l" "object_path l \<noteq> artifact_temp_path k" by metis+
qed

section \<open>The store invariant\<close>

text \<open>
  Objects in memory are stored under the key of their bytes, and a store with a directory has
  every one of them on disk.
\<close>

definition object_ok :: "ArtifactKey \<Rightarrow> ArtifactObject \<Rightarrow> bool" where
  "object_ok k obj \<longleftrightarrow> ao_key obj = k \<and> key_of (ao_bytes obj) = k \<and> ao_durable obj"

definition cas_inv :: "ArtifactStore \<Rightarrow> bool" where
  "cas_inv s \<longleftrightarrow> sm_ok (ca_objects s) \<and> (\<forall>k obj. sm_find (ca_objects s) k = Some obj \<longrightarrow> object_ok k obj \<and>
     (\<forall>files. ca_root s = Some files \<longrightarrow> sm_find files (object_path k) = Some (ao_bytes obj)))"

lemma new_store_inv: "cas_inv (new_store root)"
  by (simp add: cas_inv_def new_store_def)

lemma writer_finish_ok: "object_ok (key_of w) (writer_finish w)"
  by (simp add: object_ok_def writer_finish_def)

lemma publish_files_other:
  "publish_files fault key bytes files = (files', r) \<Longrightarrow> k \<noteq> key \<or> r = Inl e \<Longrightarrow>
    sm_find files' (object_path k) = sm_find files (object_path k)"
  by (auto simp: publish_files_def Let_def split: cas_fault.splits)

lemma publish_files_done:
  "publish_files fault key bytes files = (files', Inr u) \<Longrightarrow> sm_find files' (object_path key) = Some bytes"
  by (auto simp: publish_files_def Let_def split: cas_fault.splits)

lemma cas_publish_cases:
  assumes "cas_publish fault s w = (s', r)"
  obtains (refused) e files where "r = Inl e" "ca_objects s' = ca_objects s" "ca_root s = Some files"
      "\<And>k. map_option (\<lambda>fs. sm_find fs (object_path k)) (ca_root s') = Some (sm_find files (object_path k))"
  | (stored) "r = Inr (key_of w)" "ca_objects s' = sm_put (key_of w) (writer_finish w) (ca_objects s)"
      "ca_root s = None \<longleftrightarrow> ca_root s' = None"
      "\<And>files files' k. \<lbrakk>ca_root s = Some files; ca_root s' = Some files'\<rbrakk> \<Longrightarrow>
         sm_find files' (object_path k) = (if k = key_of w then Some w else sm_find files (object_path k))"
proof (cases "ca_root s")
  case None
  then show ?thesis
    using assms by (intro that(2)) (auto simp: cas_publish_def writer_finish_def key_of_def Let_def)
next
  case (Some files)
  obtain files' q where p: "publish_files fault (key_of w) w files = (files', q)" by fastforce
  show ?thesis
  proof (cases q)
    case (Inl e)
    then show ?thesis
      using assms Some p publish_files_other [OF p, of _ e]
      by (intro that(1) [of e files]) (auto simp: cas_publish_def writer_finish_def key_of_def Let_def)
  next
    case (Inr u)
    then show ?thesis
      using assms Some p publish_files_other [OF p] publish_files_done [of fault "key_of w" w files files' u]
      by (intro that(2)) (auto simp: cas_publish_def writer_finish_def key_of_def Let_def)
  qed
qed

lemma cas_publish_inv [forge_inv]:
  assumes "cas_inv s"
  shows "cas_inv (fst (cas_publish fault s w))"
proof -
  obtain s' r where p: "cas_publish fault s w = (s', r)" by fastforce
  then show ?thesis
  proof (cases rule: cas_publish_cases)
    case refused
    then show ?thesis using assms by (fastforce simp: p cas_inv_def)
  next
    case stored
    then show ?thesis using assms writer_finish_ok [of w]
      by (cases "ca_root s") (auto simp: p cas_inv_def, auto simp: writer_finish_def)
  qed
qed

lemma cas_lease_inv [forge_inv]:
  assumes "cas_inv s"
  shows "cas_inv (fst (cas_acquire s k))" "cas_inv (fst (cas_release s k))"
  using assms by (auto simp: cas_acquire_def cas_release_def cas_inv_def object_ok_def split: option.splits)

lemma gc_loop_eq: "gc_loop objs = (filter (\<lambda>(k, obj). ao_leases obj \<noteq> 0) objs, length (filter (\<lambda>(k, obj). ao_leases obj = 0) objs))"
  by (induction objs rule: gc_loop.induct) auto

lemma sm_find_filter:
  "sm_ok m \<Longrightarrow> sm_find (filter (\<lambda>(k, v). P v) m) k = (case sm_find m k of None \<Rightarrow> None | Some v \<Rightarrow> if P v then Some v else None)"
proof (induction m)
  case (Cons e m)
  then have "sm_ok m" "fst e \<notin> fst ` set m" by (force simp: sm_ok_def)+
  then have "sm_find m (fst e) = None" by (simp add: sm_find_None_iff)
  then show ?case using Cons.IH [OF \<open>sm_ok m\<close>] by (cases e) auto
qed simp

lemma sm_find_gc:
  "sm_ok (ca_objects s) \<Longrightarrow> sm_find (ca_objects (fst (cas_gc s))) k =
     (case sm_find (ca_objects s) k of None \<Rightarrow> None | Some obj \<Rightarrow> if ao_leases obj \<noteq> 0 then Some obj else None)"
  by (simp add: cas_gc_def gc_loop_eq sm_find_filter [where P = "\<lambda>obj. ao_leases obj \<noteq> 0"])

lemma cas_gc_root [simp]: "ca_root (fst (cas_gc s)) = ca_root s"
  by (simp add: cas_gc_def split: prod.split)

lemma sm_ok_gc: "sm_ok (ca_objects s) \<Longrightarrow> sm_ok (ca_objects (fst (cas_gc s)))"
  by (simp add: cas_gc_def gc_loop_eq)

lemma cas_gc_inv [forge_inv]: "cas_inv s \<Longrightarrow> cas_inv (fst (cas_gc s))"
  unfolding cas_inv_def by (auto simp: sm_find_gc sm_ok_gc split: option.splits if_splits)

datatype cas_op = Publish cas_fault Bytes | Acquire ArtifactKey | Release ArtifactKey | Collect

fun cas_step :: "ArtifactStore \<Rightarrow> cas_op \<Rightarrow> ArtifactStore" where
  "cas_step s (Publish fault w) = fst (cas_publish fault s w)"
| "cas_step s (Acquire k) = fst (cas_acquire s k)"
| "cas_step s (Release k) = fst (cas_release s k)"
| "cas_step s Collect = fst (cas_gc s)"

abbreviation cas_run :: "ArtifactStore \<Rightarrow> cas_op list \<Rightarrow> ArtifactStore" where
  "cas_run s ops \<equiv> foldl cas_step s ops"

lemma cas_step_inv: "cas_inv s \<Longrightarrow> cas_inv (cas_step s op)"
  by (cases op) (simp_all add: forge_inv)

lemma cas_run_inv: "cas_inv s \<Longrightarrow> cas_inv (cas_run s ops)"
  by (induction ops arbitrary: s) (simp_all add: cas_step_inv)

section \<open>Reading\<close>

lemma cas_read_file_key: "cas_read_file fault root k = Inr bs \<Longrightarrow> key_of bs = k"
  by (cases k) (auto simp: cas_read_file_def key_of_def Let_def split: option.splits if_splits)

lemma cas_read_on_disk:
  assumes "cas_inv s" "ca_root s = Some files" "sm_find files (object_path (key_of bs)) = Some bs"
  shows "cas_read s (key_of bs) = Inr bs"
  using assms by (auto simp: cas_read_def cas_read_with_def cas_read_file_def cas_inv_def object_ok_def key_of_def split: option.split)

text \<open>A file of an artifact stays as it is unless other bytes with the same key are published.\<close>

definition no_collision :: "Bytes \<Rightarrow> cas_op \<Rightarrow> bool" where
  "no_collision bs op \<longleftrightarrow> (case op of Publish _ w \<Rightarrow> key_of w = key_of bs \<longrightarrow> w = bs | _ \<Rightarrow> True)"

definition on_disk :: "ArtifactStore \<Rightarrow> Bytes \<Rightarrow> bool" where
  "on_disk s bs \<longleftrightarrow> (\<exists>files. ca_root s = Some files \<and> sm_find files (object_path (key_of bs)) = Some bs)"

lemma cas_step_on_disk:
  assumes "on_disk s bs" "no_collision bs op"
  shows "on_disk (cas_step s op) bs"
proof (cases op)
  case (Publish fault w)
  obtain s' r where p: "cas_publish fault s w = (s', r)" by fastforce
  then have "on_disk s' bs"
  proof (cases rule: cas_publish_cases)
    case refused
    then show ?thesis using assms(1) refused(4) [of "key_of bs"] by (auto simp: on_disk_def)
  next
    case stored
    then show ?thesis using assms unfolding on_disk_def
      by (cases "ca_root s'") (auto simp: no_collision_def Publish)
  qed
  then show ?thesis by (simp add: Publish p)
qed (use assms in \<open>auto simp: on_disk_def cas_acquire_def cas_release_def split: option.splits\<close>)

lemma cas_run_on_disk: "on_disk s bs \<Longrightarrow> list_all (no_collision bs) ops \<Longrightarrow> on_disk (cas_run s ops) bs"
  by (induction ops arbitrary: s) (simp_all add: cas_step_on_disk)

section \<open>Properties\<close>

text \<open>
  C27. Integrity: in every store that is reached from an empty one, with any files in its
  directory at the start and any failed calls on the way, a read, even one that stops early, returns
  only bytes whose size and digest are those of the requested key.
\<close>

theorem artifact_read_integrity:
  assumes "cas_read_with fault (cas_run (new_store root) ops) k = Inr bs"
  shows "key_of bs = k"
  using assms cas_run_inv [OF new_store_inv, of root ops]
  by (auto simp: cas_read_with_def cas_inv_def object_ok_def dest: cas_read_file_key split: option.splits if_splits)

theorem artifact_read_integrity_witness:
  "cas_read_with cr_ok (cas_run (new_store (Some [])) [Publish no_fault [1, 2]]) (key_of [1, 2]) = Inr [1, 2] \<and>
   key_of [1, 2] = ArtifactKey (digest_bytes ''artifact'' [1, 2]) 2"
proof -
  have "cas_read_with cr_ok (cas_run (new_store (Some [])) [Publish no_fault [1, 2]]) (key_of [1, 2]) = Inr [1, 2]" by code_simp
  then show ?thesis using artifact_read_integrity [of cr_ok "Some []" "[Publish no_fault [1, 2]]" "key_of [1, 2]" "[1, 2]"]
    by (simp add: key_of_def)
qed

text \<open>
  C28. Durability of a store with a directory: once a publication has succeeded its bytes are
  read back after every later sequence of publications, failed ones included, leases, releases and
  collections, provided that none of these publications has other bytes with the same key, that is,
  with the same length and digest. (A store without a directory forgets unleased artifacts at the
  next collection.)
\<close>

theorem published_artifact_persists:
  assumes "cas_inv s" "ca_root s \<noteq> None" "cas_publish fault s bs = (s', Inr k)" "list_all (no_collision bs) ops"
  shows "k = key_of bs \<and> cas_read (cas_run s' ops) k = Inr bs"
proof -
  have k: "k = key_of bs" and "on_disk s' bs"
    using assms(3,2) by (cases rule: cas_publish_cases; auto simp: on_disk_def)+
  then obtain files where "ca_root (cas_run s' ops) = Some files" "sm_find files (object_path (key_of bs)) = Some bs"
    using cas_run_on_disk [OF _ assms(4)] by (auto simp: on_disk_def)
  moreover have "cas_inv (cas_run s' ops)" using cas_publish_inv [OF assms(1), of fault bs] assms(3) by (simp add: cas_run_inv)
  ultimately show ?thesis using k by (simp add: cas_read_on_disk)
qed

theorem published_artifact_persists_witness:
  "let s = cas_run (new_store (Some [])) [Publish no_fault [1, 2]]
   in cas_read (cas_run s [Collect, Publish (write_fails 0) [1, 2], Publish no_fault [3]]) (key_of [1, 2]) = Inr [1, 2]"
proof -
  let ?s = "new_store (Some [])"
  have p: "cas_publish no_fault ?s [1, 2] = (fst (cas_publish no_fault ?s [1, 2]), Inr (key_of [1, 2]))" by code_simp
  show ?thesis
    using published_artifact_persists [OF new_store_inv _ p, of "[Collect, Publish (write_fails 0) [1, 2], Publish no_fault [3]]"]
    by (simp add: new_store_def no_collision_def key_of_def)
qed

text \<open>
  C29. Collection removes exactly the objects without a lease: what is left in memory are the
  leased ones, unchanged, the returned count is the number of the others, and the directory is not
  touched.
\<close>

theorem gc_removes_unleased:
  assumes "cas_inv s" "cas_gc s = (s', removed)"
  shows "(\<forall>k. sm_find (ca_objects s') k = (case sm_find (ca_objects s) k of None \<Rightarrow> None
      | Some obj \<Rightarrow> if ao_leases obj = 0 then None else Some obj)) \<and>
    removed + length (ca_objects s') = length (ca_objects s) \<and> ca_root s' = ca_root s"
proof -
  have s': "s' = fst (cas_gc s)" "removed = snd (cas_gc s)" using assms(2) by simp_all
  have "removed + length (ca_objects s') = length (ca_objects s)"
    using sum_length_filter_compl [of "\<lambda>e. ao_leases (snd e) = 0" "ca_objects s"]
    by (simp add: s' cas_gc_def gc_loop_eq case_prod_unfold)
  moreover have "sm_find (ca_objects s') k = (case sm_find (ca_objects s) k of None \<Rightarrow> None
      | Some obj \<Rightarrow> if ao_leases obj = 0 then None else Some obj)" for k
    using assms(1) by (simp add: s' sm_find_gc cas_inv_def split: option.split)
  ultimately show ?thesis by (simp add: s')
qed

definition demo_cas :: ArtifactStore where
  "demo_cas = cas_run (new_store None) [Publish no_fault [1], Publish no_fault [2], Acquire (key_of [2])]"

lemma demo_cas_inv: "cas_inv demo_cas"
  unfolding demo_cas_def by (intro cas_run_inv new_store_inv)

theorem gc_removes_unleased_witness:
  "sm_find (ca_objects (fst (cas_gc demo_cas))) (key_of [1]) = None \<and>
   snd (cas_gc demo_cas) + length (ca_objects (fst (cas_gc demo_cas))) = 2"
proof -
  have "length (ca_objects demo_cas) = 2" by code_simp
  moreover have "map_option ao_leases (sm_find (ca_objects demo_cas) (key_of [1])) = Some 0" by code_simp
  ultimately show ?thesis
    using gc_removes_unleased [OF demo_cas_inv, of "fst (cas_gc demo_cas)" "snd (cas_gc demo_cas)"] by auto
qed

text \<open>
  A changed byte of an artifact file is detected: when the object is no longer in memory, a
  read reports the digest mismatch.
\<close>

theorem corrupt_artifact_detected:
  assumes "sm_find (ca_objects s) (key_of bs) = None" "ca_root s = Some files"
    and "sm_find files (object_path (key_of bs)) = Some (bs[i := b])" "i < length bs" "b \<noteq> bs ! i"
  shows "cas_read s (key_of bs) = Inl (cas_error ec_artifact ''artifact digest mismatch'')"
  using assms by (simp add: cas_read_def cas_read_with_def cas_read_file_def key_of_def digest_one_byte)

theorem corrupt_artifact_detected_witness:
  "cas_read (new_store (Some [(object_path (key_of [1, 2, 3]), [1, 9, 3])])) (key_of [1, 2, 3]) =
     Inl (cas_error ec_artifact ''artifact digest mismatch'')"
  by (rule corrupt_artifact_detected [where i = 1 and b = 9 and files = "[(object_path (key_of [1, 2, 3]), [1, 9, 3])]"])
    (simp_all add: new_store_def)

text \<open>
  Publishing bytes again drops the leases on them: the stored object is replaced by one
  without a lease, so the next collection removes an artifact that a client still holds.
\<close>

theorem republish_drops_leases:
  assumes "cas_inv s" "cas_publish fault s bs = (s', Inr k)"
  shows "map_option ao_leases (sm_find (ca_objects s') k) = Some 0 \<and> sm_find (ca_objects (fst (cas_gc s'))) k = None"
proof -
  have "cas_inv s'" using cas_publish_inv [OF assms(1), of fault bs] assms(2) by simp
  then have ok: "sm_ok (ca_objects s')" by (simp add: cas_inv_def)
  from assms(2) show ?thesis
    by (cases rule: cas_publish_cases) (use ok in \<open>auto simp: sm_find_gc writer_finish_def\<close>)
qed

theorem republish_drops_leases_witness:
  "map_option ao_leases (sm_find (ca_objects demo_cas) (key_of [2])) = Some 1 \<and>
   sm_find (ca_objects (fst (cas_gc (fst (cas_publish no_fault demo_cas [2]))))) (key_of [2]) = None"
proof -
  have p: "cas_publish no_fault demo_cas [2] = (fst (cas_publish no_fault demo_cas [2]), Inr (key_of [2]))" by code_simp
  have "map_option ao_leases (sm_find (ca_objects demo_cas) (key_of [2])) = Some 1" by code_simp
  then show ?thesis using republish_drops_leases [OF demo_cas_inv p] by simp
qed

end
