(* ===== verification/Forge_Tokens.thy ===== *)
theory Forge_Tokens
  imports Forge_Prelude
begin

text \<open>
  Generation tokens as an interface. The executor manager (one attempt per job) and the file
  event coalescer (one token per path) both hand out the successor of the generation they have
  recorded for a key and later compare. The locale \<open>token_issuer\<close> states that contract and proves
  once that only the newest token of a key is current; both components interpret it.
\<close>

section \<open>Issuing tokens\<close>

fun issue_all :: "('s \<Rightarrow> 'k \<Rightarrow> 'a \<Rightarrow> 's \<times> Generation) \<Rightarrow> 's \<Rightarrow> ('k \<times> 'a) list \<Rightarrow> 's \<times> Generation list" where
  "issue_all issue s [] = (s, [])"
| "issue_all issue s ((k, a) # ks) =
     (case issue s k a of (s1, t) \<Rightarrow> (case issue_all issue s1 ks of (s2, ts) \<Rightarrow> (s2, t # ts)))"

definition or_default :: "Generation option \<Rightarrow> Generation" where
  "or_default g = (case g of None \<Rightarrow> gen_default | Some g \<Rightarrow> g)"

lemma of_nat_64_eq_0: "n < 2 ^ 64 \<Longrightarrow> (of_nat n :: u64) = 0 \<longleftrightarrow> n = 0"
  by (simp add: word_unat_eq_iff unat_of_nat)

locale token_issuer =
  fixes current :: "'s \<Rightarrow> 'k \<Rightarrow> Generation option"
    and issue :: "'s \<Rightarrow> 'k \<Rightarrow> 'a \<Rightarrow> 's \<times> Generation"
  assumes issue_current: "issue s k a = (s', t) \<Longrightarrow> current s' k = Some t \<and> t = gen_next (or_default (current s k))"
    and issue_other: "issue s k a = (s', t) \<Longrightarrow> j \<noteq> k \<Longrightarrow> current s' j = current s j"
begin

text \<open>The recorded generation counts the tokens issued for a key.\<close>

lemma issue_all_counts:
  "issue_all issue s ks = (s', ts) \<Longrightarrow>
    gen_value (or_default (current s' j)) = gen_value (or_default (current s j)) + of_nat (length (filter (\<lambda>k. fst k = j) ks))"
proof (induction ks arbitrary: s ts)
  case (Cons x ks)
  then obtain k a s1 t ts1 where x: "x = (k, a)" "issue s k a = (s1, t)" "issue_all issue s1 ks = (s', ts1)"
    by (cases x) (auto split: prod.splits)
  show ?case
    using Cons.IH [OF x(3)] issue_current [OF x(2)] issue_other [OF x(2), of j]
    by (cases "k = j") (simp_all add: x(1) or_default_def gen_next_def)
qed simp

lemma issue_all_known: "issue_all issue s ks = (s', ts) \<Longrightarrow> current s j \<noteq> None \<Longrightarrow> current s' j \<noteq> None"
proof (induction ks arbitrary: s ts)
  case (Cons x ks)
  then obtain k a s1 t ts1 where x: "x = (k, a)" "issue s k a = (s1, t)" "issue_all issue s1 ks = (s', ts1)"
    by (cases x) (auto split: prod.splits)
  have "current s1 j \<noteq> None"
    using Cons.prems(2) issue_current [OF x(2)] issue_other [OF x(2), of j] by (cases "k = j") auto
  then show ?case using Cons.IH [OF x(3)] by blast
qed simp

lemma newest_only:
  assumes "issue_all issue s ks = (s', ts)" "i < length ks" "length ks < 2 ^ 64"
  shows "current s' (fst (ks ! i)) = Some (ts ! i) \<longleftrightarrow> fst (ks ! i) \<notin> fst ` set (drop (Suc i) ks)"
  using assms
proof (induction ks arbitrary: s ts i)
  case (Cons x ks)
  then obtain k a s1 t ts1 where x: "x = (k, a)" "issue s k a = (s1, t)" "issue_all issue s1 ks = (s', ts1)" "ts = t # ts1"
    by (cases x) (auto split: prod.splits)
  show ?case
  proof (cases i)
    case (Suc n)
    then show ?thesis using Cons.IH [OF x(3), of n] Cons.prems x(4) by simp
  next
    case 0
    let ?n = "length (filter (\<lambda>j. fst j = k) ks)"
    have cur: "current s1 k = Some t" using issue_current [OF x(2)] by simp
    then obtain g where g: "current s' k = Some g" using issue_all_known [OF x(3), of k] by auto
    have "?n < 2 ^ 64" by (rule le_less_trans [OF length_filter_le]) (use Cons.prems(3) in simp)
    then have "g = t \<longleftrightarrow> ?n = 0"
      using issue_all_counts [OF x(3), of k] of_nat_64_eq_0 [of ?n] by (auto simp: cur g or_default_def Generation.expand)
    also have "\<dots> \<longleftrightarrow> k \<notin> fst ` set ks" by (auto simp: filter_empty_conv)
    finally show ?thesis by (simp add: 0 x(1,4) g)
  qed
qed simp

end

end
