(* ===== verification/Forge_Executor.thy ===== *)
theory Forge_Executor
  imports Forge_Graph Forge_Tokens
begin

text \<open>
  Executors: \<^verbatim>\<open>src/execute/executor_manager.cpp\<close> and \<^verbatim>\<open>src/execute/mock_executor.cpp\<close>. The abstract
  class \<open>Executor\<close> becomes the locale \<open>executor\<close>: a state, \<open>run\<close> and \<open>cancel\<close>, with the contract
  that a result names the lease and the attempt it was produced for. The lemmas show which leases
  the manager accepts.
\<close>

section \<open>Definitions\<close>

record WorkerLease =
  wl_id :: LeaseId
  wl_job :: JobId
  wl_attempt :: Generation
  wl_active :: bool

record JobSpec =
  js_job :: JobId
  js_node :: NodeId
  js_node_generation :: Generation
  js_action_key :: Digest256
  js_declared_inputs :: "string list"

record WorkerResult =
  wr_lease :: LeaseId
  wr_attempt :: Generation
  wr_success :: bool
  wr_artifacts :: "Bytes list"
  wr_discovered_edges :: "(NodeId \<times> NodeId) list"
  wr_diagnostic :: string

record ExecutorManager =
  em_next_lease :: u64
  em_current_attempts :: "(u64, Generation) std_map"

definition new_manager :: ExecutorManager where
  "new_manager = \<lparr>em_next_lease = 1, em_current_attempts = []\<rparr>"

text \<open>\<open>current_attempts_[job]\<close> starts at a default generation.\<close>

definition current_attempt :: "ExecutorManager \<Rightarrow> JobId \<Rightarrow> Generation" where
  "current_attempt m job = or_default (sm_find (em_current_attempts m) (id_value job))"

definition em_lease :: "ExecutorManager \<Rightarrow> JobId \<Rightarrow> ExecutorManager \<times> WorkerLease" where
  "em_lease m job =
     (let attempt = gen_next (current_attempt m job)
      in (m\<lparr>em_current_attempts := sm_put (id_value job) attempt (em_current_attempts m), em_next_lease := em_next_lease m + 1\<rparr>,
          \<lparr>wl_id = Id (em_next_lease m), wl_job = job, wl_attempt = attempt, wl_active = True\<rparr>))"

definition manager_error :: "string \<Rightarrow> Status" where
  "manager_error msg = error ec_executor ''executor-manager'' msg"

definition validate_current :: "ExecutorManager \<Rightarrow> WorkerLease \<Rightarrow> WorkerResult \<Rightarrow> unit Result" where
  "validate_current m lease result =
     (if \<not> wl_active lease \<or> wr_lease result \<noteq> wl_id lease \<or> wr_attempt result \<noteq> wl_attempt lease
      then Inl (manager_error ''stale worker lease'')
      else
        case sm_find (em_current_attempts m) (id_value (wl_job lease)) of
          None \<Rightarrow> Inl (manager_error ''attempt generation is not current'')
        | Some g \<Rightarrow> if g \<noteq> wl_attempt lease then Inl (manager_error ''attempt generation is not current'') else Inr ())"

definition empty_result :: "WorkerLease \<Rightarrow> WorkerResult" where
  "empty_result lease = \<lparr>wr_lease = wl_id lease, wr_attempt = wl_attempt lease, wr_success = False, wr_artifacts = [],
     wr_discovered_edges = [], wr_diagnostic = []\<rparr>"

text \<open>The manager calls the executor it was built with: its operations are arguments.\<close>

type_synonym 'e run_fun = "'e \<Rightarrow> WorkerLease \<Rightarrow> JobSpec \<Rightarrow> 'e \<times> WorkerResult Result"
type_synonym 'e cancel_fun = "'e \<Rightarrow> WorkerLease \<Rightarrow> 'e"

definition em_run :: "'e run_fun \<Rightarrow> ExecutorManager \<Rightarrow> 'e \<Rightarrow> WorkerLease \<Rightarrow> JobSpec \<Rightarrow> 'e \<times> WorkerResult Result" where
  "em_run run m ex lease spec =
     (case validate_current m lease (empty_result lease) of
        Inl e \<Rightarrow> (ex, Inl e)
      | Inr _ \<Rightarrow> run ex lease spec)"

definition em_revoke :: "'e cancel_fun \<Rightarrow> ExecutorManager \<Rightarrow> 'e \<Rightarrow> WorkerLease \<Rightarrow> ExecutorManager \<times> 'e" where
  "em_revoke cancel m ex lease =
     (m\<lparr>em_current_attempts := sm_erase (id_value (wl_job lease)) (em_current_attempts m)\<rparr>, cancel ex lease)"

record MockExecutor =
  mx_failures :: "(u64, string) std_map"
  mx_cancelled :: "u64 list"

definition new_mock :: MockExecutor where
  "new_mock = \<lparr>mx_failures = [], mx_cancelled = []\<rparr>"

definition mock_payload :: "JobSpec \<Rightarrow> Bytes" where
  "mock_payload spec = map char_byte (digest_hex (js_action_key spec)) @ [0] @ replicate (length (js_declared_inputs spec)) 0x42"

definition mock_run :: "MockExecutor run_fun" where
  "mock_run ex lease spec =
     (if id_value (wl_id lease) \<in> set (mx_cancelled ex)
      then (ex, Inl (error ec_cancelled ''mock-executor'' ''lease cancelled''))
      else
        case sm_find (mx_failures ex) (id_value (js_node spec)) of
          Some failure \<Rightarrow> (ex, Inr ((empty_result lease)\<lparr>wr_diagnostic := failure\<rparr>))
        | None \<Rightarrow> (ex, Inr ((empty_result lease)\<lparr>wr_success := True, wr_artifacts := [mock_payload spec]\<rparr>)))"

definition mock_cancel :: "MockExecutor cancel_fun" where
  "mock_cancel ex lease = ex\<lparr>mx_cancelled := ss_insert (id_value (wl_id lease)) (mx_cancelled ex)\<rparr>"

definition mock_set_failure :: "MockExecutor \<Rightarrow> NodeId \<Rightarrow> string \<Rightarrow> MockExecutor" where
  "mock_set_failure ex node msg = ex\<lparr>mx_failures := sm_put (id_value node) msg (mx_failures ex)\<rparr>"

section \<open>The executor contract\<close>

lemma lease_valid:
  assumes "em_lease m job = (m', lease)"
  shows "validate_current m' lease r = (if wr_lease r = wl_id lease \<and> wr_attempt r = wl_attempt lease then Inr ()
    else Inl (manager_error ''stale worker lease''))"
  using assms by (auto simp: em_lease_def Let_def validate_current_def)

locale executor =
  fixes run :: "'e \<Rightarrow> WorkerLease \<Rightarrow> JobSpec \<Rightarrow> 'e \<times> WorkerResult Result"
    and cancel :: "'e \<Rightarrow> WorkerLease \<Rightarrow> 'e"
  assumes run_names_lease: "run ex lease spec = (ex', Inr r) \<Longrightarrow> wr_lease r = wl_id lease \<and> wr_attempt r = wl_attempt lease"
    and cancel_stops: "\<exists>e. snd (run (cancel ex lease) lease spec) = Inl e"
begin

text \<open>The result of a run under a fresh lease is accepted.\<close>

lemma fresh_run_accepted:
  assumes "em_lease m job = (m', lease)" "em_run run m' ex lease spec = (ex', Inr r)"
  shows "validate_current m' lease r = Inr ()"
proof -
  have "run ex lease spec = (ex', Inr r)"
    using assms(2) lease_valid [OF assms(1), of "empty_result lease"] by (simp add: em_run_def empty_result_def)
  then show ?thesis using run_names_lease lease_valid [OF assms(1), of r] by simp
qed

text \<open>A revoked lease runs nothing any more, neither through the manager nor directly.\<close>

lemma revoked_refused:
  assumes "em_revoke cancel m ex lease = (m', ex')"
  shows "\<exists>e. snd (em_run run m' ex' lease spec) = Inl e" "\<exists>e. snd (run ex' lease spec) = Inl e"
  using assms cancel_stops [of ex lease spec]
  by (auto simp: em_run_def em_revoke_def validate_current_def empty_result_def split: if_splits)

end

interpretation mock: executor mock_run mock_cancel
proof unfold_locales
  fix ex ex' lease spec r
  assume "mock_run ex lease spec = (ex', Inr r)"
  then show "wr_lease r = wl_id lease \<and> wr_attempt r = wl_attempt lease"
    by (auto simp: mock_run_def empty_result_def split: if_splits option.splits)
next
  fix ex lease spec
  show "\<exists>e. snd (mock_run (mock_cancel ex lease) lease spec) = Inl e"
    by (simp add: mock_run_def mock_cancel_def)
qed

section \<open>Attempts as tokens\<close>

definition attempt_of :: "ExecutorManager \<Rightarrow> JobId \<Rightarrow> Generation option" where
  "attempt_of m job = sm_find (em_current_attempts m) (id_value job)"

definition issue_attempt :: "ExecutorManager \<Rightarrow> JobId \<Rightarrow> unit \<Rightarrow> ExecutorManager \<times> Generation" where
  "issue_attempt m job u = (case em_lease m job of (m', lease) \<Rightarrow> (m', wl_attempt lease))"

interpretation attempts: token_issuer attempt_of issue_attempt
  by unfold_locales
    (auto simp: attempt_of_def issue_attempt_def em_lease_def Let_def current_attempt_def Id.expand)

fun lease_all :: "ExecutorManager \<Rightarrow> JobId list \<Rightarrow> ExecutorManager \<times> WorkerLease list" where
  "lease_all m [] = (m, [])"
| "lease_all m (j # js) =
     (case em_lease m j of (m1, l) \<Rightarrow> (case lease_all m1 js of (m2, ls) \<Rightarrow> (m2, l # ls)))"

lemma lease_all_issues:
  "lease_all m js = (m', ls) \<Longrightarrow> issue_all issue_attempt m (map (\<lambda>j. (j, ())) js) = (m', map wl_attempt ls) \<and>
    map wl_job ls = js \<and> list_all wl_active ls"
proof (induction js arbitrary: m ls)
  case (Cons j js)
  then obtain m1 l ls1 where l: "em_lease m j = (m1, l)" "lease_all m1 js = (m', ls1)" "ls = l # ls1"
    by (auto split: prod.splits)
  then show ?case using Cons.IH [OF l(2)] by (auto simp: issue_attempt_def) (auto simp: em_lease_def Let_def)
qed simp

text \<open>A lease is current when its attempt is the one the manager has recorded for its job.\<close>

lemma validate_current_iff:
  assumes "wl_active l" "wr_lease r = wl_id l" "wr_attempt r = wl_attempt l"
  shows "validate_current m l r = Inr () \<longleftrightarrow> attempt_of m (wl_job l) = Some (wl_attempt l)"
  using assms by (auto simp: validate_current_def attempt_of_def split: option.splits if_splits)

lemma lease_all_current:
  assumes "lease_all m js = (m', ls)" "i < length js" "length js < 2 ^ 64"
    and "wr_lease r = wl_id (ls ! i)" "wr_attempt r = wl_attempt (ls ! i)"
  shows "validate_current m' (ls ! i) r = Inr () \<longleftrightarrow> js ! i \<notin> set (drop (Suc i) js)"
proof -
  note issues = lease_all_issues [OF assms(1)]
  have len: "length ls = length js" using issues by auto
  have job: "wl_job (ls ! i) = js ! i" using issues assms(2) len by (metis nth_map)
  have "wl_active (ls ! i)" using issues assms(2) len by (simp add: list_all_length)
  then show ?thesis
    using attempts.newest_only [of m "map (\<lambda>j. (j, ())) js" m' "map wl_attempt ls" i] issues assms job len
    by (simp add: validate_current_iff drop_map image_image)
qed

section \<open>Properties\<close>

text \<open>
  C30. Only the newest attempt of a job is accepted: after any sequence of leases, a result
  that names its lease is valid exactly when no later lease was taken for the same job.
\<close>

theorem only_newest_lease_valid:
  assumes "lease_all m js = (m', ls)" "i < length js" "length js < 2 ^ 64"
    and "wr_lease r = wl_id (ls ! i)" "wr_attempt r = wl_attempt (ls ! i)"
  shows "validate_current m' (ls ! i) r = Inr () \<longleftrightarrow> js ! i \<notin> set (drop (Suc i) js)"
  using assms by (rule lease_all_current)

theorem only_newest_lease_valid_witness:
  "let p = lease_all new_manager [Id 5, Id 6, Id 5]
   in validate_current (fst p) (snd p ! 0) (empty_result (snd p ! 0)) \<noteq> Inr () \<and>
      validate_current (fst p) (snd p ! 1) (empty_result (snd p ! 1)) = Inr ()"
  using only_newest_lease_valid [of new_manager "[Id 5, Id 6, Id 5]" _ _ 0, OF prod.collapse [symmetric]]
    only_newest_lease_valid [of new_manager "[Id 5, Id 6, Id 5]" _ _ 1, OF prod.collapse [symmetric]]
  by (simp add: Let_def empty_result_def)

text \<open>
  Revocation and the mock executor: after a lease is revoked, running it is refused by the
  manager, and by the executor itself when it is called directly.
\<close>

theorem revoked_lease_refused:
  assumes "em_revoke mock_cancel m ex lease = (m', ex')"
  shows "(\<exists>e. snd (em_run mock_run m' ex' lease spec) = Inl e) \<and> (\<exists>e. snd (mock_run ex' lease spec) = Inl e)"
  using mock.revoked_refused [OF assms] by blast

definition demo_spec :: JobSpec where
  "demo_spec = \<lparr>js_job = Id 5, js_node = Id 1, js_node_generation = Generation 2, js_action_key = zero_digest, js_declared_inputs = []\<rparr>"

theorem revoked_lease_refused_witness:
  "let p = em_lease new_manager (Id 5); q = em_revoke mock_cancel (fst p) new_mock (snd p)
   in \<exists>e. snd (em_run mock_run (fst q) (snd q) (snd p) demo_spec) = Inl e"
  using revoked_lease_refused [OF prod.collapse [symmetric], of "fst (em_lease new_manager (Id 5))" new_mock
      "snd (em_lease new_manager (Id 5))" demo_spec]
  by (simp add: Let_def)

text \<open>
  Revocation forgets the attempt: when a revoked job is leased again, its attempt numbers
  start over and the revoked lease is accepted as current.
\<close>

theorem revoked_attempt_reused:
  assumes "sm_find (em_current_attempts m) (id_value job) = None" "em_lease m job = (m1, old)"
    and "em_revoke cancel m1 ex old = (m2, ex2)" "em_lease m2 job = (m3, new)"
  shows "validate_current m3 old (empty_result old) = Inr ()"
  using assms by (auto simp: em_lease_def em_revoke_def Let_def validate_current_def empty_result_def current_attempt_def or_default_def)

theorem revoked_attempt_reused_witness:
  "let p = em_lease new_manager (Id 5); q = em_revoke mock_cancel (fst p) new_mock (snd p); r = em_lease (fst q) (Id 5)
   in validate_current (fst r) (snd p) (empty_result (snd p)) = Inr () \<and> wl_id (snd r) \<noteq> wl_id (snd p)"
  unfolding Let_def
proof
  show "validate_current (fst (em_lease (fst (em_revoke mock_cancel (fst (em_lease new_manager (Id 5))) new_mock
      (snd (em_lease new_manager (Id 5))))) (Id 5))) (snd (em_lease new_manager (Id 5)))
      (empty_result (snd (em_lease new_manager (Id 5)))) = Inr ()"
    by (rule revoked_attempt_reused [OF _ prod.collapse [symmetric] prod.collapse [symmetric] prod.collapse [symmetric]])
      (simp add: new_manager_def)
qed (simp add: em_lease_def em_revoke_def new_manager_def Let_def)

end
