(* ===== verification/Forge_Inputs.thy ===== *)
theory Forge_Inputs
  imports Forge_Base Forge_Tokens "HOL-Library.Sublist"
begin

text \<open>
  The inputs of a workspace: the virtual file system and clock (\<^verbatim>\<open>src/workspace/fingerprint.cpp\<close>,
  \<^verbatim>\<open>include/forge/workspace.hpp\<close>), the path policy (\<^verbatim>\<open>src/workspace/path_policy.cpp\<close>) and the file
  event coalescer (\<^verbatim>\<open>src/workspace/file_coalescer.cpp\<close>). Paths are strings with \<open>/\<close> between their
  elements; \<open>lexically_normal\<close> is modelled on the list of elements, and \<open>relative\<close>, which asks the
  file system, is an argument. The lemmas show that normalized paths stay inside the workspace
  and that only the newest event of a path can complete.
\<close>

unbundle bit_operations_syntax

section \<open>Definitions\<close>

subsection \<open>Virtual file system and clock\<close>

type_synonym VirtualFileSystem = "(string, Bytes) std_map"

definition vfs_write :: "VirtualFileSystem \<Rightarrow> string \<Rightarrow> Bytes \<Rightarrow> VirtualFileSystem" where
  "vfs_write fs path bytes = sm_put path bytes fs"

definition vfs_erase :: "VirtualFileSystem \<Rightarrow> string \<Rightarrow> VirtualFileSystem" where
  "vfs_erase fs path = sm_erase path fs"

definition vfs_read :: "VirtualFileSystem \<Rightarrow> string \<Rightarrow> Bytes Result" where
  "vfs_read fs path = (case sm_find fs path of None \<Rightarrow> Inl (error ec_io ''virtual-fs'' ''file not found'') | Some bytes \<Rightarrow> Inr bytes)"

definition vfs_exists :: "VirtualFileSystem \<Rightarrow> string \<Rightarrow> bool" where
  "vfs_exists fs path = sm_contains fs path"

type_synonym VirtualClock = u64

definition clock_advance :: "VirtualClock \<Rightarrow> u64 \<Rightarrow> VirtualClock" where
  "clock_advance now delta = now + delta"

subsection \<open>Path policy\<close>

abbreviation slash :: char where "slash \<equiv> CHR ''/''"

fun path_parts :: "string \<Rightarrow> string list" where
  "path_parts [] = [[]]"
| "path_parts (c # cs) =
     (if c = slash then [] # path_parts cs
      else case path_parts cs of p # ps \<Rightarrow> (c # p) # ps | [] \<Rightarrow> [[c]])"

definition is_absolute :: "string \<Rightarrow> bool" where
  "is_absolute path \<longleftrightarrow> (case path of c # _ \<Rightarrow> c = slash | [] \<Rightarrow> False)"

text \<open>
  \<open>lexically_normal\<close> on elements: empty elements and \<open>.\<close> disappear, \<open>..\<close> removes the element
  before it unless that is itself \<open>..\<close>, and directly below the root it disappears.
\<close>

definition normal_part :: "bool \<Rightarrow> string list \<Rightarrow> string \<Rightarrow> string list" where
  "normal_part absolute acc part =
     (if part = [] \<or> part = ''.'' then acc
      else if part = ''..'' then
        (if acc \<noteq> [] \<and> last acc \<noteq> ''..'' then butlast acc
         else if absolute then acc
         else acc @ [part])
      else acc @ [part])"

definition lexically_normal :: "string \<Rightarrow> string list" where
  "lexically_normal path =
     (let parts = foldl (normal_part (is_absolute path)) [] (path_parts path)
      in if is_absolute path then ''/'' # parts
         else if parts = [] then [''.''] else parts)"

text \<open>\<open>normalized /= part\<close>: an absolute part replaces the path, others are appended with a separator.\<close>

definition path_append :: "string \<Rightarrow> string \<Rightarrow> string" where
  "path_append p part =
     (if is_absolute part \<or> p = [] then part
      else if last p = slash then p @ part
      else p @ [slash] @ part)"

definition path_error :: "string \<Rightarrow> Status" where
  "path_error msg = error ec_path ''path-policy'' msg"

fun normalize_loop :: "string \<Rightarrow> string list \<Rightarrow> string Result" where
  "normalize_loop normalized [] = Inr normalized"
| "normalize_loop normalized (text # parts) =
     (if text = ''.'' \<or> text = [] then normalize_loop normalized parts
      else if text = ''..'' then Inl (path_error ''path escapes workspace'')
      else normalize_loop (path_append normalized text) parts)"

text \<open>The policy of a root is the resolution of absolute paths against it, \<open>std::filesystem::relative\<close>.\<close>

type_synonym NormalizedPath = string
type_synonym PathPolicy = "string \<Rightarrow> string"

definition normalize_path :: "PathPolicy \<Rightarrow> string \<Rightarrow> NormalizedPath Result" where
  "normalize_path relative path =
     (if path = [] then Inl (path_error ''empty path'')
      else
        let input = (if is_absolute path then relative path else path)
        in case normalize_loop [] (lexically_normal input) of
             Inl e \<Rightarrow> Inl e
           | Inr out \<Rightarrow> if out = [] \<or> prefix ''../'' out then Inl (path_error ''path escapes workspace'') else Inr out)"

subsection \<open>File event coalescer\<close>

datatype FileEventKind = fek_create | fek_modify | fek_remove | fek_rename

fun kind_bits :: "FileEventKind \<Rightarrow> u32" where
  "kind_bits fek_create = 1"
| "kind_bits fek_modify = 2"
| "kind_bits fek_remove = 4"
| "kind_bits fek_rename = 8"

record CoalescedEvent =
  ce_path :: string
  ce_merged_kind :: u32
  ce_token :: Generation
  ce_due_time :: u64

definition default_event :: CoalescedEvent where
  "default_event = \<lparr>ce_path = [], ce_merged_kind = 0, ce_token = gen_default, ce_due_time = 0\<rparr>"

record InputFingerprint =
  if_path :: string
  if_digest :: Digest256
  if_size :: u64
  if_epoch :: Generation

record FileEventCoalescer =
  fc_debounce_ticks :: u64
  fc_pending :: "(string, CoalescedEvent) std_map"
  fc_fingerprints :: "(string, InputFingerprint) std_map"

definition new_coalescer :: "u64 \<Rightarrow> FileEventCoalescer" where
  "new_coalescer ticks = \<lparr>fc_debounce_ticks = ticks, fc_pending = [], fc_fingerprints = []\<rparr>"

definition fc_push :: "FileEventCoalescer \<Rightarrow> string \<Rightarrow> FileEventKind \<Rightarrow> u64 \<Rightarrow> FileEventCoalescer \<times> CoalescedEvent" where
  "fc_push c path kind now =
     (let entry = (case sm_find (fc_pending c) path of None \<Rightarrow> default_event | Some e \<Rightarrow> e);
          entry = entry\<lparr>ce_path := path, ce_merged_kind := ce_merged_kind entry OR kind_bits kind,
                        ce_token := gen_next (ce_token entry), ce_due_time := now + fc_debounce_ticks c\<rparr>
      in (c\<lparr>fc_pending := sm_put path entry (fc_pending c)\<rparr>, entry))"

definition fc_due :: "FileEventCoalescer \<Rightarrow> u64 \<Rightarrow> CoalescedEvent list" where
  "fc_due c now = filter (\<lambda>event. ce_due_time event \<le> now) (map snd (fc_pending c))"

definition fc_complete :: "FileEventCoalescer \<Rightarrow> CoalescedEvent \<Rightarrow> InputFingerprint \<Rightarrow> FileEventCoalescer \<times> unit Result" where
  "fc_complete c event fingerprint =
     (let path = ce_path event; stale = Inl (error ec_input_unstable ''coalescer'' ''stale fingerprint completion'')
      in case sm_find (fc_pending c) path of
           None \<Rightarrow> (c, stale)
         | Some pending \<Rightarrow>
             if ce_token pending \<noteq> ce_token event then (c, stale)
             else
               let epoch = (case sm_find (fc_fingerprints c) path of None \<Rightarrow> Generation 1 | Some old \<Rightarrow> gen_next (if_epoch old))
               in (c\<lparr>fc_fingerprints := sm_put path (fingerprint\<lparr>if_epoch := epoch\<rparr>) (fc_fingerprints c),
                     fc_pending := sm_erase path (fc_pending c)\<rparr>, Inr ()))"

definition fc_current :: "FileEventCoalescer \<Rightarrow> string \<Rightarrow> InputFingerprint option" where
  "fc_current c path = sm_find (fc_fingerprints c) path"

section \<open>Paths\<close>

text \<open>The specification: walk the elements from the workspace root; leaving it is an error.\<close>

fun walk :: "string list \<Rightarrow> string list \<Rightarrow> string list option" where
  "walk at [] = Some at"
| "walk at (part # parts) =
     (if part = [] \<or> part = ''.'' then walk at parts
      else if part = ''..'' then (if at = [] then None else walk (butlast at) parts)
      else walk (at @ [part]) parts)"

fun join_parts :: "string list \<Rightarrow> string" where
  "join_parts [] = []"
| "join_parts [p] = p"
| "join_parts (p # ps) = p @ slash # join_parts ps"

definition plain_part :: "string \<Rightarrow> bool" where
  "plain_part p \<longleftrightarrow> p \<noteq> [] \<and> p \<noteq> ''.'' \<and> p \<noteq> ''..'' \<and> slash \<notin> set p"

lemma path_parts_no_slash: "p \<in> set (path_parts s) \<Longrightarrow> slash \<notin> set p"
  by (induction s arbitrary: p) (auto split: list.splits if_splits)

lemma path_parts_Cons: "path_parts s \<noteq> []"
  by (induction s) (auto split: list.split)

text \<open>Once an element \<open>..\<close> is left at the front, it stays there.\<close>

lemma normal_keeps_up: "acc \<noteq> [] \<Longrightarrow> hd acc = ''..'' \<Longrightarrow> foldl (normal_part False) acc parts \<noteq> [] \<and>
    hd (foldl (normal_part False) acc parts) = ''..''"
proof (induction parts arbitrary: acc)
  case (Cons p parts)
  have "normal_part False acc p \<noteq> [] \<and> hd (normal_part False acc p) = ''..''"
    using Cons.prems by (cases acc rule: rev_cases; cases "butlast acc") (auto simp: normal_part_def hd_append)
  then show ?case using Cons.IH by simp
qed simp

lemma plain_partI: "\<lbrakk>p \<noteq> []; p \<noteq> ''.''; p \<noteq> ''..''; slash \<notin> set p\<rbrakk> \<Longrightarrow> plain_part p"
  by (simp add: plain_part_def)

lemma last_not_slash: "\<lbrakk>p \<noteq> []; slash \<notin> set p\<rbrakk> \<Longrightarrow> last p \<noteq> slash"
  by (metis last_in_set)

lemma walk_plain:
  "\<lbrakk>walk at parts = Some to; list_all plain_part at; \<forall>p \<in> set parts. slash \<notin> set p\<rbrakk> \<Longrightarrow> list_all plain_part to"
proof (induction at parts rule: walk.induct)
  case (2 at part parts)
  have "list_all plain_part (butlast at)" using 2(5) by (auto simp: list_all_iff dest: in_set_butlastD)
  moreover have "list_all plain_part (at @ [part])" if "part \<noteq> []" "part \<noteq> ''.''" "part \<noteq> ''..''"
    using that 2(5,6) by (simp add: plain_partI)
  ultimately show ?case using 2 by (simp split: if_splits)
qed simp

lemma normal_walk:
  "\<lbrakk>list_all plain_part at; \<forall>p \<in> set parts. slash \<notin> set p\<rbrakk> \<Longrightarrow> (case walk at parts of
      Some to \<Rightarrow> foldl (normal_part False) at parts = to
    | None \<Rightarrow> foldl (normal_part False) at parts \<noteq> [] \<and> hd (foldl (normal_part False) at parts) = ''..'')"
proof (induction at parts rule: walk.induct)
  case (2 at part parts)
  show ?case
  proof (cases "part = ''..'' \<and> at = []")
    case True
    then show ?thesis using normal_keeps_up [of "[''..'']" parts] by (simp add: normal_part_def)
  next
    case False
    have "last at \<noteq> ''..''" if "at \<noteq> []"
      using that 2(4) last_in_set [OF that] by (auto simp: list_all_iff plain_part_def)
    moreover have "list_all plain_part (butlast at)" using 2(4) by (auto simp: list_all_iff dest: in_set_butlastD)
    moreover have "list_all plain_part (at @ [part])" if "part \<noteq> []" "part \<noteq> ''.''" "part \<noteq> ''..''"
      using that 2(4,5) by (simp add: plain_partI)
    ultimately show ?thesis using 2 False by (auto simp: normal_part_def cong: option.case_cong)
  qed
qed simp

lemma path_parts_plain:
  "slash \<notin> set p \<Longrightarrow> path_parts p = [p]" "slash \<notin> set p \<Longrightarrow> path_parts (p @ slash # s) = p # path_parts s"
  by (induction p) (auto split: list.split)

lemma path_parts_join: "list_all plain_part ps \<Longrightarrow> ps \<noteq> [] \<Longrightarrow> path_parts (join_parts ps) = ps"
  by (induction ps rule: join_parts.induct) (auto simp: plain_part_def path_parts_plain)

lemma join_parts_not_up:
  assumes "list_all plain_part ps" "ps \<noteq> []"
  shows "join_parts ps \<noteq> []" "\<not> prefix ''../'' (join_parts ps)" "\<not> is_absolute (join_parts ps)"
proof -
  have hd: "plain_part (hd ps)" "hd ps \<in> set ps" using assms by (simp_all add: list_all_iff)
  note parts = path_parts_join [OF assms]
  show "join_parts ps \<noteq> []" using parts hd by (auto simp: plain_part_def)
  show "\<not> prefix ''../'' (join_parts ps)"
  proof
    assume "prefix ''../'' (join_parts ps)"
    then obtain zs where "join_parts ps = ''..'' @ slash # zs" by (auto simp: prefix_def)
    then have "ps = ''..'' # path_parts zs" using parts path_parts_plain(2) [of "''..''" zs] by simp
    then have "hd ps = ''..''" by simp
    then show False using hd by (simp add: plain_part_def)
  qed
  show "\<not> is_absolute (join_parts ps)"
  proof
    assume "is_absolute (join_parts ps)"
    then obtain zs where "join_parts ps = slash # zs" by (auto simp: is_absolute_def split: list.splits)
    then have "hd ps = []" using parts by auto
    then show False using hd by (simp add: plain_part_def)
  qed
qed

lemma normalize_loop_plain:
  "\<lbrakk>list_all plain_part ps; p \<noteq> []; last p \<noteq> slash\<rbrakk> \<Longrightarrow> normalize_loop p ps = Inr (p @ concat (map (\<lambda>q. slash # q) ps))"
proof (induction ps arbitrary: p)
  case (Cons q ps)
  then have q: "q \<noteq> []" "slash \<notin> set q" "q \<noteq> ''.''" "q \<noteq> ''..''" by (auto simp: plain_part_def)
  then have "\<not> is_absolute q" "last q \<noteq> slash" by (auto simp: is_absolute_def last_not_slash split: list.split)
  then show ?case using Cons q by (simp add: path_append_def)
qed simp

lemma join_parts_Cons: "join_parts (p # ps) = p @ concat (map (\<lambda>q. slash # q) ps)"
  by (induction ps arbitrary: p) simp_all

lemma normalize_loop_join: "list_all plain_part ps \<Longrightarrow> normalize_loop [] ps = Inr (join_parts ps)"
proof (cases ps)
  case (Cons p qs)
  assume "list_all plain_part ps"
  then have p: "p \<noteq> []" "slash \<notin> set p" "p \<noteq> ''.''" "p \<noteq> ''..''" "list_all plain_part qs" by (auto simp: plain_part_def Cons)
  then have "last p \<noteq> slash" by (simp add: last_not_slash)
  then show ?thesis using p normalize_loop_plain [of qs p] by (simp add: Cons path_append_def join_parts_Cons)
qed simp

text \<open>The policy on a relative path is the walk of the specification.\<close>

definition inside :: "string \<Rightarrow> string Result" where
  "inside path =
     (case walk [] (path_parts path) of
        None \<Rightarrow> Inl (path_error ''path escapes workspace'')
      | Some at \<Rightarrow> if at = [] then Inl (path_error ''path escapes workspace'') else Inr (join_parts at))"

lemma normalize_relative:
  assumes "path \<noteq> []" "\<not> is_absolute (if is_absolute path then relative path else path)"
  shows "normalize_path relative path = inside (if is_absolute path then relative path else path)"
proof -
  let ?in = "if is_absolute path then relative path else path"
  let ?parts = "foldl (normal_part False) [] (path_parts ?in)"
  have no_slash: "\<forall>p \<in> set (path_parts ?in). slash \<notin> set p" using path_parts_no_slash by blast
  show ?thesis
  proof (cases "walk [] (path_parts ?in)")
    case None
    then obtain ps where "?parts = ''..'' # ps"
      using normal_walk [of "[]" "path_parts ?in"] no_slash by (cases ?parts) auto
    then have "normalize_loop [] (lexically_normal ?in) = Inl (path_error ''path escapes workspace'')"
      using assms(2) by (simp add: lexically_normal_def Let_def)
    then show ?thesis using assms(1) None by (simp add: normalize_path_def inside_def Let_def)
  next
    case (Some at)
    then have parts: "?parts = at" using normal_walk [of "[]" "path_parts ?in"] no_slash by simp
    have plain: "list_all plain_part at" using walk_plain [OF Some] no_slash by simp
    have "normalize_loop [] (lexically_normal ?in) = Inr (join_parts at)"
      using assms(2) normalize_loop_join [OF plain] by (simp add: lexically_normal_def Let_def parts)
    then show ?thesis
      using assms(1) Some join_parts_not_up [OF plain] by (simp add: normalize_path_def inside_def Let_def)
  qed
qed

lemma inside_fixed:
  assumes "inside path = Inr q"
  shows "q \<noteq> [] \<and> \<not> is_absolute q \<and> list_all plain_part (path_parts q) \<and> inside q = Inr q"
proof -
  obtain at where at: "walk [] (path_parts path) = Some at" "at \<noteq> []" "q = join_parts at"
    using assms by (auto simp: inside_def split: option.splits if_splits)
  have plain: "list_all plain_part at" using walk_plain [OF at(1)] path_parts_no_slash by auto
  have "walk xs ps = Some (xs @ ps)" if "list_all plain_part ps" for xs ps
    using that by (induction ps arbitrary: xs) (auto simp: plain_part_def)
  then have "walk [] at = Some at" using plain by simp
  then show ?thesis
    using at plain join_parts_not_up [OF plain at(2)] path_parts_join [OF plain at(2)] by (simp add: inside_def)
qed

section \<open>Pending events\<close>

definition pending_token :: "FileEventCoalescer \<Rightarrow> string \<Rightarrow> Generation option" where
  "pending_token c path = map_option ce_token (sm_find (fc_pending c) path)"

definition issue_event :: "FileEventCoalescer \<Rightarrow> string \<Rightarrow> FileEventKind \<times> u64 \<Rightarrow> FileEventCoalescer \<times> Generation" where
  "issue_event c path a = (case fc_push c path (fst a) (snd a) of (c', e) \<Rightarrow> (c', ce_token e))"

interpretation pending: token_issuer pending_token issue_event
  by unfold_locales
    (auto simp: pending_token_def issue_event_def fc_push_def Let_def or_default_def default_event_def split: option.split)

fun push_all :: "FileEventCoalescer \<Rightarrow> (string \<times> FileEventKind \<times> u64) list \<Rightarrow> FileEventCoalescer \<times> CoalescedEvent list" where
  "push_all c [] = (c, [])"
| "push_all c ((path, kind, now) # ps) =
     (case fc_push c path kind now of (c1, e) \<Rightarrow> (case push_all c1 ps of (c2, es) \<Rightarrow> (c2, e # es)))"

lemma push_all_issues:
  "push_all c ps = (c', es) \<Longrightarrow> issue_all issue_event c ps = (c', map ce_token es) \<and> map ce_path es = map fst ps"
proof (induction c ps arbitrary: es rule: push_all.induct)
  case (2 c path kind now ps)
  obtain c1 e where e: "fc_push c path kind now = (c1, e)" by fastforce
  moreover obtain c2 es2 where "push_all c1 ps = (c2, es2)" by fastforce
  moreover have "ce_path e = path" using e by (auto simp: fc_push_def Let_def)
  ultimately show ?case using 2 by (auto simp: issue_event_def)
qed simp

lemma complete_iff: "snd (fc_complete c e fp) = Inr () \<longleftrightarrow> pending_token c (ce_path e) = Some (ce_token e)"
  by (auto simp: fc_complete_def pending_token_def Let_def split: option.splits if_splits)

lemma kind_bits_or: "(x OR kind_bits j) AND kind_bits k \<noteq> 0 \<longleftrightarrow> x AND kind_bits k \<noteq> 0 \<or> j = k"
proof -
  have "kind_bits j AND kind_bits k = (if j = k then kind_bits k else 0)" "kind_bits k \<noteq> 0"
    by (cases j; cases k; simp)+
  moreover have "(x OR kind_bits j) AND kind_bits k = (x AND kind_bits k) OR (kind_bits j AND kind_bits k)"
    by (rule bit_word_eqI) (auto simp: bit_simps)
  ultimately show ?thesis by (auto simp: or_eq_0_iff)
qed

lemma push_all_merged:
  assumes "push_all c ps = (c', es)" "p \<in> fst ` set ps \<or> sm_find (fc_pending c) p \<noteq> None"
  shows "\<exists>e. sm_find (fc_pending c') p = Some e \<and>
    (\<forall>k. ce_merged_kind e AND kind_bits k \<noteq> 0 \<longleftrightarrow>
       (\<exists>now. (p, k, now) \<in> set ps) \<or> (\<exists>e0. sm_find (fc_pending c) p = Some e0 \<and> ce_merged_kind e0 AND kind_bits k \<noteq> 0))"
  using assms
proof (induction c ps arbitrary: es rule: push_all.induct)
  case (2 c path kind now ps)
  obtain c1 e where e: "fc_push c path kind now = (c1, e)" by fastforce
  obtain es2 where rest: "push_all c1 ps = (c', es2)" using 2(2) e by (auto split: prod.splits)
  have pend: "sm_find (fc_pending c1) = (sm_find (fc_pending c))(path \<mapsto> e)" "fc_debounce_ticks c1 = fc_debounce_ticks c"
    "ce_merged_kind e = (case sm_find (fc_pending c) path of None \<Rightarrow> 0 | Some e0 \<Rightarrow> ce_merged_kind e0) OR kind_bits kind"
    using e by (auto simp: fc_push_def Let_def default_event_def split: option.splits)
  have "p \<in> fst ` set ps \<or> sm_find (fc_pending c1) p \<noteq> None" using 2(3) by (auto simp: pend)
  from 2(1) [OF e [symmetric] rest this] obtain e' where e': "sm_find (fc_pending c') p = Some e'"
    "\<And>k. ce_merged_kind e' AND kind_bits k \<noteq> 0 \<longleftrightarrow>
       (\<exists>now. (p, k, now) \<in> set ps) \<or> (\<exists>e0. sm_find (fc_pending c1) p = Some e0 \<and> ce_merged_kind e0 AND kind_bits k \<noteq> 0)"
    by blast
  show ?case
  proof (intro exI [of _ e'] conjI allI)
    fix k
    show "ce_merged_kind e' AND kind_bits k \<noteq> 0 \<longleftrightarrow> (\<exists>n. (p, k, n) \<in> set ((path, kind, now) # ps)) \<or>
        (\<exists>e0. sm_find (fc_pending c) p = Some e0 \<and> ce_merged_kind e0 AND kind_bits k \<noteq> 0)"
      unfolding e'(2) pend(1) by (cases "p = path") (auto simp: pend(3) kind_bits_or split: option.splits)
  qed (rule e'(1))
qed auto

section \<open>Properties\<close>

text \<open>
  C31. The path policy keeps paths inside the workspace: the empty path is refused as such, and
  every other path is accepted exactly when walking its elements from the workspace root never
  leaves the root and ends below it, so that \<open>.\<close> and \<open>a/..\<close> are refused like \<open>../a\<close>; the result is the
  path of the place where the walk ends. An absolute path is first made relative to the root, by
  \<open>std::filesystem::relative\<close>, whose result is a path that is not absolute.
\<close>

theorem normalize_refines_walk:
  assumes "\<not> is_absolute (if is_absolute path then relative path else path)"
  shows "normalize_path relative path =
    (if path = [] then Inl (path_error ''empty path'')
     else case walk [] (path_parts (if is_absolute path then relative path else path)) of
       None \<Rightarrow> Inl (path_error ''path escapes workspace'')
     | Some at \<Rightarrow> if at = [] then Inl (path_error ''path escapes workspace'') else Inr (join_parts at))"
proof (cases "path = []")
  case True
  then show ?thesis by (simp add: normalize_path_def)
next
  case False
  then show ?thesis using normalize_relative [of path relative, OF _ assms] by (simp add: inside_def)
qed

theorem normalize_refines_walk_witness:
  "normalize_path (\<lambda>p. p) ''a/./b/../c.txt'' = Inr ''a/c.txt'' \<and>
   normalize_path (\<lambda>p. p) ''a/../../b'' = Inl (path_error ''path escapes workspace'') \<and>
   normalize_path (\<lambda>p. p) ''a/..'' = Inl (path_error ''path escapes workspace'') \<and>
   normalize_path (\<lambda>p. drop 3 p) ''/r/a'' = Inr ''a''"
  using normalize_refines_walk [of "''a/./b/../c.txt''" "\<lambda>p. p"] normalize_refines_walk [of "''a/../../b''" "\<lambda>p. p"]
    normalize_refines_walk [of "''a/..''" "\<lambda>p. p"] normalize_refines_walk [of "''/r/a''" "\<lambda>p. drop 3 p"]
  by (simp add: is_absolute_def)

text \<open>
  C32. Normalization is a projection: a normalized path has only plain elements, no empty one,
  no dot and no dot-dot, and normalizing it again returns it unchanged.
\<close>

theorem normalize_idempotent:
  assumes "normalize_path relative path = Inr q" "\<not> is_absolute (if is_absolute path then relative path else path)"
  shows "list_all plain_part (path_parts q) \<and> normalize_path relative q = Inr q"
proof -
  have "path \<noteq> []" using assms(1) by (auto simp: normalize_path_def)
  then have "inside (if is_absolute path then relative path else path) = Inr q"
    using assms normalize_relative by metis
  from inside_fixed [OF this] show ?thesis using normalize_relative [of q relative] by auto
qed

theorem normalize_idempotent_witness:
  "normalize_path (\<lambda>p. p) ''a/c.txt'' = Inr ''a/c.txt''"
proof -
  have "normalize_path (\<lambda>p. p) ''a//b/../c.txt/'' = Inr ''a/c.txt''" by code_simp
  then show ?thesis using normalize_idempotent [of "\<lambda>p. p" "''a//b/../c.txt/''" "''a/c.txt''"] by (simp add: is_absolute_def)
qed

text \<open>
  C33. Only the newest event of a path can complete: after any sequence of file events, the
  completion of an event is accepted exactly when no later event came in for the same path.
\<close>

theorem only_newest_event_completes:
  assumes "push_all c ps = (c', es)" "i < length ps" "length ps < 2 ^ 64"
  shows "snd (fc_complete c' (es ! i) fp) = Inr () \<longleftrightarrow> fst (ps ! i) \<notin> fst ` set (drop (Suc i) ps)"
proof -
  note issues = push_all_issues [OF assms(1)]
  have len: "length es = length ps" using issues by (metis length_map)
  moreover have "ce_path (es ! i) = fst (ps ! i)" using issues assms(2) len by (metis nth_map)
  ultimately show ?thesis
    using pending.newest_only [of c ps c' "map ce_token es" i] issues assms by (simp add: complete_iff)
qed

definition demo_fingerprint :: InputFingerprint where
  "demo_fingerprint = \<lparr>if_path = ''a'', if_digest = zero_digest, if_size = 0, if_epoch = Generation 1\<rparr>"

theorem only_newest_event_completes_witness:
  "let p = push_all (new_coalescer 5) [(''a'', fek_create, 0), (''a'', fek_modify, 2), (''b'', fek_modify, 3)]
   in snd (fc_complete (fst p) (snd p ! 0) demo_fingerprint) \<noteq> Inr () \<and>
      snd (fc_complete (fst p) (snd p ! 1) demo_fingerprint) = Inr ()"
  using only_newest_event_completes [of "new_coalescer 5" "[(''a'', fek_create, 0), (''a'', fek_modify, 2), (''b'', fek_modify, 3)]"
      _ _ 0, OF prod.collapse [symmetric]]
    only_newest_event_completes [of "new_coalescer 5" "[(''a'', fek_create, 0), (''a'', fek_modify, 2), (''b'', fek_modify, 3)]"
      _ _ 1, OF prod.collapse [symmetric]]
  by (simp add: Let_def)

text \<open>
  C34. Coalescing loses no kind of change: after a sequence of events on a fresh coalescer the
  pending event of a path has the bit of a kind set exactly when an event of that kind came in for
  the path.
\<close>

theorem coalesced_kinds_exact:
  assumes "push_all (new_coalescer ticks) ps = (c, es)" "p \<in> fst ` set ps"
  shows "\<exists>e. sm_find (fc_pending c) p = Some e \<and>
    (\<forall>k. ce_merged_kind e AND kind_bits k \<noteq> 0 \<longleftrightarrow> (\<exists>now. (p, k, now) \<in> set ps))"
  using push_all_merged [OF assms(1), of p] assms(2) by (simp add: new_coalescer_def)

theorem coalesced_kinds_exact_witness:
  "let p = push_all (new_coalescer 5) [(''a'', fek_create, 0), (''a'', fek_modify, 2)]
   in \<exists>e. sm_find (fc_pending (fst p)) ''a'' = Some e \<and> ce_merged_kind e AND kind_bits fek_modify \<noteq> 0 \<and>
        \<not> ce_merged_kind e AND kind_bits fek_remove \<noteq> 0"
proof -
  let ?ps = "[(''a'', fek_create, 0 :: u64), (''a'', fek_modify, 2)]"
  obtain e where e: "sm_find (fc_pending (fst (push_all (new_coalescer 5) ?ps))) ''a'' = Some e"
    "\<And>k. ce_merged_kind e AND kind_bits k \<noteq> 0 \<longleftrightarrow> (\<exists>now. (''a'', k, now) \<in> set ?ps)"
    using coalesced_kinds_exact [of 5 ?ps, OF prod.collapse [symmetric], of "''a''"] by auto
  from e(1) e(2) [of fek_modify] e(2) [of fek_remove] show ?thesis by (auto simp: Let_def)
qed

text \<open>
  Completion forgets the token of a path: when a path changes again after a completion its
  tokens start over, so a late second completion of the old event is accepted although it is stale.
\<close>

theorem completed_token_reused:
  assumes "sm_find (fc_pending c) path = None" "fc_push c path kind now = (c1, old)" "fc_complete c1 old fp = (c2, r)"
    and "fc_push c2 path kind' now' = (c3, new)"
  shows "snd (fc_complete c3 old fp') = Inr ()"
  using assms by (auto simp: complete_iff fc_push_def fc_complete_def pending_token_def Let_def default_event_def)

theorem completed_token_reused_witness:
  "let p = fc_push (new_coalescer 5) ''a'' fek_create 0; q = fc_complete (fst p) (snd p) demo_fingerprint;
       r = fc_push (fst q) ''a'' fek_modify 9
   in snd (fc_complete (fst r) (snd p) demo_fingerprint) = Inr ()"
  unfolding Let_def
  by (rule completed_token_reused [OF _ prod.collapse [symmetric] prod.collapse [symmetric] prod.collapse [symmetric]])
    (simp add: new_coalescer_def)

end
