(* ===== verification/Forge_Workspace.thy ===== *)
theory Forge_Workspace
  imports Forge_Cycle Forge_Event Forge_Artifact Forge_Executor Forge_Inputs
begin

text \<open>
  The workspace (\<^verbatim>\<open>src/workspace/workspace.cpp\<close>): it owns the graph, the artifact store, the event
  hub, the coalescer, the virtual file system and the clock, plans the order of a build and runs
  it. The recursive lambda of \<open>plan_order\<close> is modelled with its depth as fuel; the lemmas show that
  the number of nodes is enough, that the plan of an acyclic graph is a dependency order of exactly
  the nodes the targets need, and what a build reports and stores.
\<close>

section \<open>Definitions\<close>

record BuildOutcome =
  bo_request :: RequestId
  bo_events :: "BuildEvent list"
  bo_artifacts :: "ArtifactKey list"

text \<open>\<open>path_policy_\<close> is its resolution of absolute paths against the workspace root.\<close>

record WorkspaceCore =
  ws_path_policy :: PathPolicy
  ws_clock :: VirtualClock
  ws_fs :: VirtualFileSystem
  ws_coalescer :: FileEventCoalescer
  ws_graph :: BuildGraph
  ws_artifacts :: ArtifactStore
  ws_event_hub :: EventHub
  ws_next_request :: u64
  ws_next_job :: u64

definition new_workspace :: "PathPolicy \<Rightarrow> WorkspaceCore" where
  "new_workspace relative = \<lparr>ws_path_policy = relative, ws_clock = 0, ws_fs = [], ws_coalescer = new_coalescer 5,
     ws_graph = new_graph, ws_artifacts = new_store None, ws_event_hub = [], ws_next_request = 1, ws_next_job = 1\<rparr>"

definition ws_put_node :: "WorkspaceCore \<Rightarrow> string \<Rightarrow> ActionSpec \<Rightarrow> WorkspaceCore \<times> NodeId Result" where
  "ws_put_node ws name action = (case put_node (ws_graph ws) name action of (g, r) \<Rightarrow> (ws\<lparr>ws_graph := g\<rparr>, r))"

definition ws_put_edge :: "WorkspaceCore \<Rightarrow> NodeId \<Rightarrow> NodeId \<Rightarrow> EdgeKind \<Rightarrow> WorkspaceCore \<times> EdgeId Result" where
  "ws_put_edge ws from to kind = (case put_edge (ws_graph ws) from to kind of (g, r) \<Rightarrow> (ws\<lparr>ws_graph := g\<rparr>, r))"

definition fingerprint_path :: "WorkspaceCore \<Rightarrow> string \<Rightarrow> Digest256" where
  "fingerprint_path ws path =
     (case vfs_read (ws_fs ws) path of
        Inl _ \<Rightarrow> digest_bytes ''missing-input'' []
      | Inr bytes \<Rightarrow> digest_bytes ''input'' bytes)"

definition file_event :: "WorkspaceCore \<Rightarrow> string \<Rightarrow> FileEventKind \<Rightarrow> WorkspaceCore \<times> unit Result" where
  "file_event ws path kind =
     (case normalize_path (ws_path_policy ws) path of
        Inl e \<Rightarrow> (ws, Inl e)
      | Inr normalized \<Rightarrow>
          (case fc_push (ws_coalescer ws) normalized kind (ws_clock ws) of
             (c, event) \<Rightarrow>
               let ws = ws\<lparr>ws_coalescer := c, ws_clock := clock_advance (ws_clock ws) 5\<rparr>;
                   fingerprint = fingerprint_path ws (ce_path event)
               in case fc_complete (ws_coalescer ws) event
                         \<lparr>if_path = ce_path event, if_digest = fingerprint, if_size = 0, if_epoch = gen_default\<rparr> of
                    (c, r) \<Rightarrow> (ws\<lparr>ws_coalescer := c\<rparr>, r)))"

text \<open>The depth-first post-order of \<open>plan_order\<close>; \<open>None\<close> is running out of fuel.\<close>

function (sequential)
  plan_visit :: "nat \<Rightarrow> GraphSnapshot \<Rightarrow> NodeId \<Rightarrow> NodeId list \<times> NodeId list \<Rightarrow> (NodeId list \<times> NodeId list) option"
  and plan_deps :: "nat \<Rightarrow> GraphSnapshot \<Rightarrow> NodeId list \<Rightarrow> NodeId list \<times> NodeId list \<Rightarrow> (NodeId list \<times> NodeId list) option" where
  "plan_visit fuel snap node (seen, order) =
     (if node \<in> set seen then Some (seen, order)
      else
        case fuel of
          0 \<Rightarrow> None
        | Suc n \<Rightarrow>
            (case plan_deps n snap (dependencies snap node) (ss_insert node seen, order) of
               None \<Rightarrow> None
             | Some (seen', order') \<Rightarrow> Some (seen', order' @ [node])))"
| "plan_deps fuel snap [] so = Some so"
| "plan_deps fuel snap (dep # deps) so =
     (case plan_visit fuel snap dep so of None \<Rightarrow> None | Some so' \<Rightarrow> plan_deps fuel snap deps so')"
  by pat_completeness auto
termination
  by (relation "measures [case_sum (\<lambda>(fuel, _). fuel) (\<lambda>(fuel, _). fuel),
      case_sum (\<lambda>_. 0) (\<lambda>(_, _, deps, _). Suc (length deps))]") auto

declare plan_visit.simps [simp del]

definition workspace_error :: "ErrorCode \<Rightarrow> string \<Rightarrow> Status" where
  "workspace_error c msg = error c ''workspace'' msg"

fun plan_targets :: "nat \<Rightarrow> GraphSnapshot \<Rightarrow> NodeId list \<Rightarrow> NodeId list \<times> NodeId list \<Rightarrow> NodeId list Result option" where
  "plan_targets fuel snap [] (seen, order) = Some (Inr order)"
| "plan_targets fuel snap (target # targets) so =
     (if \<not> sm_contains (gs_nodes snap) target then Some (Inl (workspace_error ec_graph_conflict ''unknown target''))
      else case plan_visit fuel snap target so of None \<Rightarrow> None | Some so' \<Rightarrow> plan_targets fuel snap targets so')"

definition plan_order :: "BuildGraph \<Rightarrow> NodeId list \<Rightarrow> NodeId list Result option" where
  "plan_order g targets = (let snap = snapshot g in plan_targets (length (gs_nodes snap)) snap targets ([], []))"

text \<open>The variables of the loop of \<open>build\<close> that change.\<close>

record 'e BuildVars =
  bv_manager :: ExecutorManager
  bv_executor :: 'e
  bv_artifacts :: ArtifactStore
  bv_next_job :: u64
  bv_active :: "(string, JobId) std_map"
  bv_outcome :: BuildOutcome

definition build_event :: "EventKind \<Rightarrow> string \<Rightarrow> bool \<Rightarrow> u64 \<Rightarrow> BuildEvent" where
  "build_event kind msg terminal bytes = \<lparr>be_kind = kind, be_message = msg, be_terminal = terminal, be_bytes = bytes\<rparr>"

definition emit :: "BuildEvent \<Rightarrow> 'e BuildVars \<Rightarrow> 'e BuildVars" where
  "emit ev v = v\<lparr>bv_outcome := (bv_outcome v)\<lparr>bo_events := bo_events (bv_outcome v) @ [ev]\<rparr>\<rparr>"

definition fail_build :: "Status \<Rightarrow> 'e BuildVars \<Rightarrow> 'e BuildVars" where
  "fail_build e v = emit (build_event evk_failed (message e) True 16) v"

text \<open>\<open>Inl\<close> returns from the build, \<open>Inr\<close> goes on.\<close>

fun publish_artifacts :: "Bytes list \<Rightarrow> 'e BuildVars \<Rightarrow> 'e BuildVars + 'e BuildVars" where
  "publish_artifacts [] v = Inr v"
| "publish_artifacts (artifact_bytes # rest) v =
     (case cas_publish no_fault (bv_artifacts v) (writer_append [] artifact_bytes) of
        (s, Inl e) \<Rightarrow> Inl (fail_build e (v\<lparr>bv_artifacts := s\<rparr>))
      | (s, Inr key) \<Rightarrow>
          publish_artifacts rest
            (v\<lparr>bv_artifacts := s, bv_outcome := (bv_outcome v)\<lparr>bo_artifacts := bo_artifacts (bv_outcome v) @ [key]\<rparr>\<rparr>))"

definition run_job :: "'e run_fun \<Rightarrow> BuildNode \<Rightarrow> NodeId \<Rightarrow> Digest256 \<Rightarrow> 'e BuildVars \<Rightarrow> 'e BuildVars + 'e BuildVars" where
  "run_job run node node_id key v =
     (let job = Id (bv_next_job v);
          v = v\<lparr>bv_next_job := bv_next_job v + 1, bv_active := sm_put (digest_hex key) job (bv_active v)\<rparr>
      in case em_lease (bv_manager v) job of
           (m, lease) \<Rightarrow>
             let v = emit (build_event evk_running (''running '' @ bn_name node) False 16) (v\<lparr>bv_manager := m\<rparr>);
                 spec = \<lparr>js_job = job, js_node = node_id, js_node_generation = bn_generation node, js_action_key = key,
                         js_declared_inputs = []\<rparr>
             in case em_run run m (bv_executor v) lease spec of
                  (ex, Inl e) \<Rightarrow> Inl (fail_build e (v\<lparr>bv_executor := ex\<rparr>))
                | (ex, Inr result) \<Rightarrow>
                    (let v = v\<lparr>bv_executor := ex\<rparr>
                     in case validate_current m lease result of
                          Inl e \<Rightarrow> Inl (fail_build e v)
                        | Inr _ \<Rightarrow>
                            (case publish_artifacts (wr_artifacts result) v of
                               Inl v' \<Rightarrow> Inl v'
                             | Inr v' \<Rightarrow> Inr (emit (build_event evk_succeeded (''succeeded '' @ bn_name node) True 16) v'))))"

fun build_nodes :: "'e run_fun \<Rightarrow> Nodes \<Rightarrow> NodeId list \<Rightarrow> 'e BuildVars \<Rightarrow> 'e BuildVars \<times> unit Result" where
  "build_nodes run nodes [] v = (v, Inr ())"
| "build_nodes run nodes (node_id # rest) v =
     (case sm_find nodes node_id of
        None \<Rightarrow> (v, Inl (workspace_error ec_graph_conflict ''target missing''))
      | Some node \<Rightarrow>
          let key = action_key_for node [] []
          in case sm_find (bv_active v) (digest_hex key) of
               Some job \<Rightarrow>
                 build_nodes run nodes rest (emit (build_event evk_queued ''attached duplicate job'' False 24) v)
             | None \<Rightarrow>
                 (case run_job run node node_id key v of
                    Inl v' \<Rightarrow> (v', Inr ())
                  | Inr v' \<Rightarrow> build_nodes run nodes rest v'))"

definition build ::
    "'e run_fun \<Rightarrow> WorkspaceCore \<Rightarrow> 'e \<Rightarrow> NodeId list \<Rightarrow> (WorkspaceCore \<times> 'e \<times> BuildOutcome Result) option" where
  "build run ws ex targets =
     (case cycle_witness (ws_graph ws) of
        None \<Rightarrow> None
      | Some (Some w) \<Rightarrow> Some (ws, ex, Inl (workspace_error ec_cycle ''graph contains prohibited cycle''))
      | Some None \<Rightarrow>
          (case plan_order (ws_graph ws) targets of
             None \<Rightarrow> None
           | Some (Inl e) \<Rightarrow> Some (ws, ex, Inl e)
           | Some (Inr order) \<Rightarrow>
               let request = Id (ws_next_request ws);
                   ws = ws\<lparr>ws_next_request := ws_next_request ws + 1\<rparr>;
                   outcome = \<lparr>bo_request = request, bo_events = [], bo_artifacts = []\<rparr>
               in case hub_open_stream (ws_event_hub ws) (ucast (id_value request)) (1024 * 1024) of
                    (h, Inl e) \<Rightarrow> Some (ws\<lparr>ws_event_hub := h\<rparr>, ex, Inl e)
                  | (h, Inr _) \<Rightarrow>
                      (case build_nodes run (bg_nodes (ws_graph ws)) order
                              \<lparr>bv_manager = new_manager, bv_executor = ex, bv_artifacts = ws_artifacts ws,
                               bv_next_job = ws_next_job ws, bv_active = [], bv_outcome = outcome\<rparr> of
                         (v, r) \<Rightarrow>
                           Some (ws\<lparr>ws_event_hub := h, ws_artifacts := bv_artifacts v, ws_next_job := bv_next_job v\<rparr>,
                             bv_executor v, (case r of Inl e \<Rightarrow> Inl e | Inr _ \<Rightarrow> Inr (bv_outcome v))))))"

section \<open>Plans\<close>

text \<open>Every node of a list comes after the nodes it depends on.\<close>

definition dependency_order :: "Edges \<Rightarrow> NodeId list \<Rightarrow> bool" where
  "dependency_order edges order \<longleftrightarrow>
     (\<forall>before n after m. order = before @ n # after \<and> (n, m) \<in> depends edges \<longrightarrow> m \<in> set before)"

lemma dependency_order_Nil [simp]: "dependency_order edges []"
  by (simp add: dependency_order_def)

lemma dependency_order_snoc:
  "dependency_order edges (order @ [n]) \<longleftrightarrow> dependency_order edges order \<and> (\<forall>m. (n, m) \<in> depends edges \<longrightarrow> m \<in> set order)"
proof
  assume l: "dependency_order edges (order @ [n])"
  show "dependency_order edges order \<and> (\<forall>m. (n, m) \<in> depends edges \<longrightarrow> m \<in> set order)"
  proof (intro conjI allI impI)
    show "dependency_order edges order"
      unfolding dependency_order_def
    proof (intro allI impI)
      fix xs x ys m assume "order = xs @ x # ys \<and> (x, m) \<in> depends edges"
      then have "order @ [n] = xs @ x # (ys @ [n])" "(x, m) \<in> depends edges" by simp_all
      then show "m \<in> set xs" using l unfolding dependency_order_def by blast
    qed
    show "m \<in> set order" if "(n, m) \<in> depends edges" for m using l that unfolding dependency_order_def by blast
  qed
next
  assume r: "dependency_order edges order \<and> (\<forall>m. (n, m) \<in> depends edges \<longrightarrow> m \<in> set order)"
  show "dependency_order edges (order @ [n])"
    unfolding dependency_order_def
  proof (intro allI impI)
    fix xs x ys m assume *: "order @ [n] = xs @ x # ys \<and> (x, m) \<in> depends edges"
    show "m \<in> set xs"
    proof (cases ys rule: rev_cases)
      case Nil
      then show ?thesis using * r by simp
    next
      case (snoc zs z)
      then have "order = xs @ x # zs" using * by simp
      then show ?thesis using * r unfolding dependency_order_def by blast
    qed
  qed
qed

lemma dependency_order_closed:
  assumes "dependency_order edges order" "n \<in> set order" "(n, m) \<in> (depends edges)\<^sup>*"
  shows "m \<in> set order"
  using assms(3,2)
proof (induction rule: rtrancl_induct)
  case (step y z)
  then obtain xs ys where "order = xs @ y # ys" by (meson split_list)
  then show ?case using assms(1) step.hyps unfolding dependency_order_def by force
qed

text \<open>
  The state of the traversal below the nodes \<open>G\<close> that are being visited: the nodes seen are those
  already in the order and those in \<open>G\<close>.
\<close>

definition plan_inv :: "Edges \<Rightarrow> NodeId set \<Rightarrow> NodeId list \<times> NodeId list \<Rightarrow> bool" where
  "plan_inv edges G so \<longleftrightarrow> set (fst so) = set (snd so) \<union> G \<and> set (snd so) \<inter> G = {} \<and> distinct (snd so) \<and>
     dependency_order edges (snd so)"

definition grows :: "Edges \<Rightarrow> NodeId set \<Rightarrow> NodeId list \<times> NodeId list \<Rightarrow> NodeId list \<times> NodeId list \<Rightarrow> bool" where
  "grows edges from so so' \<longleftrightarrow> (\<exists>new. snd so' = snd so @ new \<and> (\<forall>x \<in> set new. \<exists>n \<in> from. (n, x) \<in> (depends edges)\<^sup>*))"

lemma grows_refl [simp]: "grows edges S so so"
  by (simp add: grows_def)

lemma grows_trans: "grows edges S so so' \<Longrightarrow> grows edges T so' so'' \<Longrightarrow> S \<subseteq> U \<Longrightarrow> T \<subseteq> U \<Longrightarrow> grows edges U so so''"
  unfolding grows_def by fastforce

lemma plan_close:
  assumes inv: "plan_inv (gs_edges snap) (insert node G) (seen1, order1)" "set (dependencies snap node) \<subseteq> set order1"
    and grow: "grows (gs_edges snap) (set (dependencies snap node)) (ss_insert node seen, order) (seen1, order1)" and G: "node \<notin> G"
  shows "plan_inv (gs_edges snap) G (seen1, order1 @ [node])" "grows (gs_edges snap) {node} (seen, order) (seen1, order1 @ [node])"
proof -
  let ?E = "depends (gs_edges snap)"
  have "node \<notin> set order1" using inv(1) by (auto simp: plan_inv_def)
  then show "plan_inv (gs_edges snap) G (seen1, order1 @ [node])"
    using inv G by (auto simp: plan_inv_def dependency_order_snoc set_dependencies)
  obtain new where new: "order1 = order @ new" "\<forall>x \<in> set new. \<exists>n. (node, n) \<in> ?E \<and> (n, x) \<in> ?E\<^sup>*"
    using grow by (auto simp: grows_def set_dependencies)
  have "(node, x) \<in> ?E\<^sup>*" if "x \<in> set new" for x
    using new(2) that by (meson converse_rtrancl_into_rtrancl)
  then show "grows (gs_edges snap) {node} (seen, order) (seen1, order1 @ [node])"
    unfolding grows_def by (intro exI [of _ "new @ [node]"]) (simp add: new(1))
qed

lemma plan_contract:
  "\<lbrakk>acyclic (depends (gs_edges snap)); plan_inv (gs_edges snap) G so; \<And>g. g \<in> G \<Longrightarrow> (g, node) \<in> (depends (gs_edges snap))\<^sup>+;
    plan_visit fuel snap node so = Some so'\<rbrakk>
    \<Longrightarrow> plan_inv (gs_edges snap) G so' \<and> node \<in> set (snd so') \<and> grows (gs_edges snap) {node} so so'"
  "\<lbrakk>acyclic (depends (gs_edges snap)); plan_inv (gs_edges snap) G so; \<And>g d. g \<in> G \<Longrightarrow> d \<in> set deps \<Longrightarrow> (g, d) \<in> (depends (gs_edges snap))\<^sup>+;
    plan_deps fuel snap deps so = Some so'\<rbrakk>
    \<Longrightarrow> plan_inv (gs_edges snap) G so' \<and> set deps \<subseteq> set (snd so') \<and> grows (gs_edges snap) (set deps) so so'"
proof (induction fuel snap node so and fuel snap deps so arbitrary: G so' and G so' rule: plan_visit_plan_deps.induct)
  case (1 fuel snap node seen order)
  let ?E = "depends (gs_edges snap)"
  show ?case
  proof (cases "node \<in> set seen")
    case True
    have "node \<notin> G" using 1(2) 1(4) [of node] unfolding acyclic_def by blast
    then show ?thesis using 1(3,5) True by (auto simp: plan_visit.simps plan_inv_def)
  next
    case False
    then obtain n seen1 order1 where n: "fuel = Suc n" and so': "so' = (seen1, order1 @ [node])"
      and deps: "plan_deps n snap (dependencies snap node) (ss_insert node seen, order) = Some (seen1, order1)"
      using 1(5) by (auto simp: plan_visit.simps split: nat.splits option.splits)
    have inv: "plan_inv (gs_edges snap) (insert node G) (ss_insert node seen, order)"
      using 1(3) False by (auto simp: plan_inv_def)
    have up: "(g, d) \<in> ?E\<^sup>+" if "g \<in> insert node G" "d \<in> set (dependencies snap node)" for g d
    proof -
      have "(node, d) \<in> ?E" using that(2) by (simp add: set_dependencies)
      then show ?thesis using that(1) 1(4) [of g] by (cases "g = node") (simp_all add: r_into_trancl trancl_into_trancl)
    qed
    from 1(1) [OF False n 1(2) inv up deps]
    have IH: "plan_inv (gs_edges snap) (insert node G) (seen1, order1)" "set (dependencies snap node) \<subseteq> set order1"
      "grows (gs_edges snap) (set (dependencies snap node)) (ss_insert node seen, order) (seen1, order1)" by auto
    have "node \<notin> G" using 1(3) False by (auto simp: plan_inv_def)
    then show ?thesis using plan_close [OF IH] by (simp add: so')
  qed
next
  case (3 fuel snap dep deps so)
  obtain so1 where v: "plan_visit fuel snap dep so = Some so1" "plan_deps fuel snap deps so1 = Some so'"
    using 3(6) by (auto split: option.splits)
  have one: "plan_inv (gs_edges snap) G so1" "dep \<in> set (snd so1)" "grows (gs_edges snap) {dep} so so1"
    using 3(1) [OF 3(3,4) 3(5) v(1)] by simp_all
  have two: "plan_inv (gs_edges snap) G so'" "set deps \<subseteq> set (snd so')" "grows (gs_edges snap) (set deps) so1 so'"
    using 3(2) [OF v(1) 3(3) one(1) 3(5) v(2)] by simp_all
  have "set (snd so1) \<subseteq> set (snd so')" using two(3) by (auto simp: grows_def)
  then show ?case using one two grows_trans [OF one(3) two(3), of "set (dep # deps)"] by auto
qed auto

lemma plan_seen_mono:
  "plan_visit fuel snap node so = Some so' \<Longrightarrow> set (fst so) \<subseteq> set (fst so')"
  "plan_deps fuel snap deps so = Some so' \<Longrightarrow> set (fst so) \<subseteq> set (fst so')"
proof (induction fuel snap node so and fuel snap deps so arbitrary: so' and so' rule: plan_visit_plan_deps.induct)
  case (1 fuel snap node seen order)
  show ?case
  proof (cases "node \<in> set seen")
    case False
    then obtain n seen1 order1 where n: "fuel = Suc n" "fst so' = seen1"
      "plan_deps n snap (dependencies snap node) (ss_insert node seen, order) = Some (seen1, order1)"
      using 1(2) by (auto simp: plan_visit.simps split: nat.splits option.splits)
    show ?thesis using 1(1) [OF False n(1,3)] n(2) by simp
  qed (use 1(2) in \<open>simp add: plan_visit.simps\<close>)
next
  case (3 fuel snap dep deps so)
  obtain so1 where v: "plan_visit fuel snap dep so = Some so1" "plan_deps fuel snap deps so1 = Some so'"
    using 3(3) by (auto split: option.splits)
  show ?case using 3(1) [OF v(1)] 3(2) [OF v] by blast
qed simp

text \<open>The nodes not seen yet bound the depth of the recursion.\<close>

lemma plan_fuel:
  "\<lbrakk>targets_in V (gs_edges snap); node \<in> V; card (V - set (fst so)) \<le> fuel\<rbrakk> \<Longrightarrow> plan_visit fuel snap node so \<noteq> None"
  "\<lbrakk>targets_in V (gs_edges snap); set deps \<subseteq> V; card (V - set (fst so)) \<le> fuel\<rbrakk> \<Longrightarrow> plan_deps fuel snap deps so \<noteq> None"
proof (induction fuel snap node so and fuel snap deps so rule: plan_visit_plan_deps.induct)
  case (1 fuel snap node seen order)
  show ?case
  proof (cases "node \<in> set seen")
    case False
    have fin: "finite V" using 1(2) by (simp add: targets_in_def)
    have "V - set (ss_insert node seen) = (V - set seen) - {node}" by auto
    then have "Suc (card (V - set (ss_insert node seen))) = card (V - set seen)"
      using fin 1(3) False card_Suc_Diff1 [of "V - set seen" node] by simp
    then obtain n where n: "fuel = Suc n" "card (V - set (ss_insert node seen)) \<le> n" using 1(4) by (cases fuel) auto
    have "set (dependencies snap node) \<subseteq> V" using 1(2) by (auto simp: targets_in_def set_dependencies)
    then show ?thesis using 1(1) [OF False n(1) 1(2)] n False by (auto simp: plan_visit.simps split: option.split)
  qed (simp add: plan_visit.simps)
next
  case (3 fuel snap dep deps so)
  then obtain so1 where v: "plan_visit fuel snap dep so = Some so1" by fastforce
  have "card (V - set (fst so1)) \<le> card (V - set (fst so))"
    using plan_seen_mono(1) [OF v] 3(3) by (intro card_mono) (auto simp: targets_in_def)
  then show ?case using 3(2) [OF v 3(3)] 3(4,5) v by simp
qed simp

lemma plan_targets_ok:
  assumes "targets_in V (gs_edges snap)" "acyclic (depends (gs_edges snap))"
    and "\<And>n. sm_contains (gs_nodes snap) n \<longleftrightarrow> n \<in> V"
  shows "\<lbrakk>set targets \<subseteq> V; plan_inv (gs_edges snap) {} so; card (V - set (fst so)) \<le> fuel\<rbrakk>
    \<Longrightarrow> \<exists>new. plan_targets fuel snap targets so = Some (Inr (snd so @ new)) \<and> distinct (snd so @ new) \<and>
      dependency_order (gs_edges snap) (snd so @ new) \<and> set targets \<subseteq> set (snd so @ new) \<and>
      (\<forall>x \<in> set new. \<exists>t \<in> set targets. (t, x) \<in> (depends (gs_edges snap))\<^sup>*)"
proof (induction targets arbitrary: so)
  case Nil
  then show ?case by (cases so) (auto simp: plan_inv_def)
next
  case (Cons t ts)
  then obtain so1 where v: "plan_visit fuel snap t so = Some so1"
    using plan_fuel(1) [OF assms(1), of t so fuel] by auto
  have one: "plan_inv (gs_edges snap) {} so1" "t \<in> set (snd so1)" "grows (gs_edges snap) {t} so so1"
    using plan_contract(1) [OF assms(2) Cons.prems(2) _ v] by auto
  have "card (V - set (fst so1)) \<le> card (V - set (fst so))"
    using plan_seen_mono(1) [OF v] assms(1) by (intro card_mono) (auto simp: targets_in_def)
  then obtain new where new: "plan_targets fuel snap ts so1 = Some (Inr (snd so1 @ new))" "distinct (snd so1 @ new)"
    "dependency_order (gs_edges snap) (snd so1 @ new)" "set ts \<subseteq> set (snd so1 @ new)"
    "\<forall>x \<in> set new. \<exists>t \<in> set ts. (t, x) \<in> (depends (gs_edges snap))\<^sup>*"
    using Cons.IH [OF _ one(1)] Cons.prems by auto
  obtain new1 where new1: "snd so1 = snd so @ new1" "\<forall>x \<in> set new1. (t, x) \<in> (depends (gs_edges snap))\<^sup>*"
    using one(3) by (auto simp: grows_def)
  have "sm_contains (gs_nodes snap) t" using Cons.prems(1) assms(3) by simp
  then show ?case
    using new new1 one(2) v by (intro exI [of _ "new1 @ new"]) auto
qed

lemma plan_order_ok:
  assumes "graph_inv g" "acyclic (depends (bg_edges g))" "set targets \<subseteq> set (sm_keys (bg_nodes g))"
  shows "\<exists>order. plan_order g targets = Some (Inr order) \<and> distinct order \<and> dependency_order (bg_edges g) order \<and>
    set order = {n. \<exists>t \<in> set targets. (t, n) \<in> (depends (bg_edges g))\<^sup>*}"
proof -
  let ?V = "set (sm_keys (bg_nodes g))"
  have "targets_in ?V (bg_edges g)" using depends_nodes [OF assms(1)] by (auto simp: targets_in_def)
  moreover have "card (?V - {}) \<le> length (bg_nodes g)" using card_length [of "sm_keys (bg_nodes g)"] by (simp add: sm_keys_def)
  ultimately obtain order where o: "plan_order g targets = Some (Inr order)" "distinct order"
    "dependency_order (bg_edges g) order" "set targets \<subseteq> set order"
    "\<forall>x \<in> set order. \<exists>t \<in> set targets. (t, x) \<in> (depends (bg_edges g))\<^sup>*"
    using plan_targets_ok [of ?V "snapshot g" targets "([], [])" "length (bg_nodes g)"] assms(2,3)
    by (auto simp: plan_order_def snapshot_def Let_def plan_inv_def sm_contains_iff sm_keys_def)
  then have "set order = {n. \<exists>t \<in> set targets. (t, n) \<in> (depends (bg_edges g))\<^sup>*}"
    using dependency_order_closed [OF o(3)] by auto
  then show ?thesis using o by blast
qed

section \<open>Builds\<close>

abbreviation running_event :: "BuildNode \<Rightarrow> BuildEvent" where
  "running_event node \<equiv> build_event evk_running (''running '' @ bn_name node) False 16"

abbreviation succeeded_event :: "BuildNode \<Rightarrow> BuildEvent" where
  "succeeded_event node \<equiv> build_event evk_succeeded (''succeeded '' @ bn_name node) True 16"

abbreviation failed_event :: "string \<Rightarrow> BuildEvent" where
  "failed_event msg \<equiv> build_event evk_failed msg True 16"

text \<open>
  The events of a build without failures, from the plan and the keys alone: a node whose key was
  already built is attached to that job, every other node is reported as running and then as
  succeeded.
\<close>

fun expected_events :: "Nodes \<Rightarrow> string list \<Rightarrow> NodeId list \<Rightarrow> BuildEvent list" where
  "expected_events nodes keys [] = []"
| "expected_events nodes keys (n # ns) =
     (case sm_find nodes n of
        None \<Rightarrow> []
      | Some node \<Rightarrow>
          let key = digest_hex (action_key_for node [] [])
          in if key \<in> set keys then build_event evk_queued ''attached duplicate job'' False 24 # expected_events nodes keys ns
             else running_event node # succeeded_event node # expected_events nodes (key # keys) ns)"

text \<open>The jobs of such a build: the first node of every action key, in the order of the plan.\<close>

fun plan_jobs :: "Nodes \<Rightarrow> string list \<Rightarrow> NodeId list \<Rightarrow> (NodeId \<times> Digest256) list" where
  "plan_jobs nodes keys [] = []"
| "plan_jobs nodes keys (n # ns) =
     (case sm_find nodes n of
        None \<Rightarrow> []
      | Some node \<Rightarrow>
          let key = action_key_for node [] []
          in if digest_hex key \<in> set keys then plan_jobs nodes keys ns
             else (n, key) # plan_jobs nodes (digest_hex key # keys) ns)"

lemma emit_simps [simp]:
  "bv_manager (emit ev v) = bv_manager v" "bv_executor (emit ev v) = bv_executor v" "bv_artifacts (emit ev v) = bv_artifacts v"
  "bv_next_job (emit ev v) = bv_next_job v" "bv_active (emit ev v) = bv_active v"
  "bo_events (bv_outcome (emit ev v)) = bo_events (bv_outcome v) @ [ev]"
  "bo_artifacts (bv_outcome (emit ev v)) = bo_artifacts (bv_outcome v)"
  by (simp_all add: emit_def)

text \<open>The store of a build: no directory, and every artifact of the outcome in memory.\<close>

definition stored_ok :: "'e BuildVars \<Rightarrow> bool" where
  "stored_ok v \<longleftrightarrow> ca_root (bv_artifacts v) = None \<and> cas_inv (bv_artifacts v) \<and>
     list_all (sm_contains (ca_objects (bv_artifacts v))) (bo_artifacts (bv_outcome v))"

lemma publish_in_memory:
  "ca_root s = None \<Longrightarrow> cas_publish fault s w = (s\<lparr>ca_objects := sm_put (key_of w) (writer_finish w) (ca_objects s)\<rparr>, Inr (key_of w))"
  by (simp add: cas_publish_def writer_finish_def key_of_def Let_def)

lemma publish_artifacts_ok:
  "stored_ok v \<Longrightarrow> \<exists>v'. publish_artifacts bss v = Inr v' \<and> stored_ok v' \<and> bv_executor v' = bv_executor v \<and>
    bv_active v' = bv_active v \<and> bo_events (bv_outcome v') = bo_events (bv_outcome v) \<and> bv_manager v' = bv_manager v \<and>
    bo_artifacts (bv_outcome v') = bo_artifacts (bv_outcome v) @ map key_of bss"
proof (induction bss arbitrary: v)
  case (Cons bs bss)
  let ?s = "(bv_artifacts v)\<lparr>ca_objects := sm_put (key_of bs) (writer_finish bs) (ca_objects (bv_artifacts v))\<rparr>"
  let ?v = "v\<lparr>bv_artifacts := ?s, bv_outcome := (bv_outcome v)\<lparr>bo_artifacts := bo_artifacts (bv_outcome v) @ [key_of bs]\<rparr>\<rparr>"
  have root: "ca_root (bv_artifacts v) = None" using Cons.prems by (simp add: stored_ok_def)
  have "cas_inv ?s" using Cons.prems cas_publish_inv [of "bv_artifacts v" no_fault bs] by (simp add: publish_in_memory root stored_ok_def)
  then have "stored_ok ?v" using Cons.prems by (auto simp: stored_ok_def list_all_iff)
  from Cons.IH [OF this] show ?case by (auto simp: publish_in_memory root writer_append_def)
qed simp

lemma run_job_cases:
  assumes "stored_ok v" "em_lease (bv_manager v) (Id (bv_next_job v)) = (m, lease)"
    and "em_run run m (bv_executor v) lease \<lparr>js_job = Id (bv_next_job v), js_node = n, js_node_generation = bn_generation node,
      js_action_key = key, js_declared_inputs = []\<rparr> = (ex, q)"
  obtains (finished) r v' where "q = Inr r" "run_job run node n key v = Inr v'" "stored_ok v'" "bv_executor v' = ex"
      "bv_active v' = sm_put (digest_hex key) (Id (bv_next_job v)) (bv_active v)"
      "bo_events (bv_outcome v') = bo_events (bv_outcome v) @ [running_event node, succeeded_event node]"
      "bo_artifacts (bv_outcome v') = bo_artifacts (bv_outcome v) @ map key_of (wr_artifacts r)"
  | (failed) msg v' where "\<And>r. q = Inr r \<Longrightarrow> validate_current m lease r \<noteq> Inr ()" "run_job run node n key v = Inl v'" "stored_ok v'"
      "bv_executor v' = ex" "bo_events (bv_outcome v') = bo_events (bv_outcome v) @ [running_event node, failed_event msg]"
proof -
  let ?v = "emit (running_event node) (v\<lparr>bv_next_job := bv_next_job v + 1,
    bv_active := sm_put (digest_hex key) (Id (bv_next_job v)) (bv_active v), bv_manager := m\<rparr>)\<lparr>bv_executor := ex\<rparr>"
  have ok: "stored_ok ?v" using assms(1) by (simp add: stored_ok_def emit_def)
  show thesis
  proof (cases q)
    case (Inl e)
    then have "run_job run node n key v = Inl (fail_build e ?v)" using assms(2,3) by (simp add: run_job_def Let_def emit_def)
    then show thesis using ok Inl by (intro failed [of "fail_build e ?v" "message e"]) (simp_all add: stored_ok_def fail_build_def emit_def)
  next
    case (Inr r)
    show thesis
    proof (cases "validate_current m lease r")
      case (Inl e)
      then have "run_job run node n key v = Inl (fail_build e ?v)" using assms(2,3) Inr by (simp add: run_job_def Let_def emit_def)
      then show thesis using ok Inl Inr by (intro failed [of "fail_build e ?v" "message e"]) (simp_all add: stored_ok_def fail_build_def emit_def)
    next
      case valid: (Inr u)
      from publish_artifacts_ok [OF ok, of "wr_artifacts r"] obtain v' where
        v': "publish_artifacts (wr_artifacts r) ?v = Inr v'" "stored_ok v'" "bv_executor v' = bv_executor ?v" "bv_active v' = bv_active ?v"
          "bo_events (bv_outcome v') = bo_events (bv_outcome ?v)"
          "bo_artifacts (bv_outcome v') = bo_artifacts (bv_outcome ?v) @ map key_of (wr_artifacts r)" by auto
      then have "run_job run node n key v = Inr (emit (succeeded_event node) v')"
        using assms(2,3) Inr valid by (simp add: run_job_def Let_def emit_def)
      then show thesis using v' by (intro finished [OF Inr, of "emit (succeeded_event node) v'"]) (simp_all add: stored_ok_def)
    qed
  qed
qed

text \<open>
  An executor that never fails in the states \<open>P\<close> and returns the artifacts \<open>arts\<close> for a node and
  its key, and the two ways a build can go with any executor:
  all the events of the plan, or those up to a job that is reported as running and then as failed.
\<close>

definition reliable :: "'e run_fun \<Rightarrow> ('e \<Rightarrow> bool) \<Rightarrow> (NodeId \<Rightarrow> Digest256 \<Rightarrow> Bytes list) \<Rightarrow> bool" where
  "reliable run P arts \<longleftrightarrow> (\<forall>ex lease spec ex' q. P ex \<and> js_declared_inputs spec = [] \<and> run ex lease spec = (ex', q) \<longrightarrow>
     P ex' \<and> (\<exists>r. q = Inr r \<and> wr_lease r = wl_id lease \<and> wr_attempt r = wl_attempt lease \<and>
       wr_artifacts r = arts (js_node spec) (js_action_key spec)))"

lemma reliableD:
  assumes "reliable run P arts" "P ex" "js_declared_inputs spec = []" "run ex lease spec = (ex', q)"
  shows "P ex' \<and> (\<exists>r. q = Inr r \<and> wr_lease r = wl_id lease \<and> wr_attempt r = wl_attempt lease \<and>
    wr_artifacts r = arts (js_node spec) (js_action_key spec))"
  using assms unfolding reliable_def by blast

definition job_artifacts :: "(NodeId \<Rightarrow> Digest256 \<Rightarrow> Bytes list) \<Rightarrow> (NodeId \<times> Digest256) list \<Rightarrow> ArtifactKey list" where
  "job_artifacts arts jobs = concat (map (\<lambda>(n, key). map key_of (arts n key)) jobs)"

definition stopped_events :: "BuildEvent list \<Rightarrow> BuildEvent list \<Rightarrow> bool" where
  "stopped_events expected events \<longleftrightarrow> (\<exists>before node after msg.
     expected = before @ running_event node # after \<and> events = before @ [running_event node, failed_event msg])"

lemma stopped_events_append: "stopped_events expected events \<Longrightarrow> stopped_events (es @ expected) (es @ events)"
  unfolding stopped_events_def by (metis append.assoc)

lemma build_nodes_cases:
  assumes "\<forall>n \<in> set order. sm_contains nodes n" "stored_ok v" "set keys = fst ` set (bv_active v)"
  shows "\<exists>v' events. build_nodes run nodes order v = (v', Inr ()) \<and> stored_ok v' \<and>
    bo_events (bv_outcome v') = bo_events (bv_outcome v) @ events \<and>
    (events = expected_events nodes keys order \<or> stopped_events (expected_events nodes keys order) events) \<and>
    (reliable run P arts \<and> P (bv_executor v) \<longrightarrow> P (bv_executor v') \<and> events = expected_events nodes keys order \<and>
      bo_artifacts (bv_outcome v') = bo_artifacts (bv_outcome v) @ job_artifacts arts (plan_jobs nodes keys order))"
  using assms
proof (induction order arbitrary: v keys)
  case (Cons n order)
  then obtain node where node: "sm_find nodes n = Some node" by (auto simp: sm_contains_def)
  let ?key = "action_key_for node [] []"
  show ?case
  proof (cases "sm_find (bv_active v) (digest_hex ?key)")
    case (Some job)
    let ?q = "build_event evk_queued ''attached duplicate job'' False 24"
    have "digest_hex ?key \<in> set keys" using Some Cons.prems(3) sm_find_mem [OF Some] by force
    then have ex: "expected_events nodes keys (n # order) = [?q] @ expected_events nodes keys order"
      "plan_jobs nodes keys (n # order) = plan_jobs nodes keys order" by (simp_all add: node Let_def)
    have "stored_ok (emit ?q v)" using Cons.prems(2) by (simp add: stored_ok_def)
    from Cons.IH [OF _ this, of keys] Cons.prems show ?thesis
      unfolding ex by (auto simp: node Some Let_def dest: stopped_events_append [of _ _ "[?q]"])
  next
    case None
    then have "digest_hex ?key \<notin> set keys" using Cons.prems(3) by (simp add: sm_find_None_iff)
    then have ex: "expected_events nodes keys (n # order) =
        [running_event node, succeeded_event node] @ expected_events nodes (digest_hex ?key # keys) order"
      "plan_jobs nodes keys (n # order) = (n, ?key) # plan_jobs nodes (digest_hex ?key # keys) order" by (simp_all add: node Let_def)
    obtain m lease where l: "em_lease (bv_manager v) (Id (bv_next_job v)) = (m, lease)" by fastforce
    obtain e q where q: "em_run run m (bv_executor v) lease \<lparr>js_job = Id (bv_next_job v), js_node = n,
      js_node_generation = bn_generation node, js_action_key = ?key, js_declared_inputs = []\<rparr> = (e, q)" by fastforce
    have P: "P e \<and> (\<exists>r. q = Inr r \<and> validate_current m lease r = Inr () \<and> wr_artifacts r = arts n ?key)"
      if "reliable run P arts" "P (bv_executor v)"
    proof -
      have "run (bv_executor v) lease \<lparr>js_job = Id (bv_next_job v), js_node = n, js_node_generation = bn_generation node,
          js_action_key = ?key, js_declared_inputs = []\<rparr> = (e, q)"
        using q lease_valid [OF l, of "empty_result lease"] by (simp add: em_run_def empty_result_def)
      from reliableD [OF that _ this] show ?thesis using lease_valid [OF l] by auto
    qed
    from Cons.prems(2) l q show ?thesis
    proof (cases rule: run_job_cases)
      case (finished r v1)
      have "set (digest_hex ?key # keys) = fst ` set (bv_active v1)"
        using set_sm_put [of "digest_hex ?key" "Id (bv_next_job v)" "bv_active v"] Cons.prems(3) by (simp add: finished(5))
      from Cons.IH [OF _ finished(3) this] Cons.prems(1) P finished(1,4) show ?thesis
        unfolding ex by (auto simp: node None Let_def finished(2,6,7) job_artifacts_def dest: stopped_events_append [of _ _ "[running_event node, succeeded_event node]"])
    next
      case (failed msg v1)
      have "stopped_events (expected_events nodes keys (n # order)) [running_event node, failed_event msg]"
        unfolding ex stopped_events_def by (intro exI [of _ "[]"]) auto
      then show ?thesis using failed P by (auto simp: node None Let_def)
    qed
  qed
qed (simp add: job_artifacts_def)

lemma plan_targets_unknown:
  assumes "targets_in V (gs_edges snap)" "\<And>n. sm_contains (gs_nodes snap) n \<longleftrightarrow> n \<in> V"
  shows "\<lbrakk>\<exists>t \<in> set targets. t \<notin> V; card (V - set (fst so)) \<le> fuel\<rbrakk>
    \<Longrightarrow> plan_targets fuel snap targets so = Some (Inl (workspace_error ec_graph_conflict ''unknown target''))"
proof (induction targets arbitrary: so)
  case (Cons t ts)
  show ?case
  proof (cases "t \<in> V")
    case True
    then obtain so1 where v: "plan_visit fuel snap t so = Some so1"
      using plan_fuel(1) [OF assms(1) True Cons.prems(2)] by blast
    have "card (V - set (fst so1)) \<le> card (V - set (fst so))"
      using plan_seen_mono(1) [OF v] assms(1) by (intro card_mono) (auto simp: targets_in_def)
    then show ?thesis using Cons True v assms(2) by auto
  qed (simp add: assms(2))
qed simp

section \<open>Whole builds\<close>

lemma build_cyclic:
  assumes "graph_inv (ws_graph ws)" "\<not> acyclic (depends (bg_edges (ws_graph ws)))"
  shows "build run ws ex targets = Some (ws, ex, Inl (workspace_error ec_cycle ''graph contains prohibited cycle''))"
  using cycle_witness_cases [OF assms(1)] assms(2) by (auto simp: build_def)

lemma build_unknown:
  assumes "graph_inv (ws_graph ws)" "acyclic (depends (bg_edges (ws_graph ws)))"
    and "\<not> set targets \<subseteq> set (sm_keys (bg_nodes (ws_graph ws)))"
  shows "build run ws ex targets = Some (ws, ex, Inl (workspace_error ec_graph_conflict ''unknown target''))"
proof -
  let ?g = "ws_graph ws" let ?V = "set (sm_keys (bg_nodes ?g))"
  have "targets_in ?V (bg_edges ?g)" using depends_nodes [OF assms(1)] by (auto simp: targets_in_def)
  moreover have "card (?V - {}) \<le> length (bg_nodes ?g)" using card_length [of "sm_keys (bg_nodes ?g)"] by (simp add: sm_keys_def)
  ultimately have "plan_order ?g targets = Some (Inl (workspace_error ec_graph_conflict ''unknown target''))"
    using plan_targets_unknown [of ?V "snapshot ?g" targets "([], [])" "length (bg_nodes ?g)"] assms(3)
    by (auto simp: plan_order_def snapshot_def Let_def sm_contains_iff sm_keys_def)
  then show ?thesis
    using cycle_witness_cases [OF assms(1)] cycle_of_cyclic assms(2) by (auto simp: build_def)
qed

text \<open>What a build needs of the workspace: a well-formed graph, a free event stream and a sound store in memory.\<close>

definition build_ready :: "WorkspaceCore \<Rightarrow> bool" where
  "build_ready ws \<longleftrightarrow> graph_inv (ws_graph ws) \<and> (ucast (ws_next_request ws) :: u32) \<noteq> 0 \<and>
     \<not> sm_contains (ws_event_hub ws) (ucast (ws_next_request ws)) \<and> cas_inv (ws_artifacts ws) \<and> ca_root (ws_artifacts ws) = None"

definition readable :: "ArtifactStore \<Rightarrow> ArtifactKey list \<Rightarrow> bool" where
  "readable s keys \<longleftrightarrow> list_all (\<lambda>k. \<exists>bs. cas_read s k = Inr bs \<and> key_of bs = k) keys"

text \<open>What a build changes in the workspace: the store, the counters, and one new event stream.\<close>

definition built :: "WorkspaceCore \<Rightarrow> WorkspaceCore \<Rightarrow> bool" where
  "built ws ws' \<longleftrightarrow> (\<exists>s j. ws' = ws\<lparr>ws_next_request := ws_next_request ws + 1,
     ws_event_hub := fst (hub_open_stream (ws_event_hub ws) (ucast (ws_next_request ws)) (1024 * 1024)), ws_artifacts := s, ws_next_job := j\<rparr> \<and> cas_inv s \<and> ca_root s = None)"

lemma build_runs:
  assumes ready: "build_ready ws" and "acyclic (depends (bg_edges (ws_graph ws)))"
    and "set targets \<subseteq> set (sm_keys (bg_nodes (ws_graph ws)))"
  shows "\<exists>ws' ex' outcome order. build run ws ex targets = Some (ws', ex', Inr outcome) \<and>
    plan_order (ws_graph ws) targets = Some (Inr order) \<and> built ws ws' \<and> readable (ws_artifacts ws') (bo_artifacts outcome) \<and>
    (bo_events outcome = expected_events (bg_nodes (ws_graph ws)) [] order \<or>
     stopped_events (expected_events (bg_nodes (ws_graph ws)) [] order) (bo_events outcome)) \<and>
    (reliable run P arts \<and> P ex \<longrightarrow> P ex' \<and> bo_events outcome = expected_events (bg_nodes (ws_graph ws)) [] order \<and>
      bo_artifacts outcome = job_artifacts arts (plan_jobs (bg_nodes (ws_graph ws)) [] order))"
proof -
  let ?g = "ws_graph ws"
  have inv: "graph_inv ?g" using ready by (simp add: build_ready_def)
  obtain order where order: "plan_order ?g targets = Some (Inr order)"
    "set order = {n. \<exists>t \<in> set targets. (t, n) \<in> (depends (bg_edges ?g))\<^sup>*}" using plan_order_ok [OF inv assms(2,3)] by auto
  have "n \<in> set (sm_keys (bg_nodes ?g))" if "n \<in> set order" for n
    using that assms(3) depends_nodes [OF inv] unfolding order(2) by (auto elim: rtranclE)
  then have known: "\<forall>n \<in> set order. sm_contains (bg_nodes ?g) n" by (simp add: sm_contains_iff sm_keys_def)
  let ?v = "\<lparr>bv_manager = new_manager, bv_executor = ex, bv_artifacts = ws_artifacts ws, bv_next_job = ws_next_job ws, bv_active = [],
    bv_outcome = \<lparr>bo_request = Id (ws_next_request ws), bo_events = [], bo_artifacts = []\<rparr>\<rparr>"
  have "stored_ok ?v" using ready by (simp add: stored_ok_def build_ready_def)
  from build_nodes_cases [OF known this, of "[]" run P arts] obtain v' where
    v': "build_nodes run (bg_nodes ?g) order ?v = (v', Inr ())" "stored_ok v'"
      "bo_events (bv_outcome v') = expected_events (bg_nodes ?g) [] order \<or>
       stopped_events (expected_events (bg_nodes ?g) [] order) (bo_events (bv_outcome v'))"
      "reliable run P arts \<and> P ex \<longrightarrow> P (bv_executor v') \<and> bo_events (bv_outcome v') = expected_events (bg_nodes ?g) [] order \<and>
        bo_artifacts (bv_outcome v') = job_artifacts arts (plan_jobs (bg_nodes ?g) [] order)"
    by auto
  have "readable (bv_artifacts v') (bo_artifacts (bv_outcome v'))"
    using v'(2) by (auto simp: readable_def stored_ok_def list_all_iff sm_contains_def cas_inv_def object_ok_def cas_read_def cas_read_with_def)
  moreover let ?ws' = "ws\<lparr>ws_next_request := ws_next_request ws + 1,
    ws_event_hub := fst (hub_open_stream (ws_event_hub ws) (ucast (ws_next_request ws)) (1024 * 1024)),
    ws_artifacts := bv_artifacts v', ws_next_job := bv_next_job v'\<rparr>"
  have "cycle_witness ?g = Some None" using cycle_witness_cases [OF inv] cycle_of_cyclic assms(2) by auto
  then have "build run ws ex targets = Some (?ws', bv_executor v', Inr (bv_outcome v'))"
    using order(1) v'(1) ready by (simp add: build_def build_ready_def hub_open_stream_def Let_def)
  moreover have "built ws ?ws'" unfolding built_def using v'(2) stored_ok_def by blast
  ultimately show ?thesis
    using order(1) v'(3,4) by (intro exI [of _ ?ws'] exI [of _ "bv_executor v'"] exI [of _ "bv_outcome v'"] exI [of _ order]) simp
qed

definition mock_bytes :: "Digest256 \<Rightarrow> Bytes" where
  "mock_bytes key = map char_byte (digest_hex key) @ [0]"

definition mock_artifacts :: "MockExecutor \<Rightarrow> NodeId \<Rightarrow> Digest256 \<Rightarrow> Bytes list" where
  "mock_artifacts ex n key = (if sm_contains (mx_failures ex) (id_value n) then [] else [mock_bytes key])"

lemma reliable_mock: "mx_cancelled ex = [] \<Longrightarrow> reliable mock_run ((=) ex) (mock_artifacts ex)"
  by (auto simp: reliable_def mock_run_def empty_result_def mock_artifacts_def mock_bytes_def mock_payload_def sm_contains_def
      split: option.splits)

lemma build_mock_runs:
  assumes "build_ready ws" "acyclic (depends (bg_edges (ws_graph ws)))"
    and "set targets \<subseteq> set (sm_keys (bg_nodes (ws_graph ws)))" "mx_cancelled ex = []"
  shows "\<exists>ws' outcome order. build mock_run ws ex targets = Some (ws', ex, Inr outcome) \<and>
    plan_order (ws_graph ws) targets = Some (Inr order) \<and> bo_events outcome = expected_events (bg_nodes (ws_graph ws)) [] order \<and>
    bo_artifacts outcome = job_artifacts (mock_artifacts ex) (plan_jobs (bg_nodes (ws_graph ws)) [] order) \<and>
    readable (ws_artifacts ws') (bo_artifacts outcome)"
  using build_runs [OF assms(1-3), of mock_run ex "(=) ex" "mock_artifacts ex"] reliable_mock [OF assms(4)] by auto

lemma new_workspace_ready: "graph_inv g \<Longrightarrow> build_ready ((new_workspace relative)\<lparr>ws_graph := g\<rparr>)"
  by (simp add: build_ready_def new_workspace_def new_store_inv sm_contains_def) (simp add: new_store_def)

section \<open>Properties\<close>

text \<open>
  C5. The plan of a build is a dependency order: on an acyclic graph planning returns an order
  without duplicates that holds exactly the targets and everything they depend on, every node
  behind all of its dependencies.
\<close>

theorem plan_order_dependency_order:
  assumes "graph_inv g" "acyclic (depends (bg_edges g))" "set targets \<subseteq> set (sm_keys (bg_nodes g))"
  shows "\<exists>order. plan_order g targets = Some (Inr order) \<and> distinct order \<and>
    set order = {n. \<exists>t. t \<in> set targets \<and> (t, n) \<in> (depends (bg_edges g))\<^sup>*} \<and>
    (\<forall>before n after m. order = before @ n # after \<and> (n, m) \<in> depends (bg_edges g) \<longrightarrow> m \<in> set before)"
  using plan_order_ok [OF assms] by (auto simp: dependency_order_def)

lemma demo_graph_acyclic: "acyclic (depends (bg_edges demo_graph))"
proof -
  have "cycle_witness demo_graph = Some None" by code_simp
  then show ?thesis using cycle_witness_cases [OF demo_graph_inv] by auto
qed

lemma demo_graph_keys: "sm_keys (bg_nodes demo_graph) = [Id 1, Id 2, Id 3]"
  by code_simp

theorem plan_order_dependency_order_witness:
  "plan_order demo_graph [Id 1] = Some (Inr [Id 3, Id 2, Id 1]) \<and>
   set [Id 3, Id 2, Id 1] = {n. \<exists>t. t \<in> set [Id 1] \<and> (t, n) \<in> (depends (bg_edges demo_graph))\<^sup>*}"
proof -
  have p: "plan_order demo_graph [Id 1] = Some (Inr [Id 3, Id 2, Id 1])" by code_simp
  show ?thesis
    using plan_order_dependency_order [OF demo_graph_inv demo_graph_acyclic, of "[Id 1]"] by (auto simp: p demo_graph_keys)
qed

definition demo_workspace :: "BuildGraph \<Rightarrow> WorkspaceCore" where
  "demo_workspace g = (new_workspace (\<lambda>p. p))\<lparr>ws_graph := g\<rparr>"

lemma cyclic_graph_inv: "graph_inv cyclic_graph"
proof -
  have "bg_next_edge demo_graph \<noteq> - 1" by code_simp
  then show ?thesis unfolding cyclic_graph_def by (intro put_edge_inv demo_graph_inv)
qed

lemma demo_workspace_ready: "build_ready (demo_workspace demo_graph)" "build_ready (demo_workspace cyclic_graph)"
  unfolding demo_workspace_def by (rule new_workspace_ready, fact demo_graph_inv cyclic_graph_inv)+

text \<open>
  C13. A build with any executor, whatever it returns: a cyclic graph and an unknown target are
  refused, with the error that says so and without any change; otherwise the build returns an
  outcome. Its events are those that follow from the plan and the action keys, one job per key, or
  these up to a job that is reported as running and then, as the last event, as failed. Every
  artifact of the outcome can be read from the store under its key.
\<close>

theorem build_outcome:
  assumes "build_ready ws"
  shows "if \<not> acyclic (depends (bg_edges (ws_graph ws)))
    then build run ws ex targets = Some (ws, ex, Inl (error ec_cycle ''workspace'' ''graph contains prohibited cycle''))
    else if \<not> set targets \<subseteq> set (sm_keys (bg_nodes (ws_graph ws)))
    then build run ws ex targets = Some (ws, ex, Inl (error ec_graph_conflict ''workspace'' ''unknown target''))
    else \<exists>ws' ex' outcome order expected. build run ws ex targets = Some (ws', ex', Inr outcome) \<and>
      plan_order (ws_graph ws) targets = Some (Inr order) \<and> expected = expected_events (bg_nodes (ws_graph ws)) [] order \<and>
      (bo_events outcome = expected \<or> (\<exists>before node after msg. expected = before @ running_event node # after \<and>
        bo_events outcome = before @ [running_event node, failed_event msg])) \<and>
      readable (ws_artifacts ws') (bo_artifacts outcome)"
proof -
  have inv: "graph_inv (ws_graph ws)" using assms by (simp add: build_ready_def)
  show ?thesis
  proof (cases "acyclic (depends (bg_edges (ws_graph ws))) \<and> set targets \<subseteq> set (sm_keys (bg_nodes (ws_graph ws)))")
    case True
    then obtain ws' ex' outcome order where
      "build run ws ex targets = Some (ws', ex', Inr outcome)" "plan_order (ws_graph ws) targets = Some (Inr order)"
      "readable (ws_artifacts ws') (bo_artifacts outcome)"
      "bo_events outcome = expected_events (bg_nodes (ws_graph ws)) [] order \<or>
       stopped_events (expected_events (bg_nodes (ws_graph ws)) [] order) (bo_events outcome)"
      using build_runs [OF assms, of targets run ex "\<lambda>_. False"] by blast
    then show ?thesis using True unfolding stopped_events_def by (simp only: not_True_eq_False if_False) blast
  next
    case False
    then show ?thesis using build_cyclic [OF inv, of run ex targets] build_unknown [OF inv, of targets run ex] by (auto simp: workspace_error_def)
  qed
qed

theorem build_outcome_witness:
  "build mock_run (demo_workspace cyclic_graph) new_mock [Id 1] =
     Some (demo_workspace cyclic_graph, new_mock, Inl (error ec_cycle ''workspace'' ''graph contains prohibited cycle''))"
proof -
  have "map_option (\<lambda>w. w \<noteq> None) (cycle_witness cyclic_graph) = Some True" by code_simp
  then have "\<not> acyclic (depends (bg_edges (ws_graph (demo_workspace cyclic_graph))))"
    using cycle_witness_cases [OF cyclic_graph_inv] cycle_of_cyclic by (auto simp: demo_workspace_def)
  then show ?thesis using build_outcome [OF demo_workspace_ready(2), of mock_run new_mock "[Id 1]"] by simp
qed

text \<open>
  C14. Builds with the mock executor are complete and reproducible: on an acyclic graph with known
  targets, with no failure configured and no lease cancelled in the executor, the build runs to the
  end. It reports the events that follow from the plan and the action keys alone, one job per key,
  and its artifacts are determined by them too: one for every job in the order of the plan, the
  hexadecimal key and a zero byte. Every artifact can be read from the store under its key.
\<close>

theorem build_mock_outcome:
  assumes "build_ready ws" "acyclic (depends (bg_edges (ws_graph ws)))"
    and "set targets \<subseteq> set (sm_keys (bg_nodes (ws_graph ws)))" "mx_cancelled ex = []" "mx_failures ex = []"
  shows "\<exists>ws' outcome order. build mock_run ws ex targets = Some (ws', ex, Inr outcome) \<and>
    plan_order (ws_graph ws) targets = Some (Inr order) \<and> bo_events outcome = expected_events (bg_nodes (ws_graph ws)) [] order \<and>
    bo_artifacts outcome = map (\<lambda>(n, key). key_of (mock_bytes key)) (plan_jobs (bg_nodes (ws_graph ws)) [] order) \<and>
    readable (ws_artifacts ws') (bo_artifacts outcome)"
proof -
  have one: "mock_artifacts ex n key = [mock_bytes key]" for n key using assms(5) by (simp add: mock_artifacts_def sm_contains_def)
  have "job_artifacts (mock_artifacts ex) jobs = map (\<lambda>(n, key). key_of (mock_bytes key)) jobs" for jobs
    by (induction jobs) (auto simp: job_artifacts_def one)
  then show ?thesis using build_mock_runs [OF assms(1-4)] by simp
qed

lemma demo_plan:
  "plan_order demo_graph [Id 1] = Some (Inr [Id 3, Id 2, Id 1])"
  "map fst (plan_jobs (bg_nodes demo_graph) [] [Id 3, Id 2, Id 1]) = [Id 3, Id 2, Id 1]"
  by code_simp+

theorem build_mock_outcome_witness:
  "\<exists>ws' outcome. build mock_run (demo_workspace demo_graph) new_mock [Id 1] = Some (ws', new_mock, Inr outcome) \<and>
    length (bo_artifacts outcome) = 3 \<and> readable (ws_artifacts ws') (bo_artifacts outcome)"
proof -
  have g: "ws_graph (demo_workspace demo_graph) = demo_graph" by (simp add: demo_workspace_def)
  have "length (plan_jobs (bg_nodes demo_graph) [] [Id 3, Id 2, Id 1]) = 3"
    using arg_cong [where f = length, OF demo_plan(2)] by simp
  then show ?thesis
    using build_mock_outcome [OF demo_workspace_ready(1), of "[Id 1]" new_mock] unfolding g
    by (auto simp: demo_graph_acyclic demo_graph_keys new_mock_def demo_plan(1))
qed

text \<open>
  A job that the executor reports as failed is reported as succeeded by the build: the failures
  configured in the mock executor do not show in the events.
\<close>

lemma failed_job_reported_succeeded:
  assumes "build_ready ws" "acyclic (depends (bg_edges (ws_graph ws)))"
    and "set targets \<subseteq> set (sm_keys (bg_nodes (ws_graph ws)))" "mx_cancelled ex = []"
  shows "\<exists>ws' outcome order. build mock_run ws (mock_set_failure ex n msg) targets = Some (ws', mock_set_failure ex n msg, Inr outcome) \<and>
    plan_order (ws_graph ws) targets = Some (Inr order) \<and> bo_events outcome = expected_events (bg_nodes (ws_graph ws)) [] order"
  using build_mock_runs [OF assms(1-3), of "mock_set_failure ex n msg"] assms(4) by (auto simp: mock_set_failure_def)

text \<open>
  C35. A file event on an accepted path always completes: it stores the fingerprint of the current
  content of the file, or of a missing file, leaves nothing pending for the path and advances the
  clock by five. The epoch of the fingerprint is 1 for a new path and otherwise one more than before,
  also when the content is the same as at the last event, and the stored size is 0 for every file.
\<close>

theorem file_event_records_fingerprint:
  assumes "normalize_path (ws_path_policy ws) path = Inr p" "file_event ws path kind = (ws', r)"
  shows "r = Inr () \<and> ws_clock ws' = ws_clock ws + 5 \<and> sm_find (fc_pending (ws_coalescer ws')) p = None \<and>
    fc_current (ws_coalescer ws') p = Some \<lparr>if_path = p,
      if_digest = (case sm_find (ws_fs ws) p of None \<Rightarrow> digest_bytes ''missing-input'' [] | Some bs \<Rightarrow> digest_bytes ''input'' bs),
      if_size = 0,
      if_epoch = (case fc_current (ws_coalescer ws) p of None \<Rightarrow> Generation 1 | Some old \<Rightarrow> gen_next (if_epoch old))\<rparr>"
  using assms
  by (auto simp: file_event_def fc_push_def fc_complete_def Let_def clock_advance_def fingerprint_path_def vfs_read_def
      fc_current_def gen_default_def split: option.splits)

theorem file_event_records_fingerprint_witness:
  "let ws = (demo_workspace demo_graph)\<lparr>ws_fs := [(''a.c'', [1, 2])]\<rparr>
   in map_option if_digest (fc_current (ws_coalescer (fst (file_event ws ''./a.c'' fek_modify))) ''a.c'') =
      Some (digest_bytes ''input'' [1, 2])"
proof -
  let ?ws = "(demo_workspace demo_graph)\<lparr>ws_fs := [(''a.c'', [1, 2])]\<rparr>"
  have "normalize_path (ws_path_policy ?ws) ''./a.c'' = Inr ''a.c''" by code_simp
  from file_event_records_fingerprint [OF this prod.collapse [symmetric], of fek_modify]
  show ?thesis by (simp add: Let_def)
qed

end
