(* ===== verification/Forge_Manifest.thy ===== *)
theory Forge_Manifest
  imports Forge_Workspace
begin

text \<open>
  The graph manifest of \<^verbatim>\<open>include/forge/manifest.hpp\<close> and its parser in \<^verbatim>\<open>src/workspace/manifest.cpp\<close>.
  The input stream is its text; a line being taken apart by \<open>std::istringstream\<close> is the text not read yet. The
  printer, which the program does not have, is the specification the parser is compared with.
\<close>

section \<open>Definitions\<close>

record ManifestNode =
  mn_name :: string
  mn_action :: ActionSpec

record ManifestEdge =
  me_from :: string
  me_to :: string
  me_kind :: EdgeKind

record GraphManifest =
  gm_nodes :: "ManifestNode list"
  gm_edges :: "ManifestEdge list"
  gm_targets :: "string list"

subsection \<open>Streams\<close>

text \<open>\<open>std::getline\<close> until the end: a final line counts without its line feed, an empty one does not.\<close>

abbreviation newline :: char where "newline \<equiv> CHR 0x0A"

fun get_lines :: "string \<Rightarrow> string list" where
  "get_lines [] = []"
| "get_lines (c # cs) =
     (if c = newline then [] # get_lines cs
      else case get_lines cs of [] \<Rightarrow> [[c]] | l # ls \<Rightarrow> (c # l) # ls)"

text \<open>The whitespace of the classic locale, at which the extraction of a string stops.\<close>

definition isspace :: "char \<Rightarrow> bool" where
  "isspace c \<longleftrightarrow> c = CHR '' '' \<or> c \<in> {CHR 0x09, CHR 0x0A, CHR 0x0B, CHR 0x0C, CHR 0x0D}"

text \<open>\<open>parts >> word\<close>: the word is empty exactly when the extraction fails.\<close>

definition extract_word :: "string \<Rightarrow> string \<times> string" where
  "extract_word parts = (let rest = dropWhile isspace parts
                    in (takeWhile (\<lambda>c. \<not> isspace c) rest, dropWhile (\<lambda>c. \<not> isspace c) rest))"

subsection \<open>Parser\<close>

definition manifest_error :: "ErrorCode \<Rightarrow> string \<Rightarrow> Status" where
  "manifest_error c msg = error c ''manifest'' msg"

definition at_line :: "nat \<Rightarrow> Status \<Rightarrow> Status" where
  "at_line n status = status\<lparr>offset := n\<rparr>"

fun pop_trailing :: "string \<Rightarrow> string" where
  "pop_trailing line =
     (if line \<noteq> [] \<and> (last line = CHR '' '' \<or> last line = CHR 0x09 \<or> last line = CHR 0x0D)
      then pop_trailing (butlast line) else line)"

declare pop_trailing.simps [simp del]

definition trim_comment :: "string \<Rightarrow> string" where
  "trim_comment line =
     (let line = takeWhile (\<lambda>c. c \<noteq> CHR ''#'') line;
          line = pop_trailing line
      in dropWhile (\<lambda>c. c = CHR '' '' \<or> c = CHR 0x09) line)"

definition parse_option :: "string \<Rightarrow> (string \<times> string) Result" where
  "parse_option token =
     (let equals = length (takeWhile (\<lambda>c. c \<noteq> CHR ''='') token)
      in if CHR ''='' \<notin> set token \<or> equals = 0 \<or> equals + 1 \<ge> length token
         then Inl (manifest_error ec_format ''node option must be key=value'')
         else Inr (take equals token, drop (equals + 1) token))"

definition parse_edge_kind :: "string \<Rightarrow> EdgeKind Result" where
  "parse_edge_kind text =
     (if text = ''declared'' then Inr ek_declared
      else if text = ''discovered'' then Inr ek_discovered
      else Inl (manifest_error ec_format ''edge kind must be declared or discovered''))"

lemma extract_word_shorter: "extract_word parts = (w, rest) \<Longrightarrow> w \<noteq> [] \<Longrightarrow> length rest < length parts"
proof -
  assume "extract_word parts = (w, rest)" "w \<noteq> []"
  then have "w @ rest = dropWhile isspace parts" by (auto simp: extract_word_def Let_def)
  then have "length w + length rest \<le> length parts" by (metis length_append length_dropWhile_le)
  then show ?thesis using \<open>w \<noteq> []\<close> by (cases w) auto
qed

text \<open>The options of a node; \<open>emplace\<close> keeps the first of two equal keys and reports the second.\<close>

function parse_options :: "nat \<Rightarrow> string \<Rightarrow> (string, string) std_map \<Rightarrow> (string, string) std_map Result" where
  "parse_options n parts options =
     (case extract_word parts of
        (option, rest) \<Rightarrow>
          if option = [] then Inr options
          else
            case parse_option option of
              Inl e \<Rightarrow> Inl (at_line n e)
            | Inr (key, value) \<Rightarrow>
                if sm_contains options key then Inl (at_line n (manifest_error ec_format ''duplicate node option''))
                else parse_options n rest (sm_put key value options))"
  by pat_completeness auto
termination
  by (relation "measure (\<lambda>(_, parts, _). length parts)") (auto dest: extract_word_shorter [OF sym])

declare parse_options.simps [simp del]

record ParseVars =
  pv_manifest :: GraphManifest
  pv_node_names :: "string list"

definition parse_node :: "nat \<Rightarrow> string \<Rightarrow> ParseVars \<Rightarrow> ParseVars Result" where
  "parse_node n parts v =
     (case extract_word parts of (name, parts) \<Rightarrow>
      case extract_word parts of (command, parts) \<Rightarrow>
        if name = [] \<or> command = [] then Inl (at_line n (manifest_error ec_format ''node requires name and command''))
        else if name \<in> set (pv_node_names v) then Inl (at_line n (manifest_error ec_graph_conflict ''duplicate node name''))
        else
          case parse_options n parts [] of
            Inl e \<Rightarrow> Inl e
          | Inr options \<Rightarrow>
              let m = pv_manifest v; node = \<lparr>mn_name = name, mn_action = \<lparr>as_command = command, as_options = options\<rparr>\<rparr>
              in Inr (v\<lparr>pv_node_names := ss_insert name (pv_node_names v),
                        pv_manifest := m\<lparr>gm_nodes := gm_nodes m @ [node]\<rparr>\<rparr>))"

definition parse_edge :: "nat \<Rightarrow> string \<Rightarrow> ParseVars \<Rightarrow> ParseVars Result" where
  "parse_edge n parts v =
     (case extract_word parts of (from', parts) \<Rightarrow>
      case extract_word parts of (to', parts) \<Rightarrow>
      case extract_word parts of (kind, _) \<Rightarrow>
        let kind_text = (if kind = [] then ''declared'' else kind)
        in if from' = [] \<or> to' = [] then Inl (at_line n (manifest_error ec_format ''edge requires from and to''))
           else
             case parse_edge_kind kind_text of
               Inl e \<Rightarrow> Inl (at_line n e)
             | Inr k \<Rightarrow>
                 let m = pv_manifest v
                 in Inr (v\<lparr>pv_manifest := m\<lparr>gm_edges := gm_edges m @ [\<lparr>me_from = from', me_to = to', me_kind = k\<rparr>]\<rparr>\<rparr>))"

definition parse_target :: "nat \<Rightarrow> string \<Rightarrow> ParseVars \<Rightarrow> ParseVars Result" where
  "parse_target n parts v =
     (case extract_word parts of (name, _) \<Rightarrow>
        if name = [] then Inl (at_line n (manifest_error ec_format ''target requires node name''))
        else let m = pv_manifest v in Inr (v\<lparr>pv_manifest := m\<lparr>gm_targets := gm_targets m @ [name]\<rparr>\<rparr>))"

definition parse_line :: "nat \<Rightarrow> string \<Rightarrow> ParseVars \<Rightarrow> ParseVars Result" where
  "parse_line n line v =
     (let line = trim_comment line
      in if line = [] then Inr v
         else
           case extract_word line of
             (record', parts) \<Rightarrow>
               if record' = ''node'' then parse_node n parts v
               else if record' = ''edge'' then parse_edge n parts v
               else if record' = ''target'' then parse_target n parts v
               else Inl (at_line n (manifest_error ec_format ''unknown manifest record'')))"

fun parse_lines :: "nat \<Rightarrow> string list \<Rightarrow> ParseVars \<Rightarrow> ParseVars Result" where
  "parse_lines n [] v = Inr v"
| "parse_lines n (line # lines) v =
     (case parse_line (n + 1) line v of Inl e \<Rightarrow> Inl e | Inr v' \<Rightarrow> parse_lines (n + 1) lines v')"

definition empty_vars :: ParseVars where
  "empty_vars = \<lparr>pv_manifest = \<lparr>gm_nodes = [], gm_edges = [], gm_targets = []\<rparr>, pv_node_names = []\<rparr>"

definition parse_manifest :: "string \<Rightarrow> GraphManifest Result" where
  "parse_manifest input =
     (case parse_lines 0 (get_lines input) empty_vars of
        Inl e \<Rightarrow> Inl e
      | Inr v \<Rightarrow>
          if gm_nodes (pv_manifest v) = [] then Inl (manifest_error ec_format ''manifest contains no nodes'')
          else Inr (pv_manifest v))"


section \<open>Words of a line\<close>

function words :: "string \<Rightarrow> string list" where
  "words parts = (case extract_word parts of (w, rest) \<Rightarrow> if w = [] then [] else w # words rest)"
  by pat_completeness auto
termination
  by (relation "measure length") (auto dest: extract_word_shorter [OF sym])

declare words.simps [simp del]

definition word_ok :: "string \<Rightarrow> bool" where
  "word_ok w \<longleftrightarrow> w \<noteq> [] \<and> list_all (\<lambda>c. \<not> isspace c) w"

lemma words_eq: "extract_word parts = (w, rest) \<Longrightarrow> words parts = (if w = [] then [] else w # words rest)"
  by (simp add: words.simps [of parts])

lemma words_Nil [simp]: "words [] = []"
  by (simp add: words_eq [of _ "[]" "[]"] extract_word_def)

lemma extract_word_none: "extract_word parts = ([], rest) \<Longrightarrow> rest = []"
  by (cases "dropWhile isspace parts") (auto simp: extract_word_def Let_def dropWhile_eq_Cons_conv split: if_splits)

text \<open>What an extraction returns and leaves, in terms of the words of the line.\<close>

lemma extract_words:
  "fst (extract_word parts) = (case words parts of [] \<Rightarrow> [] | w # _ \<Rightarrow> w)"
  "words (snd (extract_word parts)) = tl (words parts)"
proof -
  obtain w rest where e: "extract_word parts = (w, rest)" by fastforce
  show "fst (extract_word parts) = (case words parts of [] \<Rightarrow> [] | w # _ \<Rightarrow> w)"
    unfolding words_eq [OF e] using e by simp
  show "words (snd (extract_word parts)) = tl (words parts)"
    unfolding words_eq [OF e] using e extract_word_none [of parts rest] by auto
qed

lemma extract_word_ok:
  assumes "extract_word parts = (w, rest)"
  shows "list_all (\<lambda>c. \<not> isspace c) w" "set w \<union> set rest \<subseteq> set parts"
proof -
  have w: "w = takeWhile (\<lambda>c. \<not> isspace c) (dropWhile isspace parts)"
    and r: "rest = dropWhile (\<lambda>c. \<not> isspace c) (dropWhile isspace parts)"
    using assms by (simp_all add: extract_word_def Let_def)
  show "list_all (\<lambda>c. \<not> isspace c) w" unfolding w list_all_iff by (blast dest: set_takeWhileD)
  show "set w \<union> set rest \<subseteq> set parts" unfolding w r by (blast dest: set_takeWhileD set_dropWhileD)
qed

lemma words_ok: "v \<in> set (words parts) \<Longrightarrow> word_ok v \<and> set v \<subseteq> set parts"
proof (induction parts rule: words.induct)
  case (1 parts)
  obtain w rest where e: "extract_word parts = (w, rest)" by fastforce
  note w = extract_word_ok [OF e]
  show ?case
  proof (cases "w = [] \<or> v = w")
    case True
    then show ?thesis using 1(2) w unfolding words_eq [OF e] by (auto simp: word_ok_def split: if_splits)
  next
    case False
    then show ?thesis using 1(1) [OF e [symmetric]] 1(2) w(2) unfolding words_eq [OF e] by auto
  qed
qed

fun unwords :: "string list \<Rightarrow> string" where
  "unwords [] = []"
| "unwords [w] = w"
| "unwords (w # ws) = w @ CHR '' '' # unwords ws"

lemma extract_word_append: "\<lbrakk>word_ok w; rest = [] \<or> isspace (hd rest)\<rbrakk> \<Longrightarrow> extract_word (w @ rest) = (w, rest)"
  by (cases w; cases rest) (auto simp: extract_word_def word_ok_def list_all_iff takeWhile_append dropWhile_append Let_def)

lemma words_space: "words (CHR '' '' # s) = words s"
proof -
  have "extract_word (CHR '' '' # s) = extract_word s" by (simp add: extract_word_def isspace_def)
  then show ?thesis by (cases "extract_word s") (simp add: words_eq)
qed

lemma words_unwords: "list_all word_ok ws \<Longrightarrow> words (unwords ws) = ws"
proof (induction ws rule: unwords.induct)
  case (2 w)
  then have "extract_word w = (w, [])" using extract_word_append [of w "[]"] by simp
  then show ?case using 2 by (simp add: words_eq word_ok_def)
next
  case (3 w v vs)
  then have "extract_word (unwords (w # v # vs)) = (w, CHR '' '' # unwords (v # vs))"
    using extract_word_append [of w "CHR '' '' # unwords (v # vs)"] by (simp add: isspace_def)
  from words_eq [OF this] show ?case using 3 by (simp add: words_space word_ok_def)
qed simp


section \<open>The parser on words\<close>

text \<open>The parser as a function of the words of each line, without the stream.\<close>

fun option_words :: "nat \<Rightarrow> string list \<Rightarrow> (string, string) std_map \<Rightarrow> (string, string) std_map Result" where
  "option_words n [] options = Inr options"
| "option_words n (w # ws) options =
     (case parse_option w of
        Inl e \<Rightarrow> Inl (at_line n e)
      | Inr (key, value) \<Rightarrow>
          if sm_contains options key then Inl (at_line n (manifest_error ec_format ''duplicate node option''))
          else option_words n ws (sm_put key value options))"

lemma parse_options_words: "parse_options n parts options = option_words n (words parts) options"
proof (induction n parts options rule: parse_options.induct)
  case (1 n parts options)
  obtain w rest where e: "extract_word parts = (w, rest)" by fastforce
  show ?case
  proof (cases "w = []")
    case True
    then show ?thesis by (simp add: parse_options.simps [of n parts] e words_eq)
  next
    case False
    then show ?thesis using 1 [OF e [symmetric] False]
      by (simp add: parse_options.simps [of n parts] e words_eq split: sum.split)
  qed
qed

definition add_node :: "string \<Rightarrow> string \<Rightarrow> (string, string) std_map \<Rightarrow> ParseVars \<Rightarrow> ParseVars" where
  "add_node name command options v =
     v\<lparr>pv_node_names := ss_insert name (pv_node_names v),
       pv_manifest := (pv_manifest v)\<lparr>gm_nodes := gm_nodes (pv_manifest v) @
         [\<lparr>mn_name = name, mn_action = \<lparr>as_command = command, as_options = options\<rparr>\<rparr>]\<rparr>\<rparr>"

definition add_edge :: "string \<Rightarrow> string \<Rightarrow> EdgeKind \<Rightarrow> ParseVars \<Rightarrow> ParseVars" where
  "add_edge a b k v = v\<lparr>pv_manifest := (pv_manifest v)\<lparr>gm_edges := gm_edges (pv_manifest v) @ [\<lparr>me_from = a, me_to = b, me_kind = k\<rparr>]\<rparr>\<rparr>"

definition add_target :: "string \<Rightarrow> ParseVars \<Rightarrow> ParseVars" where
  "add_target t v = v\<lparr>pv_manifest := (pv_manifest v)\<lparr>gm_targets := gm_targets (pv_manifest v) @ [t]\<rparr>\<rparr>"

fun node_of_words :: "nat \<Rightarrow> string list \<Rightarrow> ParseVars \<Rightarrow> ParseVars Result" where
  "node_of_words n (name # command # opts) v =
     (if name \<in> set (pv_node_names v) then Inl (at_line n (manifest_error ec_graph_conflict ''duplicate node name''))
      else map_sum (\<lambda>e. e) (\<lambda>options. add_node name command options v) (option_words n opts []))"
| "node_of_words n _ v = Inl (at_line n (manifest_error ec_format ''node requires name and command''))"

fun edge_of_words :: "nat \<Rightarrow> string list \<Rightarrow> ParseVars \<Rightarrow> ParseVars Result" where
  "edge_of_words n (a # b # ks) v =
     map_sum (at_line n) (\<lambda>k. add_edge a b k v) (parse_edge_kind (case ks of [] \<Rightarrow> ''declared'' | k # _ \<Rightarrow> k))"
| "edge_of_words n _ v = Inl (at_line n (manifest_error ec_format ''edge requires from and to''))"

fun target_of_words :: "nat \<Rightarrow> string list \<Rightarrow> ParseVars \<Rightarrow> ParseVars Result" where
  "target_of_words n (t # _) v = Inr (add_target t v)"
| "target_of_words n [] v = Inl (at_line n (manifest_error ec_format ''target requires node name''))"

fun line_of_words :: "nat \<Rightarrow> string list \<Rightarrow> ParseVars \<Rightarrow> ParseVars Result" where
  "line_of_words n (r # ws) v =
     (if r = ''node'' then node_of_words n ws v
      else if r = ''edge'' then edge_of_words n ws v
      else if r = ''target'' then target_of_words n ws v
      else Inl (at_line n (manifest_error ec_format ''unknown manifest record'')))"
| "line_of_words n [] v = Inl (at_line n (manifest_error ec_format ''unknown manifest record''))"

lemma words_not_Nil: "w # ws = words parts \<Longrightarrow> w \<noteq> []"
  using words_ok [of w parts] by (metis list.set_intros(1) word_ok_def)

lemma words_cases:
  obtains (none) "words parts = []" "fst (extract_word parts) = []" "words (snd (extract_word parts)) = []"
  | (some) w ws where "words parts = w # ws" "fst (extract_word parts) = w" "words (snd (extract_word parts)) = ws"
      "w \<noteq> []"
proof (cases "words parts")
  case Nil
  then show ?thesis using none extract_words [of parts] by simp
next
  case (Cons w ws)
  then show ?thesis using some extract_words [of parts] words_not_Nil [OF Cons [symmetric]] by simp
qed

lemma parse_node_words: "parse_node n parts v = node_of_words n (words parts) v"
proof (cases rule: words_cases [of parts])
  case none
  then show ?thesis by (simp add: parse_node_def split_beta)
next
  case (some name ws)
  then show ?thesis
    by (cases rule: words_cases [of "snd (extract_word parts)"])
      (auto simp: parse_node_def split_beta parse_options_words add_node_def Let_def split: sum.split)
qed

lemma parse_edge_words: "parse_edge n parts v = edge_of_words n (words parts) v"
proof (cases rule: words_cases [of parts])
  case none
  then show ?thesis by (simp add: parse_edge_def split_beta Let_def)
next
  case (some a ws)
  show ?thesis
  proof (cases rule: words_cases [of "snd (extract_word parts)"])
    case none
    then show ?thesis using some by (simp add: parse_edge_def split_beta Let_def)
  next
    case more: (some b ks)
    then show ?thesis using some
      by (cases rule: words_cases [of "snd (extract_word (snd (extract_word parts)))"])
        (auto simp: parse_edge_def split_beta Let_def add_edge_def split: sum.split)
  qed
qed

lemma parse_target_words: "parse_target n parts v = target_of_words n (words parts) v"
  by (cases rule: words_cases [of parts]) (simp_all add: parse_target_def split_beta Let_def add_target_def)

lemma parse_line_words:
  "parse_line n line v = (if trim_comment line = [] then Inr v else line_of_words n (words (trim_comment line)) v)"
  by (cases rule: words_cases [of "trim_comment line"])
    (simp_all add: parse_line_def split_beta Let_def parse_node_words parse_edge_words parse_target_words)

section \<open>Printing\<close>

definition token_ok :: "string \<Rightarrow> bool" where
  "token_ok w \<longleftrightarrow> word_ok w \<and> CHR ''#'' \<notin> set w"

fun kind_name :: "EdgeKind \<Rightarrow> string" where
  "kind_name ek_declared = ''declared''"
| "kind_name ek_discovered = ''discovered''"

definition option_token :: "string \<times> string \<Rightarrow> string" where
  "option_token o' = fst o' @ ''='' @ snd o'"

definition node_tokens :: "ManifestNode \<Rightarrow> string list" where
  "node_tokens nd = ''node'' # mn_name nd # as_command (mn_action nd) # map option_token (as_options (mn_action nd))"

definition edge_tokens :: "ManifestEdge \<Rightarrow> string list" where
  "edge_tokens e = [''edge'', me_from e, me_to e, kind_name (me_kind e)]"

definition manifest_tokens :: "GraphManifest \<Rightarrow> string list list" where
  "manifest_tokens m = map node_tokens (gm_nodes m) @ map edge_tokens (gm_edges m) @ map (\<lambda>t. [''target'', t]) (gm_targets m)"

definition print_manifest :: "GraphManifest \<Rightarrow> string" where
  "print_manifest m = concat (map (\<lambda>ws. unwords ws @ [newline]) (manifest_tokens m))"

definition option_ok :: "string \<times> string \<Rightarrow> bool" where
  "option_ok o' \<longleftrightarrow> token_ok (option_token o') \<and> fst o' \<noteq> [] \<and> snd o' \<noteq> [] \<and> CHR ''='' \<notin> set (fst o')"

definition node_ok :: "ManifestNode \<Rightarrow> bool" where
  "node_ok nd \<longleftrightarrow> token_ok (mn_name nd) \<and> token_ok (as_command (mn_action nd)) \<and>
     sm_ok (as_options (mn_action nd)) \<and> list_all option_ok (as_options (mn_action nd))"

definition manifest_ok :: "GraphManifest \<Rightarrow> bool" where
  "manifest_ok m \<longleftrightarrow> gm_nodes m \<noteq> [] \<and> list_all node_ok (gm_nodes m) \<and> distinct (map mn_name (gm_nodes m)) \<and>
     list_all (\<lambda>e. token_ok (me_from e) \<and> token_ok (me_to e)) (gm_edges m) \<and> list_all token_ok (gm_targets m)"

lemma get_lines_print:
  "list_all (\<lambda>l. newline \<notin> set l) ls \<Longrightarrow> get_lines (concat (map (\<lambda>l. l @ [newline]) ls)) = ls"
proof (induction ls)
  case (Cons l ls)
  have "get_lines (l @ newline # s) = l # get_lines s" if "newline \<notin> set l" for s
    using that by (induction l) auto
  then show ?case using Cons by simp
qed simp

lemma token_ok_chars: "token_ok w \<Longrightarrow> w \<noteq> [] \<and> (\<forall>c \<in> set w. \<not> isspace c \<and> c \<noteq> CHR ''#'')"
  by (auto simp: token_ok_def word_ok_def list_all_iff)

lemma unwords_tokens:
  assumes "ws \<noteq> []" "list_all token_ok ws"
  shows "unwords ws \<noteq> [] \<and> \<not> isspace (hd (unwords ws)) \<and> \<not> isspace (last (unwords ws)) \<and>
    CHR ''#'' \<notin> set (unwords ws) \<and> newline \<notin> set (unwords ws)"
  using assms
proof (induction ws rule: unwords.induct)
  case (2 w)
  then show ?case using token_ok_chars [of w] by (auto simp: isspace_def)
next
  case (3 w v vs)
  then show ?case using token_ok_chars [of w] by (auto simp: isspace_def)
qed simp

lemma trim_unwords: "\<lbrakk>ws \<noteq> []; list_all token_ok ws\<rbrakk> \<Longrightarrow> trim_comment (unwords ws) = unwords ws"
proof -
  assume "ws \<noteq> []" "list_all token_ok ws"
  note u = unwords_tokens [OF this]
  then have "takeWhile (\<lambda>c. c \<noteq> CHR ''#'') (unwords ws) = unwords ws" by (auto intro: takeWhile_eq_all_conv [THEN iffD2])
  moreover have "pop_trailing (unwords ws) = unwords ws" using u by (auto simp: pop_trailing.simps isspace_def)
  moreover have "dropWhile (\<lambda>c. c = CHR '' '' \<or> c = CHR 0x09) (unwords ws) = unwords ws"
    using u by (cases "unwords ws") (auto simp: isspace_def)
  ultimately show ?thesis unfolding trim_comment_def Let_def by metis
qed

lemma parse_line_unwords:
  "\<lbrakk>ws \<noteq> []; list_all token_ok ws\<rbrakk> \<Longrightarrow> parse_line n (unwords ws) v = line_of_words n ws v"
  using unwords_tokens [of ws] words_unwords [of ws]
  by (simp add: parse_line_words trim_unwords token_ok_def list_all_iff)


fun lines_of_words :: "nat \<Rightarrow> string list list \<Rightarrow> ParseVars \<Rightarrow> ParseVars Result" where
  "lines_of_words n [] v = Inr v"
| "lines_of_words n (ws # wss) v =
     (case line_of_words (n + 1) ws v of Inl e \<Rightarrow> Inl e | Inr v' \<Rightarrow> lines_of_words (n + 1) wss v')"

lemma parse_lines_unwords:
  "list_all (\<lambda>ws. ws \<noteq> [] \<and> list_all token_ok ws) wss \<Longrightarrow> parse_lines n (map unwords wss) v = lines_of_words n wss v"
  by (induction wss arbitrary: n v) (simp_all add: parse_line_unwords split: sum.split)

lemma lines_of_words_append:
  "lines_of_words n (wss @ wss') v =
     (case lines_of_words n wss v of Inl e \<Rightarrow> Inl e | Inr v' \<Rightarrow> lines_of_words (n + length wss) wss' v')"
  by (induction wss arbitrary: n v) (simp_all split: sum.split)

lemma parse_option_token: "option_ok o' \<Longrightarrow> parse_option (option_token o') = Inr o'"
proof -
  assume ok: "option_ok o'"
  have "takeWhile (\<lambda>c. c \<noteq> CHR ''='') (fst o' @ CHR ''='' # snd o') = fst o'"
    using ok by (subst takeWhile_append2) (auto simp: option_ok_def)
  then show ?thesis using ok by (cases o') (auto simp: parse_option_def option_token_def option_ok_def Let_def)
qed

lemma parse_option_ok:
  assumes "parse_option w = Inr o'" "token_ok w"
  shows "option_ok o'"
proof -
  let ?k = "takeWhile (\<lambda>c. c \<noteq> CHR ''='') w"
  have o: "CHR ''='' \<in> set w" "?k \<noteq> []" "length ?k + 1 < length w" "o' = (take (length ?k) w, drop (length ?k + 1) w)"
    using assms(1) by (auto simp: parse_option_def Let_def split: if_splits)
  have k: "take (length ?k) w = ?k" by (metis append_eq_conv_conj takeWhile_dropWhile_id)
  have "dropWhile (\<lambda>c. c \<noteq> CHR ''='') w \<noteq> []" using o(1) by (simp add: dropWhile_eq_Nil_conv)
  then obtain r where r: "dropWhile (\<lambda>c. c \<noteq> CHR ''='') w = CHR ''='' # r" by (cases "dropWhile (\<lambda>c. c \<noteq> CHR ''='') w") (auto simp: dropWhile_eq_Cons_conv)
  have w: "w = ?k @ CHR ''='' # r" using r by (metis takeWhile_dropWhile_id)
  have r': "drop (length ?k + 1) w = r" using arg_cong [OF w, of "drop (length ?k + 1)"] by simp
  have "o' = (?k, r)" using o(4) k r' by simp
  moreover have "r \<noteq> []" using o(3) r' by (metis drop_eq_Nil not_le)
  moreover have "CHR ''='' \<notin> set ?k" by (auto dest: set_takeWhileD)
  ultimately show ?thesis using assms(2) w o(2) by (simp add: option_ok_def option_token_def)
qed

lemma sm_put_last: "sm_ok (m @ [(k, v)]) \<Longrightarrow> sm_put k v m = m @ [(k, v)]"
  by (induction m) (auto simp: sm_ok_def sorted_wrt_append)

lemma option_words_tokens:
  "\<lbrakk>sm_ok (options @ os); list_all option_ok os\<rbrakk> \<Longrightarrow> option_words n (map option_token os) options = Inr (options @ os)"
proof (induction os arbitrary: options)
  case (Cons o' os)
  obtain k v where o: "o' = (k, v)" by fastforce
  have "sm_ok (options @ [(k, v)])" "\<not> sm_contains options k"
    using Cons.prems(1) by (auto simp: o sm_ok_def sorted_wrt_append sm_contains_iff)
  then show ?case using Cons parse_option_token [of o'] by (simp add: o sm_put_last)
qed simp

lemma option_words_ok:
  "\<lbrakk>option_words n ws options = Inr os; list_all token_ok ws; sm_ok options; list_all option_ok options\<rbrakk>
   \<Longrightarrow> sm_ok os \<and> list_all option_ok os"
proof (induction n ws options rule: option_words.induct)
  case (2 n w ws options)
  obtain k v where kv: "parse_option w = Inr (k, v)" "\<not> sm_contains options k" "option_words n ws (sm_put k v options) = Inr os"
    using 2(2) by (auto split: sum.splits prod.splits if_splits)
  have "set (sm_put k v options) \<subseteq> insert (k, v) (set options)"
    by (induction k v options rule: sm_put.induct) auto
  then have "list_all option_ok (sm_put k v options)"
    using 2(3,5) parse_option_ok [OF kv(1)] by (auto simp: list_all_iff)
  then show ?case using 2(1) [OF kv(1) refl kv(2,3)] 2(3,4) by simp
qed simp

text \<open>What the parser variables satisfy between lines.\<close>

definition vars_ok :: "ParseVars \<Rightarrow> bool" where
  "vars_ok v \<longleftrightarrow> set (pv_node_names v) = mn_name ` set (gm_nodes (pv_manifest v)) \<and>
     list_all node_ok (gm_nodes (pv_manifest v)) \<and> distinct (map mn_name (gm_nodes (pv_manifest v))) \<and>
     list_all (\<lambda>e. token_ok (me_from e) \<and> token_ok (me_to e)) (gm_edges (pv_manifest v)) \<and>
     list_all token_ok (gm_targets (pv_manifest v))"

lemma vars_ok_add:
  "\<lbrakk>vars_ok v; token_ok name; token_ok command; sm_ok os; list_all option_ok os; name \<notin> set (pv_node_names v)\<rbrakk>
     \<Longrightarrow> vars_ok (add_node name command os v)"
  "\<lbrakk>vars_ok v; token_ok a; token_ok b\<rbrakk> \<Longrightarrow> vars_ok (add_edge a b k v)"
  "\<lbrakk>vars_ok v; token_ok t\<rbrakk> \<Longrightarrow> vars_ok (add_target t v)"
  by (auto simp: vars_ok_def add_node_def add_edge_def add_target_def node_ok_def)

lemma map_sum_Inr_iff: "map_sum f g x = Inr y \<longleftrightarrow> (\<exists>z. x = Inr z \<and> y = g z)"
  by (cases x) auto

lemma map_sum_Inl_iff: "map_sum f g x = Inl y \<longleftrightarrow> (\<exists>z. x = Inl z \<and> y = f z)"
  by (cases x) auto

lemma line_of_words_ok:
  assumes "line_of_words n ws v = Inr v'" "list_all token_ok ws" "vars_ok v"
  shows "vars_ok v'"
proof (cases ws)
  case (Cons r rest)
  consider "node_of_words n rest v = Inr v'" | "edge_of_words n rest v = Inr v'" | "target_of_words n rest v = Inr v'"
    using assms(1) Cons by (auto split: if_splits)
  then show ?thesis
  proof cases
    case 1
    then show ?thesis using assms(2,3) Cons option_words_ok [of n _ "[]"]
      by (cases "(n, rest, v)" rule: node_of_words.cases) (auto intro!: vars_ok_add(1) simp: map_sum_Inr_iff split: if_splits)
  next
    case 2
    then show ?thesis using assms(2,3) Cons
      by (cases "(n, rest, v)" rule: edge_of_words.cases) (auto intro!: vars_ok_add(2) simp: map_sum_Inr_iff)
  next
    case 3
    then show ?thesis using assms(2,3) Cons
      by (cases "(n, rest, v)" rule: target_of_words.cases) (auto intro!: vars_ok_add(3))
  qed
qed (use assms(1) in simp)


lemma set_pop_trailing: "set (pop_trailing line) \<subseteq> set line"
proof (induction line rule: pop_trailing.induct)
  case (1 line)
  then show ?case by (subst pop_trailing.simps) (auto dest: in_set_butlastD)
qed

lemma trim_comment_chars: "c \<in> set (trim_comment line) \<Longrightarrow> c \<in> set line \<and> c \<noteq> CHR ''#''"
  using set_pop_trailing [of "takeWhile (\<lambda>c. c \<noteq> CHR ''#'') line"]
  by (auto simp: trim_comment_def Let_def dest!: set_dropWhileD dest: set_takeWhileD)

lemma line_tokens: "list_all token_ok (words (trim_comment line))"
  using words_ok [of _ "trim_comment line"] trim_comment_chars [of "CHR ''#''" line]
  by (auto simp: list_all_iff token_ok_def)

lemma parse_lines_ok: "\<lbrakk>parse_lines n ls v = Inr v'; vars_ok v\<rbrakk> \<Longrightarrow> vars_ok v'"
proof (induction ls arbitrary: n v)
  case (Cons l ls)
  obtain v1 where v1: "parse_line (n + 1) l v = Inr v1" "parse_lines (n + 1) ls v1 = Inr v'"
    using Cons.prems(1) by (auto split: sum.splits)
  have "vars_ok v1" using v1(1) Cons.prems(2) line_of_words_ok [OF _ line_tokens]
    by (auto simp: parse_line_words split: if_splits)
  then show ?case using Cons.IH v1(2) by blast
qed simp

lemma parsed_manifest_ok: "parse_manifest input = Inr m \<Longrightarrow> manifest_ok m"
proof -
  assume "parse_manifest input = Inr m"
  then obtain v where v: "parse_lines 0 (get_lines input) empty_vars = Inr v" "m = pv_manifest v" "gm_nodes m \<noteq> []"
    by (auto simp: parse_manifest_def split: sum.splits if_splits)
  have "vars_ok v" using parse_lines_ok [OF v(1)] by (simp add: vars_ok_def empty_vars_def)
  then show ?thesis using v(2,3) by (simp add: vars_ok_def manifest_ok_def)
qed

subsection \<open>Parsing what is printed\<close>

lemma node_line:
  "\<lbrakk>node_ok nd; mn_name nd \<notin> set (pv_node_names v)\<rbrakk>
   \<Longrightarrow> line_of_words n (node_tokens nd) v = Inr (add_node (mn_name nd) (as_command (mn_action nd)) (as_options (mn_action nd)) v)"
  by (simp add: node_tokens_def node_ok_def option_words_tokens [of "[]", simplified])

lemma node_lines:
  "\<lbrakk>list_all node_ok nds; distinct (map mn_name nds); mn_name ` set nds \<inter> set (pv_node_names v) = {}\<rbrakk>
   \<Longrightarrow> \<exists>v'. lines_of_words n (map node_tokens nds) v = Inr v' \<and>
         pv_manifest v' = (pv_manifest v)\<lparr>gm_nodes := gm_nodes (pv_manifest v) @ nds\<rparr>"
proof (induction nds arbitrary: n v)
  case (Cons nd nds)
  let ?v = "add_node (mn_name nd) (as_command (mn_action nd)) (as_options (mn_action nd)) v"
  have "mn_name ` set nds \<inter> set (pv_node_names ?v) = {}" using Cons.prems by (auto simp: add_node_def)
  from Cons.IH [OF _ _ this, of "n + 1"] Cons.prems
  obtain v' where v': "lines_of_words (n + 1) (map node_tokens nds) ?v = Inr v'"
      "pv_manifest v' = (pv_manifest ?v)\<lparr>gm_nodes := gm_nodes (pv_manifest ?v) @ nds\<rparr>"
    by auto
  have "lines_of_words n (map node_tokens (nd # nds)) v = Inr v'"
    using v'(1) node_line [of nd v "n + 1"] Cons.prems by simp
  moreover have "pv_manifest v' = (pv_manifest v)\<lparr>gm_nodes := gm_nodes (pv_manifest v) @ nd # nds\<rparr>"
    unfolding v'(2) by (simp add: add_node_def)
  ultimately show ?case by blast
qed simp

lemma edge_lines:
  "\<exists>v'. lines_of_words n (map edge_tokens es) v = Inr v' \<and>
     pv_manifest v' = (pv_manifest v)\<lparr>gm_edges := gm_edges (pv_manifest v) @ es\<rparr>"
proof (induction es arbitrary: n v)
  case (Cons e es)
  have "line_of_words (n + 1) (edge_tokens e) v = Inr (add_edge (me_from e) (me_to e) (me_kind e) v)"
    by (cases "me_kind e") (simp_all add: edge_tokens_def parse_edge_kind_def)
  moreover have eta: "\<lparr>me_from = me_from e, me_to = me_to e, me_kind = me_kind e\<rparr> = e" by simp
  ultimately show ?case
    using Cons.IH [of "n + 1" "add_edge (me_from e) (me_to e) (me_kind e) v"] unfolding add_edge_def eta by simp
qed simp

lemma target_lines:
  "\<exists>v'. lines_of_words n (map (\<lambda>t. [''target'', t]) ts) v = Inr v' \<and>
     pv_manifest v' = (pv_manifest v)\<lparr>gm_targets := gm_targets (pv_manifest v) @ ts\<rparr>"
proof (induction ts arbitrary: n v)
  case (Cons t ts)
  then show ?case using Cons.IH [of "n + 1" "add_target t v"] by (simp add: add_target_def)
qed simp

lemma keyword_tokens: "token_ok ''node''" "token_ok ''edge''" "token_ok ''target''" "token_ok (kind_name k)"
  by (cases k; simp add: token_ok_def word_ok_def isspace_def)+

lemma manifest_tokens_ok:
  "manifest_ok m \<Longrightarrow> list_all (\<lambda>ws. ws \<noteq> [] \<and> list_all token_ok ws) (manifest_tokens m)"
  by (auto simp: manifest_ok_def manifest_tokens_def node_tokens_def edge_tokens_def node_ok_def option_ok_def
      keyword_tokens list_all_iff)

lemma print_manifest_parses:
  assumes "manifest_ok m"
  shows "parse_manifest (print_manifest m) = Inr m"
proof -
  note ok = manifest_tokens_ok [OF assms]
  have "list_all (\<lambda>l. newline \<notin> set l) (map unwords (manifest_tokens m))"
    using ok unwords_tokens by (auto simp: list_all_iff)
  then have ls: "get_lines (print_manifest m) = map unwords (manifest_tokens m)"
    using get_lines_print [of "map unwords (manifest_tokens m)"] by (simp add: print_manifest_def comp_def)
  obtain v1 where v1: "lines_of_words 0 (map node_tokens (gm_nodes m)) empty_vars = Inr v1"
      "pv_manifest v1 = (pv_manifest empty_vars)\<lparr>gm_nodes := gm_nodes (pv_manifest empty_vars) @ gm_nodes m\<rparr>"
    using node_lines [of "gm_nodes m" empty_vars 0] assms by (auto simp: manifest_ok_def empty_vars_def)
  let ?n = "length (map node_tokens (gm_nodes m))"
  obtain v2 where v2: "lines_of_words ?n (map edge_tokens (gm_edges m)) v1 = Inr v2"
      "pv_manifest v2 = (pv_manifest v1)\<lparr>gm_edges := gm_edges (pv_manifest v1) @ gm_edges m\<rparr>"
    using edge_lines by blast
  obtain v3 where v3: "lines_of_words (?n + length (map edge_tokens (gm_edges m))) (map (\<lambda>t. [''target'', t]) (gm_targets m)) v2 = Inr v3"
      "pv_manifest v3 = (pv_manifest v2)\<lparr>gm_targets := gm_targets (pv_manifest v2) @ gm_targets m\<rparr>"
    using target_lines by blast
  have "parse_lines 0 (get_lines (print_manifest m)) empty_vars = Inr v3"
    unfolding ls parse_lines_unwords [OF ok] using v1(1) v2(1) v3(1) by (simp add: manifest_tokens_def lines_of_words_append)
  moreover have "pv_manifest v3 = m" unfolding v3(2) v2(2) v1(2) by (simp add: empty_vars_def)
  ultimately show ?thesis using assms by (simp add: parse_manifest_def manifest_ok_def)
qed

subsection \<open>Error positions\<close>

lemma at_line_offset [simp]: "offset (at_line n e) = n"
  by (simp add: at_line_def)

lemma option_words_offset: "option_words n ws options = Inl e \<Longrightarrow> offset e = n"
  by (induction n ws options rule: option_words.induct) (auto split: sum.splits if_splits)

lemma line_of_words_offset: "line_of_words n ws v = Inl e \<Longrightarrow> offset e = n"
proof (induction n ws v rule: line_of_words.induct)
  case (1 n r ws v)
  then show ?case using option_words_offset [of n]
    by (cases "(n, ws, v)" rule: node_of_words.cases; cases "(n, ws, v)" rule: edge_of_words.cases)
      (auto split: if_splits simp: map_sum_Inl_iff)
qed auto

lemma parse_lines_error:
  "parse_lines n ls v = Inl e \<Longrightarrow>
   \<exists>i v'. i < length ls \<and> parse_lines n (take i ls) v = Inr v' \<and> parse_line (n + i + 1) (ls ! i) v' = Inl e"
proof (induction ls arbitrary: n v)
  case (Cons l ls)
  show ?case
  proof (cases "parse_line (n + 1) l v")
    case (Inl e')
    then show ?thesis using Cons.prems by (intro exI [of _ 0] exI [of _ v]) simp
  next
    case (Inr v1)
    then obtain i v' where "i < length ls" "parse_lines (n + 1) (take i ls) v1 = Inr v'" "parse_line (n + 1 + i + 1) (ls ! i) v' = Inl e"
      using Cons by fastforce
    then show ?thesis using Inr by (intro exI [of _ "Suc i"] exI [of _ v']) simp
  qed
qed simp

section \<open>Properties\<close>

text \<open>
  C11. The parser inverts the printer on exactly the well-formed manifests: printing a manifest and
  parsing the text returns it if and only if it has a node, its node names are different, its
  names, commands and options are words without whitespace and comment characters, and its options
  are keys without an equals sign with values.
\<close>

theorem manifest_round_trip: "parse_manifest (print_manifest m) = Inr m \<longleftrightarrow> manifest_ok m"
  using parsed_manifest_ok print_manifest_parses by blast

text \<open>
  C37. A parse error names the first offending line: when parsing fails with a position, all lines
  before it parse and that line does not; without a position every line parses and there is no node.
\<close>

theorem manifest_error_line:
  assumes "parse_manifest input = Inl e"
  shows "(offset e = 0 \<and> (\<exists>v. parse_lines 0 (get_lines input) empty_vars = Inr v \<and> gm_nodes (pv_manifest v) = [])) \<or>
    (0 < offset e \<and> offset e \<le> length (get_lines input) \<and>
     (\<exists>v. parse_lines 0 (take (offset e - 1) (get_lines input)) empty_vars = Inr v \<and>
          parse_line (offset e) (get_lines input ! (offset e - 1)) v = Inl e))"
proof (cases "parse_lines 0 (get_lines input) empty_vars")
  case (Inl e')
  then obtain i v where i: "i < length (get_lines input)" "parse_lines 0 (take i (get_lines input)) empty_vars = Inr v"
    "parse_line (i + 1) (get_lines input ! i) v = Inl e"
    using assms parse_lines_error [of 0 "get_lines input" empty_vars e] by (auto simp: parse_manifest_def)
  moreover have "offset e = i + 1" using i(3) line_of_words_offset by (simp add: parse_line_words split: if_splits)
  ultimately show ?thesis by auto
next
  case (Inr v)
  then show ?thesis using assms by (auto simp: parse_manifest_def manifest_error_def error_def split: if_splits)
qed

definition demo_manifest_text :: string where
  "demo_manifest_text = ''node lib cc # the library'' @ [newline, newline] @ ''edge app'' @ [newline]"

theorem manifest_error_line_witness:
  "map_sum offset (\<lambda>_. ()) (parse_manifest demo_manifest_text) = Inl 3 \<and>
   (\<exists>v. parse_lines 0 (take 2 (get_lines demo_manifest_text)) empty_vars = Inr v)"
proof -
  have p: "map_sum offset (\<lambda>_. ()) (parse_manifest demo_manifest_text) = Inl 3" by code_simp
  then obtain e where "parse_manifest demo_manifest_text = Inl e" "offset e = 3" by (auto simp: map_sum_Inl_iff)
  then show ?thesis using p manifest_error_line [of demo_manifest_text e] by auto
qed

end
