(* ===== verification/Forge_Apply.thy ===== *)
theory Forge_Apply
  imports Forge_Manifest
begin

text \<open>
  The application of a parsed manifest to a workspace, \<^verbatim>\<open>apply_manifest\<close> of
  \<^verbatim>\<open>src/workspace/manifest.cpp\<close>, and what the resulting graph contains, stated by node names.
\<close>

section \<open>Definitions\<close>

record AppliedManifest =
  am_nodes_by_name :: "(string, NodeId) std_map"
  am_targets :: "NodeId list"

definition map_emplace :: "'k :: linorder \<Rightarrow> 'v \<Rightarrow> ('k, 'v) std_map \<Rightarrow> ('k, 'v) std_map" where
  "map_emplace k v m = (if sm_contains m k then m else sm_put k v m)"

fun apply_nodes :: "WorkspaceCore \<Rightarrow> (string, NodeId) std_map \<Rightarrow> ManifestNode list \<Rightarrow> WorkspaceCore \<times> (string, NodeId) std_map Result" where
  "apply_nodes ws names [] = (ws, Inr names)"
| "apply_nodes ws names (node # nodes) =
     (case ws_put_node ws (mn_name node) (mn_action node) of
        (ws, Inl e) \<Rightarrow> (ws, Inl e)
      | (ws, Inr nid) \<Rightarrow> apply_nodes ws (map_emplace (mn_name node) nid names) nodes)"

fun apply_edges :: "WorkspaceCore \<Rightarrow> (string, NodeId) std_map \<Rightarrow> ManifestEdge list \<Rightarrow> WorkspaceCore \<times> unit Result" where
  "apply_edges ws names [] = (ws, Inr ())"
| "apply_edges ws names (edge # edges) =
     (case (sm_find names (me_from edge), sm_find names (me_to edge)) of
        (Some f, Some t) \<Rightarrow>
          (case ws_put_edge ws f t (me_kind edge) of
             (ws, Inl e) \<Rightarrow> (ws, Inl e)
           | (ws, Inr _) \<Rightarrow> apply_edges ws names edges)
      | _ \<Rightarrow> (ws, Inl (manifest_error ec_graph_conflict ''edge references unknown node name'')))"

fun apply_targets :: "(string, NodeId) std_map \<Rightarrow> string list \<Rightarrow> NodeId list \<Rightarrow> NodeId list Result" where
  "apply_targets names [] acc = Inr acc"
| "apply_targets names (target # targets) acc =
     (case sm_find names target of
        None \<Rightarrow> Inl (manifest_error ec_graph_conflict ''target references unknown node name'')
      | Some nid \<Rightarrow> apply_targets names targets (acc @ [nid]))"

text \<open>\<open>None\<close> is the exception of \<open>nodes_by_name.at\<close>.\<close>

definition apply_manifest :: "WorkspaceCore \<Rightarrow> GraphManifest \<Rightarrow> (WorkspaceCore \<times> AppliedManifest Result) option" where
  "apply_manifest ws m =
     (case apply_nodes ws [] (gm_nodes m) of
        (ws, Inl e) \<Rightarrow> Some (ws, Inl e)
      | (ws, Inr names) \<Rightarrow>
          case apply_edges ws names (gm_edges m) of
            (ws, Inl e) \<Rightarrow> Some (ws, Inl e)
          | (ws, Inr _) \<Rightarrow>
              case apply_targets names (gm_targets m) [] of
                Inl e \<Rightarrow> Some (ws, Inl e)
              | Inr targets \<Rightarrow>
                  if targets = [] \<and> gm_nodes m \<noteq> [] then
                    (case sm_find names (mn_name (last (gm_nodes m))) of
                       None \<Rightarrow> None
                     | Some nid \<Rightarrow> Some (ws, Inr \<lparr>am_nodes_by_name = names, am_targets = [nid]\<rparr>))
                  else Some (ws, Inr \<lparr>am_nodes_by_name = names, am_targets = targets\<rparr>))"

section \<open>The content of a graph by names\<close>

definition named :: "BuildGraph \<Rightarrow> string \<Rightarrow> NodeId \<Rightarrow> bool" where
  "named g name n \<longleftrightarrow> (\<exists>node. (n, node) \<in> set (bg_nodes g) \<and> bn_name node = name)"

definition node_content :: "BuildGraph \<Rightarrow> (string \<times> ActionSpec) set" where
  "node_content g = (\<lambda>e. (bn_name (snd e), bn_action (snd e))) ` set (bg_nodes g)"

definition edge_content :: "BuildGraph \<Rightarrow> (NodeId \<times> NodeId \<times> EdgeKind) set" where
  "edge_content g = (\<lambda>e. edge_triple (snd e)) ` set (bg_edges g)"

definition name_edges :: "BuildGraph \<Rightarrow> (string \<times> string \<times> EdgeKind) set" where
  "name_edges g = {(a, b, k). \<exists>f t. (f, t, k) \<in> edge_content g \<and> named g a f \<and> named g b t}"

lemma named_unique:
  assumes "graph_inv g" "named g a n"
  shows "named g b n \<Longrightarrow> a = b" and "named g a l \<Longrightarrow> l = n"
proof -
  have ni: "nodes_inv (bg_next_node g) (bg_nodes g)" and ok: "sm_ok (bg_nodes g)"
    using assms(1) by (simp_all add: graph_inv_def nodes_inv_def)
  show "a = b" if "named g b n"
    using assms(2) that std_map.find_Some_iff [OF ok] by (metis named_def option.inject)
  show "l = n" if "named g a l" using assms(2) that nodes_invD(4) [OF ni] by (auto simp: named_def)
qed

lemma named_contains: "(\<exists>a. named g a n) \<longleftrightarrow> sm_contains (bg_nodes g) n"
  by (force simp: named_def sm_contains_iff)

lemma sm_put_fresh:
  assumes "sm_ok m" "\<not> sm_contains m k"
  shows "set (sm_put k v m) = insert (k, v) (set m)"
proof -
  have "{e \<in> set m. fst e \<noteq> k} = set m" using assms(2) unfolding sm_contains_iff by force
  then show ?thesis by (simp add: sm_put_entries [OF assms(1)])
qed

lemma named_insert:
  "set (bg_nodes g') = insert (n, node) (set (bg_nodes g)) \<Longrightarrow> named g' a m \<longleftrightarrow> a = bn_name node \<and> m = n \<or> named g a m"
  by (auto simp: named_def)

lemma sm_entries_split:
  assumes "sm_ok m" "sm_find m k = Some v"
  shows "set m = insert (k, v) {e \<in> set m. fst e \<noteq> k}"
proof (rule set_eqI)
  fix e
  show "e \<in> set m \<longleftrightarrow> e \<in> insert (k, v) {e \<in> set m. fst e \<noteq> k}"
    using std_map.find_Some_iff [OF assms(1), of "fst e" "snd e"] assms(2) by (cases e) auto
qed

lemma put_node_new:
  assumes inv: "graph_inv g" and room: "bg_next_node g \<noteq> - 1" and name: "name \<noteq> []" "\<And>n. \<not> named g name n"
  obtains g' n where "put_node g name action = (g', Inr n)" "graph_inv g'" "bg_edges g' = bg_edges g"
    "bg_next_node g' = bg_next_node g + 1" "bg_next_edge g' = bg_next_edge g"
    "node_content g' = insert (name, action) (node_content g)"
    "\<And>a m. named g' a m \<longleftrightarrow> a = name \<and> m = n \<or> named g a m"
proof -
  let ?n = "Id (bg_next_node g)"
  let ?node = "\<lparr>bn_id = ?n, bn_generation = gen_next (bg_generation g), bn_name = name, bn_action = action,
    bn_state = ns_dirty, bn_last_action_key = zero_digest\<rparr>"
  have none: "find (\<lambda>(nid, node). bn_name node = name) (bg_nodes g) = None"
    using name(2) by (auto simp: find_None_iff named_def)
  have ni: "nodes_inv (bg_next_node g) (bg_nodes g)" using inv by (simp add: graph_inv_def)
  have "(?n, w) \<notin> set (bg_nodes g)" for w using nodes_invD(3) [OF ni] by blast
  then have "\<not> sm_contains (bg_nodes g) ?n" by (auto simp: sm_contains_iff)
  then have nodes: "set (sm_put ?n ?node (bg_nodes g)) = insert (?n, ?node) (set (bg_nodes g))"
    using ni by (intro sm_put_fresh) (simp_all add: nodes_inv_def)
  let ?g' = "fst (put_node g name action)"
  have eq: "put_node g name action = (?g', Inr ?n)" "bg_nodes ?g' = sm_put ?n ?node (bg_nodes g)"
    "bg_edges ?g' = bg_edges g" "bg_next_node ?g' = bg_next_node g + 1" "bg_next_edge ?g' = bg_next_edge g"
    using name(1) none by (simp_all add: put_node_def publish_generation_def Let_def)
  show ?thesis
  proof (rule that [OF eq(1) put_node_inv [OF inv room] eq(3-5)])
    show "node_content ?g' = insert (name, action) (node_content g)" by (simp add: node_content_def eq(2) nodes)
    show "named ?g' a m \<longleftrightarrow> a = name \<and> m = ?n \<or> named g a m" for a m
      using named_insert [of ?g' ?n ?node g a m] eq(2) nodes by simp
  qed
qed

definition node_view :: "Nodes \<Rightarrow> (NodeId \<times> string \<times> ActionSpec) set" where
  "node_view nodes = (\<lambda>e. (fst e, bn_name (snd e), bn_action (snd e))) ` set nodes"

lemma mark_dirty_view:
  assumes "sm_ok nodes"
  shows "node_view (mark_dirty n nodes) = node_view nodes"
proof (cases "sm_find nodes n")
  case (Some node)
  let ?rest = "{e \<in> set nodes. fst e \<noteq> n}"
  have "node_view nodes = (\<lambda>e. (fst e, bn_name (snd e), bn_action (snd e))) ` insert (n, node) ?rest"
    unfolding node_view_def by (rule arg_cong [OF sm_entries_split [OF assms Some]])
  moreover have "node_view (mark_dirty n nodes) =
      (\<lambda>e. (fst e, bn_name (snd e), bn_action (snd e))) ` insert (n, node\<lparr>bn_state := ns_dirty\<rparr>) ?rest"
    unfolding mark_dirty_def node_view_def Some option.case sm_put_entries [OF assms] ..
  ultimately show ?thesis by simp
qed (simp add: mark_dirty_def)

lemma content_view:
  assumes "node_view (bg_nodes g') = node_view (bg_nodes g)"
  shows "node_content g' = node_content g" "named g' = named g"
proof -
  have "node_content h = snd ` node_view (bg_nodes h)" for h by (simp add: node_content_def node_view_def image_image)
  then show "node_content g' = node_content g" using assms by simp
  have "named h = (\<lambda>a n. (n, a) \<in> (\<lambda>v. (fst v, fst (snd v))) ` node_view (bg_nodes h))" for h
    by (intro ext) (force simp: named_def node_view_def)
  then show "named g' = named g" using assms by simp
qed

lemma put_edge_known:
  assumes inv: "graph_inv g" and room: "bg_next_edge g \<noteq> - 1" and known: "named g a f" "named g b t"
  obtains g' e where "put_edge g f t kind = (g', Inr e)" "graph_inv g'" "named g' = named g" "node_content g' = node_content g"
    "edge_content g' = insert (f, t, kind) (edge_content g)" "bg_next_edge g' = bg_next_edge g \<or> bg_next_edge g' = bg_next_edge g + 1"
proof -
  have con: "sm_contains (bg_nodes g) f" "sm_contains (bg_nodes g) t" using known named_contains by blast+
  have ok: "sm_ok (bg_nodes g)" "sm_ok (bg_edges g)" using inv by (simp_all add: graph_inv_def nodes_inv_def edges_inv_def)
  show ?thesis
  proof (cases "find (\<lambda>(eid, edge). de_from edge = f \<and> de_to edge = t \<and> de_kind edge = kind) (bg_edges g)")
    case (Some e)
    then have "snd e \<in> snd ` set (bg_edges g)" "edge_triple (snd e) = (f, t, kind)"
      using find_entry_Some [OF Some] by (auto simp: edge_triple_def split: prod.splits)
    then have "edge_content g = insert (f, t, kind) (edge_content g)" by (force simp: edge_content_def)
    then show ?thesis using that [of g "fst e"] Some con inv by (cases e) (simp add: put_edge_def)
  next
    case None
    let ?e = "\<lparr>de_id = Id (bg_next_edge g), de_generation = gen_next (bg_generation g), de_from = f, de_to = t, de_kind = kind\<rparr>"
    let ?g' = "fst (put_edge g f t kind)"
    have eq: "put_edge g f t kind = (?g', Inr (Id (bg_next_edge g)))" "bg_nodes ?g' = mark_dirty f (bg_nodes g)"
      "bg_edges ?g' = sm_put (Id (bg_next_edge g)) ?e (bg_edges g)" "bg_next_edge ?g' = bg_next_edge g + 1"
      using con None by (simp_all add: put_edge_def publish_generation_def Let_def)
    have "(Id (bg_next_edge g), w) \<notin> set (bg_edges g)" for w using inv unfolding graph_inv_def edges_inv_def by blast
    then have "\<not> sm_contains (bg_edges g) (Id (bg_next_edge g))" by (auto simp: sm_contains_iff)
    then have "set (bg_edges ?g') = insert (Id (bg_next_edge g), ?e) (set (bg_edges g))"
      unfolding eq(3) by (rule sm_put_fresh [OF ok(2)])
    then have "edge_content ?g' = insert (f, t, kind) (edge_content g)" by (simp add: edge_content_def edge_triple_def)
    then show ?thesis
      using that [OF eq(1) put_edge_inv [OF inv room]] content_view [of ?g' g] mark_dirty_view [OF ok(1), of f] eq(2,4) by simp
  qed
qed


section \<open>The loops\<close>

definition names_of :: "(string, NodeId) std_map \<Rightarrow> BuildGraph \<Rightarrow> bool" where
  "names_of names g \<longleftrightarrow> (\<forall>a n. sm_find names a = Some n \<longleftrightarrow> named g a n)"

lemma word_room: "unat (x :: u64) + k < 2 ^ 64 \<Longrightarrow> k \<noteq> 0 \<Longrightarrow> x \<noteq> - 1 \<and> unat (x + 1) = unat x + 1"
proof -
  assume k: "unat x + k < 2 ^ 64" "k \<noteq> 0"
  have "unat (- 1 :: u64) = 2 ^ 64 - 1" by (simp add: unat_max_word)
  then have "x \<noteq> - 1" using k by force
  moreover have "unat (x + 1) = unat x + 1" using k by (simp add: unat_word_ariths)
  ultimately show ?thesis by simp
qed

lemma apply_nodes_ok:
  "\<lbrakk>graph_inv (ws_graph ws); names_of names (ws_graph ws); distinct (map mn_name nds);
    list_all (\<lambda>nd. mn_name nd \<noteq> [] \<and> sm_find names (mn_name nd) = None) nds; unat (bg_next_node (ws_graph ws)) + length nds < 2 ^ 64\<rbrakk>
   \<Longrightarrow> \<exists>g' names'. apply_nodes ws names nds = (ws\<lparr>ws_graph := g'\<rparr>, Inr names') \<and> graph_inv g' \<and> names_of names' g' \<and>
         node_content g' = node_content (ws_graph ws) \<union> (\<lambda>nd. (mn_name nd, mn_action nd)) ` set nds \<and>
         bg_edges g' = bg_edges (ws_graph ws) \<and> bg_next_edge g' = bg_next_edge (ws_graph ws)"
proof (induction nds arbitrary: ws names)
  case Nil
  then show ?case by (intro exI [of _ "ws_graph ws"] exI [of _ names]) simp
next
  case (Cons nd nds)
  let ?g = "ws_graph ws"
  have none: "mn_name nd \<noteq> []" "sm_find names (mn_name nd) = None" using Cons.prems(4) by simp_all
  then have new: "\<not> named ?g (mn_name nd) n" for n using Cons.prems(2) by (metis names_of_def option.distinct(1))
  have room: "bg_next_node ?g \<noteq> - 1" "unat (bg_next_node ?g + 1) = unat (bg_next_node ?g) + 1"
    using word_room [of "bg_next_node ?g" "length (nd # nds)"] Cons.prems(5) by simp_all
  obtain g1 n where g1: "put_node ?g (mn_name nd) (mn_action nd) = (g1, Inr n)" "graph_inv g1" "bg_edges g1 = bg_edges ?g"
    "bg_next_node g1 = bg_next_node ?g + 1" "bg_next_edge g1 = bg_next_edge ?g"
    "node_content g1 = insert (mn_name nd, mn_action nd) (node_content ?g)"
    "\<And>a m. named g1 a m \<longleftrightarrow> a = mn_name nd \<and> m = n \<or> named ?g a m"
    using put_node_new [OF Cons.prems(1) room(1) none(1) new] by metis
  let ?names = "sm_put (mn_name nd) n names" and ?ws = "ws\<lparr>ws_graph := g1\<rparr>"
  have "names_of ?names g1" using Cons.prems(2) new by (auto simp: names_of_def g1(7))
  moreover have "list_all (\<lambda>nd. mn_name nd \<noteq> [] \<and> sm_find ?names (mn_name nd) = None) nds"
    using Cons.prems(3,4) by (auto simp: list_all_iff) (metis imageI)
  ultimately obtain g' names' where IH: "apply_nodes ?ws ?names nds = (?ws\<lparr>ws_graph := g'\<rparr>, Inr names')" "graph_inv g'" "names_of names' g'"
    "node_content g' = node_content g1 \<union> (\<lambda>nd. (mn_name nd, mn_action nd)) ` set nds" "bg_edges g' = bg_edges g1" "bg_next_edge g' = bg_next_edge g1"
    using Cons.IH [of ?ws ?names] Cons.prems(3,5) g1(2,4) room(2) by auto
  have "apply_nodes ws names (nd # nds) = (ws\<lparr>ws_graph := g'\<rparr>, Inr names')"
    using IH(1) g1(1) none by (simp add: ws_put_node_def map_emplace_def sm_contains_def)
  then show ?case using IH(2-6) g1(3,5,6) by auto
qed

lemma apply_edges_ok:
  "\<lbrakk>graph_inv (ws_graph ws); names_of names (ws_graph ws); unat (bg_next_edge (ws_graph ws)) + length es < 2 ^ 64;
    list_all (\<lambda>e. sm_contains names (me_from e) \<and> sm_contains names (me_to e)) es\<rbrakk>
   \<Longrightarrow> \<exists>g'. apply_edges ws names es = (ws\<lparr>ws_graph := g'\<rparr>, Inr ()) \<and> graph_inv g' \<and> named g' = named (ws_graph ws) \<and>
         node_content g' = node_content (ws_graph ws) \<and>
         edge_content g' = edge_content (ws_graph ws) \<union>
           {(f, t, k). \<exists>e \<in> set es. named (ws_graph ws) (me_from e) f \<and> named (ws_graph ws) (me_to e) t \<and> k = me_kind e}"
proof (induction es arbitrary: ws)
  case Nil
  then show ?case by (intro exI [of _ "ws_graph ws"]) simp
next
  case (Cons e es)
  let ?g = "ws_graph ws"
  obtain f t where ft: "sm_find names (me_from e) = Some f" "sm_find names (me_to e) = Some t"
    using Cons.prems(4) by (auto simp: sm_contains_def)
  then have named: "named ?g (me_from e) f" "named ?g (me_to e) t" using Cons.prems(2) by (simp_all add: names_of_def)
  have room: "bg_next_edge ?g \<noteq> - 1" "unat (bg_next_edge ?g + 1) = unat (bg_next_edge ?g) + 1"
    using word_room [of "bg_next_edge ?g" "length (e # es)"] Cons.prems(3) by simp_all
  obtain g1 i where g1: "put_edge ?g f t (me_kind e) = (g1, Inr i)" "graph_inv g1" "named g1 = named ?g" "node_content g1 = node_content ?g"
    "edge_content g1 = insert (f, t, me_kind e) (edge_content ?g)" "bg_next_edge g1 = bg_next_edge ?g \<or> bg_next_edge g1 = bg_next_edge ?g + 1"
    using put_edge_known [OF Cons.prems(1) room(1) named] by metis
  let ?ws = "ws\<lparr>ws_graph := g1\<rparr>"
  have "unat (bg_next_edge g1) + length es < 2 ^ 64" using g1(6) room(2) Cons.prems(3) by auto
  then obtain g' where IH: "apply_edges ?ws names es = (?ws\<lparr>ws_graph := g'\<rparr>, Inr ())" "graph_inv g'" "named g' = named g1"
    "node_content g' = node_content g1" "edge_content g' = edge_content g1 \<union>
      {(f, t, k). \<exists>e \<in> set es. named g1 (me_from e) f \<and> named g1 (me_to e) t \<and> k = me_kind e}"
    using Cons.IH [of ?ws] Cons.prems(2,4) g1(2,3) by (auto simp: names_of_def)
  have "apply_edges ws names (e # es) = (ws\<lparr>ws_graph := g'\<rparr>, Inr ())"
    using IH(1) g1(1) ft by (simp add: ws_put_edge_def)
  moreover have "edge_content g' = edge_content ?g \<union>
      {(f, t, k). \<exists>e \<in> set (e # es). named ?g (me_from e) f \<and> named ?g (me_to e) t \<and> k = me_kind e}"
    using named_unique(2) [OF Cons.prems(1)] named unfolding IH(5) g1(3,5) by auto
  ultimately show ?case using IH(2-4) g1(3,4) by auto
qed

lemma apply_edges_dangling:
  "\<lbrakk>graph_inv (ws_graph ws); names_of names (ws_graph ws); unat (bg_next_edge (ws_graph ws)) + length es < 2 ^ 64;
    \<not> list_all (\<lambda>e. sm_contains names (me_from e) \<and> sm_contains names (me_to e)) es\<rbrakk>
   \<Longrightarrow> snd (apply_edges ws names es) = Inl (manifest_error ec_graph_conflict ''edge references unknown node name'')"
proof (induction es arbitrary: ws)
  case (Cons e es)
  let ?g = "ws_graph ws"
  show ?case
  proof (cases "sm_contains names (me_from e) \<and> sm_contains names (me_to e)")
    case True
    then obtain f t where ft: "sm_find names (me_from e) = Some f" "sm_find names (me_to e) = Some t"
      by (auto simp: sm_contains_def)
    then have named: "named ?g (me_from e) f" "named ?g (me_to e) t" using Cons.prems(2) by (simp_all add: names_of_def)
    have room: "bg_next_edge ?g \<noteq> - 1" "unat (bg_next_edge ?g + 1) = unat (bg_next_edge ?g) + 1"
      using word_room [of "bg_next_edge ?g" "length (e # es)"] Cons.prems(3) by simp_all
    obtain g1 i where g1: "put_edge ?g f t (me_kind e) = (g1, Inr i)" "graph_inv g1" "named g1 = named ?g"
      "bg_next_edge g1 = bg_next_edge ?g \<or> bg_next_edge g1 = bg_next_edge ?g + 1"
      using put_edge_known [OF Cons.prems(1) room(1) named] by metis
    have "unat (bg_next_edge g1) + length es < 2 ^ 64" using g1(4) room(2) Cons.prems(3) by auto
    moreover have "names_of names g1" using Cons.prems(2) g1(3) by (simp add: names_of_def)
    ultimately have "snd (apply_edges (ws\<lparr>ws_graph := g1\<rparr>) names es) =
        Inl (manifest_error ec_graph_conflict ''edge references unknown node name'')"
      using Cons.IH [of "ws\<lparr>ws_graph := g1\<rparr>"] Cons.prems(4) g1(2) True by simp
    then show ?thesis using g1(1) ft by (simp add: ws_put_edge_def)
  next
    case False
    then show ?thesis by (auto simp: sm_contains_def split: option.split)
  qed
qed simp

lemma apply_targets_cases:
  "apply_targets names ts acc =
     (if list_all (sm_contains names) ts then Inr (acc @ map (\<lambda>t. the (sm_find names t)) ts)
      else Inl (manifest_error ec_graph_conflict ''target references unknown node name''))"
  by (induction names ts acc rule: apply_targets.induct) (auto simp: sm_contains_def split: option.split)


section \<open>The whole manifest\<close>

definition manifest_names :: "GraphManifest \<Rightarrow> string set" where
  "manifest_names m = mn_name ` set (gm_nodes m)"

definition edges_known :: "GraphManifest \<Rightarrow> bool" where
  "edges_known m \<longleftrightarrow> list_all (\<lambda>e. me_from e \<in> manifest_names m \<and> me_to e \<in> manifest_names m) (gm_edges m)"

definition targets_known :: "GraphManifest \<Rightarrow> bool" where
  "targets_known m \<longleftrightarrow> list_all (\<lambda>t. t \<in> manifest_names m) (gm_targets m)"

definition manifest_targets :: "GraphManifest \<Rightarrow> string list" where
  "manifest_targets m = (if gm_targets m = [] then [mn_name (last (gm_nodes m))] else gm_targets m)"

definition manifest_depends :: "GraphManifest \<Rightarrow> (string \<times> string) set" where
  "manifest_depends m = (\<lambda>e. (me_from e, me_to e)) ` set (gm_edges m)"

lemma named_content: "(\<exists>n. named g a n) \<longleftrightarrow> a \<in> fst ` node_content g"
  by (force simp: named_def node_content_def)

lemma new_workspace_graph [simp]: "ws_graph (new_workspace relative) = new_graph"
  by (simp add: new_workspace_def)

lemma apply_nodes_fresh:
  assumes "manifest_ok m" "length (gm_nodes m) < 2 ^ 64 - 1"
  obtains g names where "apply_nodes (new_workspace relative) [] (gm_nodes m) = ((new_workspace relative)\<lparr>ws_graph := g\<rparr>, Inr names)"
    "graph_inv g" "names_of names g" "node_content g = (\<lambda>nd. (mn_name nd, mn_action nd)) ` set (gm_nodes m)"
    "bg_edges g = []" "bg_next_edge g = 1" "\<forall>a. sm_contains names a \<longleftrightarrow> a \<in> manifest_names m"
proof -
  have "list_all (\<lambda>nd. mn_name nd \<noteq> []) (gm_nodes m)"
    using assms(1) by (auto simp: manifest_ok_def node_ok_def token_ok_def word_ok_def list_all_iff)
  moreover have "names_of [] new_graph" "node_content new_graph = {}"
    by (simp_all add: names_of_def named_def node_content_def new_graph_def)
  ultimately obtain g names where g: "apply_nodes (new_workspace relative) [] (gm_nodes m) = ((new_workspace relative)\<lparr>ws_graph := g\<rparr>, Inr names)"
    "graph_inv g" "names_of names g" "node_content g = (\<lambda>nd. (mn_name nd, mn_action nd)) ` set (gm_nodes m)"
    "bg_edges g = []" "bg_next_edge g = 1"
    using apply_nodes_ok [of "new_workspace relative" "[]" "gm_nodes m"] assms new_graph_inv
    by (auto simp: manifest_ok_def new_graph_def)
  have "sm_contains names a \<longleftrightarrow> (\<exists>n. named g a n)" for a using g(3) by (auto simp: names_of_def sm_contains_def)
  then have "sm_contains names a \<longleftrightarrow> a \<in> manifest_names m" for a
    unfolding named_content g(4) manifest_names_def by (simp add: image_image)
  then show ?thesis using that g by blast
qed

lemma name_edges_applied:
  assumes "graph_inv h" "names_of names h" "edges_known m" "\<forall>a. sm_contains names a \<longleftrightarrow> a \<in> manifest_names m"
    and edges: "edge_content h = {(f, t, k). \<exists>e \<in> set (gm_edges m). named h (me_from e) f \<and> named h (me_to e) t \<and> k = me_kind e}"
  shows "name_edges h = (\<lambda>e. (me_from e, me_to e, me_kind e)) ` set (gm_edges m)"
proof -
  have "(a, b, k) \<in> name_edges h \<longleftrightarrow> (\<exists>e \<in> set (gm_edges m). (a, b, k) = (me_from e, me_to e, me_kind e))" for a b k
  proof
    assume "(a, b, k) \<in> name_edges h"
    then obtain f t e where e: "e \<in> set (gm_edges m)" "named h (me_from e) f" "named h (me_to e) t" "k = me_kind e"
      "named h a f" "named h b t" by (auto simp: name_edges_def edges)
    then have "a = me_from e" "b = me_to e" using named_unique(1) [OF assms(1)] by blast+
    then show "\<exists>e \<in> set (gm_edges m). (a, b, k) = (me_from e, me_to e, me_kind e)" using e by auto
  next
    assume "\<exists>e \<in> set (gm_edges m). (a, b, k) = (me_from e, me_to e, me_kind e)"
    then obtain e where e: "e \<in> set (gm_edges m)" "a = me_from e" "b = me_to e" "k = me_kind e" by auto
    then have "sm_contains names a" "sm_contains names b" using assms(3,4) by (auto simp: edges_known_def list_all_iff)
    then obtain f t where "named h a f" "named h b t" using assms(2) by (auto simp: sm_contains_def names_of_def)
    then show "(a, b, k) \<in> name_edges h" using e by (auto simp: name_edges_def edges)
  qed
  then show ?thesis by (auto simp: image_iff)
qed

lemma targets_applied:
  assumes "names_of names h" "manifest_ok m" "targets_known m" "\<forall>a. sm_contains names a \<longleftrightarrow> a \<in> manifest_names m"
  shows "list_all (sm_contains names) (manifest_targets m)"
    "list_all2 (named h) (manifest_targets m) (map (\<lambda>t. the (sm_find names t)) (manifest_targets m))"
proof -
  show all: "list_all (sm_contains names) (manifest_targets m)"
    using assms(2-4) by (auto simp: manifest_targets_def targets_known_def manifest_names_def manifest_ok_def list_all_iff)
  have "named h t (the (sm_find names t))" if "t \<in> set (manifest_targets m)" for t
    using that all assms(1) unfolding list_all_iff sm_contains_def names_of_def by (metis option.exhaust_sel)
  then show "list_all2 (named h) (manifest_targets m) (map (\<lambda>t. the (sm_find names t)) (manifest_targets m))"
    unfolding list_all2_map2 by (rule list.rel_refl_strong)
qed

lemma apply_manifest_graph:
  assumes "manifest_ok m" "edges_known m" "targets_known m" "length (gm_nodes m) < 2 ^ 64 - 1" "length (gm_edges m) < 2 ^ 64 - 1"
  shows "\<exists>g am. apply_manifest (new_workspace relative) m = Some ((new_workspace relative)\<lparr>ws_graph := g\<rparr>, Inr am) \<and> graph_inv g \<and>
    node_content g = (\<lambda>nd. (mn_name nd, mn_action nd)) ` set (gm_nodes m) \<and>
    name_edges g = (\<lambda>e. (me_from e, me_to e, me_kind e)) ` set (gm_edges m) \<and>
    names_of (am_nodes_by_name am) g \<and> list_all2 (named g) (manifest_targets m) (am_targets am)"
proof -
  let ?w = "new_workspace relative"
  obtain g names where g: "apply_nodes ?w [] (gm_nodes m) = (?w\<lparr>ws_graph := g\<rparr>, Inr names)"
    "graph_inv g" "names_of names g" "node_content g = (\<lambda>nd. (mn_name nd, mn_action nd)) ` set (gm_nodes m)"
    "bg_edges g = []" "bg_next_edge g = 1" "\<forall>a. sm_contains names a \<longleftrightarrow> a \<in> manifest_names m"
    by (rule apply_nodes_fresh [OF assms(1,4), of relative])
  have "list_all (\<lambda>e. sm_contains names (me_from e) \<and> sm_contains names (me_to e)) (gm_edges m)"
    using assms(2) by (simp add: g(7) edges_known_def)
  then obtain h where h: "apply_edges (?w\<lparr>ws_graph := g\<rparr>) names (gm_edges m) = (?w\<lparr>ws_graph := h\<rparr>, Inr ())" "graph_inv h" "named h = named g"
    "node_content h = node_content g" "edge_content h = edge_content g \<union>
      {(f, t, k). \<exists>e \<in> set (gm_edges m). named g (me_from e) f \<and> named g (me_to e) t \<and> k = me_kind e}"
    using apply_edges_ok [of "?w\<lparr>ws_graph := g\<rparr>" names "gm_edges m"] g(2,3,6) assms(5) by auto
  have names: "names_of names h" using g(3) h(3) by (simp add: names_of_def)
  have "name_edges h = (\<lambda>e. (me_from e, me_to e, me_kind e)) ` set (gm_edges m)"
    using h(3,5) by (intro name_edges_applied [OF h(2) names assms(2) g(7)]) (auto simp: edge_content_def [of g] g(5))
  moreover note targets = targets_applied [OF names assms(1,3) g(7)]
  have "apply_manifest ?w m = Some (?w\<lparr>ws_graph := h\<rparr>, Inr \<lparr>am_nodes_by_name = names, am_targets = map (\<lambda>t. the (sm_find names t)) (manifest_targets m)\<rparr>)"
    using g(1) h(1) assms(1) targets(1)
    by (cases "gm_targets m = []") (auto simp: apply_manifest_def manifest_targets_def apply_targets_cases manifest_ok_def sm_contains_def)
  ultimately show ?thesis using h(2,4) g(4) names targets(2) by auto
qed

lemma apply_manifest_unknown:
  assumes "manifest_ok m" "\<not> (edges_known m \<and> targets_known m)" "length (gm_nodes m) < 2 ^ 64 - 1" "length (gm_edges m) < 2 ^ 64 - 1"
  shows "\<exists>ws. apply_manifest (new_workspace relative) m = Some (ws, Inl (manifest_error ec_graph_conflict
    (if edges_known m then ''target references unknown node name'' else ''edge references unknown node name'')))"
proof -
  let ?w = "new_workspace relative"
  obtain g names where g: "apply_nodes ?w [] (gm_nodes m) = (?w\<lparr>ws_graph := g\<rparr>, Inr names)"
    "graph_inv g" "names_of names g" "node_content g = (\<lambda>nd. (mn_name nd, mn_action nd)) ` set (gm_nodes m)"
    "bg_edges g = []" "bg_next_edge g = 1" "\<forall>a. sm_contains names a \<longleftrightarrow> a \<in> manifest_names m"
    by (rule apply_nodes_fresh [OF assms(1,3), of relative])
  have room: "unat (bg_next_edge g) + length (gm_edges m) < 2 ^ 64" using g(6) assms(4) by simp
  show ?thesis
  proof (cases "edges_known m")
    case True
    then have "list_all (\<lambda>e. sm_contains names (me_from e) \<and> sm_contains names (me_to e)) (gm_edges m)"
      by (simp add: g(7) edges_known_def)
    then obtain h where "apply_edges (?w\<lparr>ws_graph := g\<rparr>) names (gm_edges m) = (?w\<lparr>ws_graph := h\<rparr>, Inr ())"
      using apply_edges_ok [of "?w\<lparr>ws_graph := g\<rparr>" names "gm_edges m"] g(2,3) room by auto
    moreover have "\<not> list_all (sm_contains names) (gm_targets m)" using True assms(2) by (simp add: g(7) targets_known_def list_all_iff)
    ultimately show ?thesis using True g(1) by (simp add: apply_manifest_def apply_targets_cases)
  next
    case False
    then have "\<not> list_all (\<lambda>e. sm_contains names (me_from e) \<and> sm_contains names (me_to e)) (gm_edges m)"
      by (simp add: g(7) edges_known_def)
    then have "snd (apply_edges (?w\<lparr>ws_graph := g\<rparr>) names (gm_edges m)) =
        Inl (manifest_error ec_graph_conflict ''edge references unknown node name'')"
      using g(2,3) room by (intro apply_edges_dangling) simp_all
    then show ?thesis using False g(1) by (cases "apply_edges (?w\<lparr>ws_graph := g\<rparr>) names (gm_edges m)") (simp add: apply_manifest_def)
  qed
qed


section \<open>Dependencies\<close>

text \<open>The dependency relation of the graph and that of the manifest are cyclic together.\<close>

lemma trancl_map_rel:
  assumes "\<And>x y. (x, y) \<in> r \<Longrightarrow> (f x, f y) \<in> s" "(x, y) \<in> r\<^sup>+"
  shows "(f x, f y) \<in> s\<^sup>+"
  using assms(2)
proof (induction rule: trancl_induct)
  case (step y z)
  then show ?case using assms(1) [of y z] by (meson trancl_into_trancl)
qed (use assms(1) in blast)

lemma acyclic_map_rel: "\<lbrakk>\<And>x y. (x, y) \<in> r \<Longrightarrow> (f x, f y) \<in> s; acyclic s\<rbrakk> \<Longrightarrow> acyclic r"
  unfolding acyclic_def using trancl_map_rel [of r f s] by blast

lemma depends_edge_content: "(f, t) \<in> depends (bg_edges g) \<longleftrightarrow> (\<exists>k. (f, t, k) \<in> edge_content g)"
  by (force simp: depends_def edge_content_def edge_triple_def)

lemma manifest_acyclic:
  assumes "graph_inv g" "name_edges g = (\<lambda>e. (me_from e, me_to e, me_kind e)) ` set (gm_edges m)"
  shows "acyclic (depends (bg_edges g)) \<longleftrightarrow> acyclic (manifest_depends m)"
proof
  define name_of where "name_of n = (SOME a. named g a n)" for n
  have name: "name_of n = a" if "named g a n" for a n
    using named_unique(1) [OF assms(1)] that unfolding name_of_def by (metis someI)
  have known: "\<exists>a b. named g a f \<and> named g b t" if "(f, t) \<in> depends (bg_edges g)" for f t
    using depends_nodes [OF assms(1) that] named_contains [of g f] named_contains [of g t]
    by (auto simp: sm_contains_iff sm_keys_def)
  show "acyclic (depends (bg_edges g))" if "acyclic (manifest_depends m)"
  proof (rule acyclic_map_rel [of _ name_of, OF _ that])
    fix f t
    assume d: "(f, t) \<in> depends (bg_edges g)"
    then obtain k a b where "(f, t, k) \<in> edge_content g" "named g a f" "named g b t"
      using known depends_edge_content by blast
    then have "(a, b, k) \<in> name_edges g" "name_of f = a" "name_of t = b" using name by (auto simp: name_edges_def)
    then show "(name_of f, name_of t) \<in> manifest_depends m" unfolding assms(2) by (auto simp: manifest_depends_def)
  qed
  define id_of where "id_of a = (SOME n. named g a n)" for a
  have id: "id_of a = n" if "named g a n" for a n
    using named_unique(2) [OF assms(1)] that unfolding id_of_def by (metis someI)
  show "acyclic (manifest_depends m)" if "acyclic (depends (bg_edges g))"
  proof (rule acyclic_map_rel [of _ id_of, OF _ that])
    fix a b
    assume "(a, b) \<in> manifest_depends m"
    then obtain k where "(a, b, k) \<in> name_edges g" unfolding assms(2) by (force simp: manifest_depends_def)
    then show "(id_of a, id_of b) \<in> depends (bg_edges g)"
      using id by (auto simp: name_edges_def depends_edge_content)
  qed
qed


section \<open>Properties\<close>

text \<open>
  C12. Applying a well-formed manifest to a fresh workspace builds its graph: if all edges and
  targets refer to nodes, it succeeds, the nodes of the graph are the manifest's names and actions,
  its edges are the manifest's edges, and the targets are the nodes of the listed names, or the
  last node when none is listed. Nothing else of the workspace changes.
\<close>

theorem manifest_applied:
  assumes "manifest_ok m" "edges_known m" "targets_known m" "length (gm_nodes m) < 2 ^ 64 - 1" "length (gm_edges m) < 2 ^ 64 - 1"
  shows "\<exists>g am. apply_manifest (new_workspace relative) m = Some ((new_workspace relative)\<lparr>ws_graph := g\<rparr>, Inr am) \<and> graph_inv g \<and>
    node_content g = (\<lambda>nd. (mn_name nd, mn_action nd)) ` set (gm_nodes m) \<and>
    name_edges g = (\<lambda>e. (me_from e, me_to e, me_kind e)) ` set (gm_edges m) \<and>
    list_all2 (named g) (manifest_targets m) (am_targets am)"
  using apply_manifest_graph [OF assms, of relative] by blast

definition demo_manifest :: GraphManifest where
  "demo_manifest = \<lparr>gm_nodes = [\<lparr>mn_name = ''lib'', mn_action = \<lparr>as_command = ''cc'', as_options = [(''mode'', ''debug'')]\<rparr>\<rparr>,
       \<lparr>mn_name = ''app'', mn_action = \<lparr>as_command = ''ld'', as_options = []\<rparr>\<rparr>],
     gm_edges = [\<lparr>me_from = ''app'', me_to = ''lib'', me_kind = ek_declared\<rparr>], gm_targets = []\<rparr>"

lemma demo_manifest_ok: "manifest_ok demo_manifest" "edges_known demo_manifest" "targets_known demo_manifest"
  by code_simp+

theorem manifest_applied_witness:
  "\<exists>g am. apply_manifest (new_workspace (\<lambda>p. p)) demo_manifest = Some ((new_workspace (\<lambda>p. p))\<lparr>ws_graph := g\<rparr>, Inr am) \<and>
     name_edges g = {(''app'', ''lib'', ek_declared)} \<and> list_all2 (named g) [''app''] (am_targets am)"
proof -
  have "length (gm_nodes demo_manifest) = 2" "length (gm_edges demo_manifest) = 1"
    "(\<lambda>e. (me_from e, me_to e, me_kind e)) ` set (gm_edges demo_manifest) = {(''app'', ''lib'', ek_declared)}"
    "manifest_targets demo_manifest = [''app'']"
    by (simp_all add: demo_manifest_def manifest_targets_def)
  then show ?thesis using manifest_applied [OF demo_manifest_ok, of "\<lambda>p. p"] by auto
qed

end
