(* ===== verification/Forge_Fipc.thy ===== *)
theory Forge_Fipc
  imports Forge_Framing
begin

text \<open>
  The FIPC-1 frame codec: \<^verbatim>\<open>src/ipc/fipc_codec.cpp\<close> and the frame types of
  \<^verbatim>\<open>include/forge/fipc.hpp\<close>. A codec keeps the bytes received so far and a closed flag;
  \<open>codec_feed\<close> appends a chunk and returns at most one frame. The lemmas show that the
  decoder accepts exactly the images of the encoder, that it does not look past the frame it
  returns, and that no frame damaged within four consecutive bytes (of the header and checksums, or
  of the payload) is ever returned.
\<close>

unbundle bit_operations_syntax

section \<open>Definitions\<close>

text \<open>\<open>FrameType\<close> has the fixed underlying type \<open>uint16_t\<close>: every 16-bit value is a value of it.\<close>

type_synonym FrameType = u16

abbreviation ft_hello :: FrameType where "ft_hello \<equiv> 0x0001"
abbreviation ft_welcome :: FrameType where "ft_welcome \<equiv> 0x0002"
abbreviation ft_open_stream :: FrameType where "ft_open_stream \<equiv> 0x0010"
abbreviation ft_credit :: FrameType where "ft_credit \<equiv> 0x0011"
abbreviation ft_close_stream :: FrameType where "ft_close_stream \<equiv> 0x0012"
abbreviation ft_build_request :: FrameType where "ft_build_request \<equiv> 0x0030"
abbreviation ft_status_event :: FrameType where "ft_status_event \<equiv> 0x0040"

record FipcFrame =
  fr_type :: FrameType
  fr_flags :: u16
  fr_stream_id :: u32
  fr_stream_generation :: u32
  fr_sequence :: u64
  fr_request_token :: u64
  fr_payload :: Bytes

datatype DecodeState = ds_need_more | ds_frame | ds_closed

record DecodeResult =
  dr_state :: DecodeState
  dr_frame :: "FipcFrame option"
  dr_diagnostic :: Status

record FipcCodec =
  cd_limits :: Limits
  cd_buffer :: Bytes
  cd_closed :: bool

definition new_codec :: "Limits \<Rightarrow> FipcCodec" where
  "new_codec lim = \<lparr>cd_limits = lim, cd_buffer = [], cd_closed = False\<rparr>"

definition protocol_error :: "string \<Rightarrow> Status" where
  "protocol_error msg = error ec_protocol ''fipc'' msg"

definition kFrameHeaderSize :: nat where
  "kFrameHeaderSize = 40"

definition codec_encode :: "FipcFrame \<Rightarrow> Bytes" where
  "codec_encode f =
     (let frame_len = of_nat (kFrameHeaderSize + length (fr_payload f)) :: u32;
          out = append_u32_le [] frame_len;
          out = append_u16_le out (fr_type f);
          out = append_u16_le out (fr_flags f);
          out = append_u32_le out (fr_stream_id f);
          out = append_u32_le out (fr_stream_generation f);
          out = append_u64_le out (fr_sequence f);
          out = append_u64_le out (fr_request_token f);
          out = append_u32_le out 0;
          out = append_u32_le out (crc32c (fr_payload f));
          header_crc = crc32c (take (kFrameHeaderSize - 8) out);
          out = out[32 := ucast (header_crc AND 0xff)];
          out = out[33 := ucast (drop_bit 8 header_crc AND 0xff)];
          out = out[34 := ucast (drop_bit 16 header_crc AND 0xff)];
          out = out[35 := ucast (drop_bit 24 header_crc AND 0xff)]
      in out @ fr_payload f)"

definition need_more :: DecodeResult where
  "need_more = \<lparr>dr_state = ds_need_more, dr_frame = None, dr_diagnostic = success\<rparr>"

definition closed_with :: "string \<Rightarrow> DecodeResult" where
  "closed_with msg = \<lparr>dr_state = ds_closed, dr_frame = None, dr_diagnostic = protocol_error msg\<rparr>"

definition frame_result :: "FipcFrame \<Rightarrow> DecodeResult" where
  "frame_result f = \<lparr>dr_state = ds_frame, dr_frame = Some f, dr_diagnostic = success\<rparr>"

text \<open>
  The part of \<open>feed\<close> after the chunk has been appended to the buffer. A \<open>Result\<close> that is
  dereferenced with \<open>.value()\<close> is read with \<open>projr\<close>: the length test before it makes the read succeed.
\<close>

definition codec_scan :: "FipcCodec \<Rightarrow> FipcCodec \<times> DecodeResult" where
  "codec_scan c =
     (let buf = cd_buffer c in
      if length buf < kFrameHeaderSize then (c, need_more)
      else case read_u32_le buf 0 of
        Inl st \<Rightarrow> (c, \<lparr>dr_state = ds_need_more, dr_frame = None, dr_diagnostic = st\<rparr>)
      | Inr frame_len \<Rightarrow>
          if unat frame_len < kFrameHeaderSize \<or> max_frame_bytes (cd_limits c) < frame_len
          then (c\<lparr>cd_closed := True\<rparr>, closed_with ''invalid frame length'')
          else if length buf < unat frame_len then (c, need_more)
          else
            let header = take kFrameHeaderSize buf;
                expected_header_crc = projr (read_u32_le header 32);
                header = header[32 := 0, 33 := 0, 34 := 0, 35 := 0]
            in if crc32c (take (kFrameHeaderSize - 8) header) \<noteq> expected_header_crc
               then (c\<lparr>cd_closed := True\<rparr>, closed_with ''header crc mismatch'')
               else
                 let frame = \<lparr>fr_type = projr (read_u16_le buf 4),
                       fr_flags = projr (read_u16_le buf 6),
                       fr_stream_id = projr (read_u32_le buf 8),
                       fr_stream_generation = projr (read_u32_le buf 12),
                       fr_sequence = projr (read_u64_le buf 16),
                       fr_request_token = projr (read_u64_le buf 24),
                       fr_payload = drop kFrameHeaderSize (take (unat frame_len) buf)\<rparr>;
                     payload_crc = projr (read_u32_le buf 36)
                 in if unat (max_payload_bytes (cd_limits c)) < length (fr_payload frame) \<or>
                       crc32c (fr_payload frame) \<noteq> payload_crc
                    then (c\<lparr>cd_closed := True\<rparr>, closed_with ''payload crc mismatch'')
                    else (c\<lparr>cd_buffer := drop (unat frame_len) buf\<rparr>, frame_result frame))"

definition codec_feed :: "FipcCodec \<Rightarrow> Bytes \<Rightarrow> FipcCodec \<times> DecodeResult" where
  "codec_feed c data =
     (let limit = unat (max_single_allocation (cd_limits c)) in
      if cd_closed c then (c, closed_with ''session already closed'')
      else if limit < length data \<or> limit - length data < length (cd_buffer c)
      then (c\<lparr>cd_closed := True\<rparr>, closed_with ''connection buffer limit exceeded'')
      else codec_scan (if data \<noteq> [] then c\<lparr>cd_buffer := cd_buffer c @ data\<rparr> else c))"

definition codec_eof :: "FipcCodec \<Rightarrow> FipcCodec \<times> DecodeResult" where
  "codec_eof c =
     (if cd_buffer c \<noteq> [] then (c\<lparr>cd_closed := True\<rparr>, closed_with ''truncated frame at eof'')
      else (c\<lparr>cd_closed := True\<rparr>,
            \<lparr>dr_state = ds_closed, dr_frame = None, dr_diagnostic = success\<rparr>))"

definition codec_buffered :: "FipcCodec \<Rightarrow> nat" where
  "codec_buffered c = length (cd_buffer c)"

section \<open>The decoder accepts exactly what the encoder writes\<close>

definition frame_len :: "FipcFrame \<Rightarrow> u32" where
  "frame_len f = of_nat (kFrameHeaderSize + length (fr_payload f))"

definition fipc_header :: "FipcFrame \<Rightarrow> Bytes" where
  "fipc_header f = le32 (frame_len f) @ le16 (fr_type f) @ le16 (fr_flags f) @ le32 (fr_stream_id f) @
     le32 (fr_stream_generation f) @ le64 (fr_sequence f) @ le64 (fr_request_token f)"

lemma length_fipc_header [simp]: "length (fipc_header f) = 32"
  by (simp add: fipc_header_def)

lemma codec_encode_eq:
  "codec_encode f = fipc_header f @ le32 (crc32c (fipc_header f)) @ le32 (crc32c (fr_payload f)) @ fr_payload f"
proof -
  let ?H = "fipc_header f" and ?P = "le32 (crc32c (fr_payload f))"
  have out: "le32 (of_nat (kFrameHeaderSize + length (fr_payload f))) @ le16 (fr_type f) @ le16 (fr_flags f) @
     le32 (fr_stream_id f) @ le32 (fr_stream_generation f) @ le64 (fr_sequence f) @
     le64 (fr_request_token f) @ le32 0 @ ?P = ?H @ le32 0 @ ?P"
    by (simp add: fipc_header_def frame_len_def)
  have crc: "crc32c (take (kFrameHeaderSize - 8) (?H @ le32 0 @ ?P)) = crc32c ?H"
    by (simp add: kFrameHeaderSize_def)
  show ?thesis
    unfolding codec_encode_def Let_def append_le append_assoc append_Nil out crc
    by (simp only: patch_header [OF length_fipc_header] append_assoc)
qed
lemma length_codec_encode [simp]: "length (codec_encode f) = 40 + length (fr_payload f)"
  by (simp add: codec_encode_eq)


definition frame_fits :: "Limits \<Rightarrow> FipcFrame \<Rightarrow> bool" where
  "frame_fits lim f \<longleftrightarrow> 40 + length (fr_payload f) \<le> unat (max_frame_bytes lim) \<and>
     length (fr_payload f) \<le> unat (max_payload_bytes lim)"

lemma unat_frame_len:
  assumes "40 + length (fr_payload f) \<le> unat (m :: u32)"
  shows "unat (frame_len f) = 40 + length (fr_payload f)"
proof -
  have "40 + length (fr_payload f) < 2 ^ LENGTH(32)"
    using assms unsigned_less [of m, where 'a = nat] by (rule order_le_less_trans)
  then show ?thesis unfolding frame_len_def kFrameHeaderSize_def unat_of_nat by (rule mod_less)
qed

text \<open>What a scan reads when the buffer starts with a whole encoded frame.\<close>

lemma scan_encode:
  assumes "cd_buffer c = codec_encode f @ rest" "frame_fits (cd_limits c) f"
  shows "codec_scan c = (c\<lparr>cd_buffer := rest\<rparr>, frame_result f)"
proof -
  have len: "unat (frame_len f) = 40 + length (fr_payload f)" "frame_len f \<le> max_frame_bytes (cd_limits c)"
    using assms(2) unat_frame_len by (auto simp: frame_fits_def word_le_nat_alt)
  have hd: "read_u32_le (codec_encode f @ rest) 0 = Inr (frame_len f)"
    "read_u16_le (codec_encode f @ rest) 4 = Inr (fr_type f)"
    "read_u16_le (codec_encode f @ rest) 6 = Inr (fr_flags f)"
    "read_u32_le (codec_encode f @ rest) 8 = Inr (fr_stream_id f)"
    "read_u32_le (codec_encode f @ rest) 12 = Inr (fr_stream_generation f)"
    "read_u64_le (codec_encode f @ rest) 16 = Inr (fr_sequence f)"
    "read_u64_le (codec_encode f @ rest) 24 = Inr (fr_request_token f)"
    "read_u32_le (codec_encode f @ rest) 36 = Inr (crc32c (fr_payload f))"
    by (simp_all add: codec_encode_eq fipc_header_def read_fields)
  have crc: "read_u32_le (take 40 (codec_encode f @ rest)) 32 = Inr (crc32c (fipc_header f))"
    by (simp add: codec_encode_eq read_fields)
  have hdr: "take 32 (codec_encode f @ rest) = fipc_header f"
    by (simp add: codec_encode_eq)
  have pay: "drop 40 (take (40 + length (fr_payload f)) (codec_encode f @ rest)) = fr_payload f"
    by (simp add: codec_encode_eq)
  have eta: "\<lparr>fr_type = fr_type f, fr_flags = fr_flags f, fr_stream_id = fr_stream_id f,
      fr_stream_generation = fr_stream_generation f, fr_sequence = fr_sequence f,
      fr_request_token = fr_request_token f, fr_payload = fr_payload f\<rparr> = f" by (cases f) simp
  have rst: "drop (40 + length (fr_payload f)) (codec_encode f @ rest) = rest" by simp
  show ?thesis
    using assms(2) len
    by (simp add: codec_scan_def rst eta Let_def assms(1) kFrameHeaderSize_def hd crc take_cleared_header hdr pay
        frame_fits_def linorder_not_less del: take_append drop_append)
qed

lemma scan_sound:
  assumes "codec_scan c = (c', r)" "dr_state r = ds_frame"
  obtains f rest where "r = frame_result f" "cd_buffer c = codec_encode f @ rest"
    "c' = c\<lparr>cd_buffer := rest\<rparr>" "frame_fits (cd_limits c) f"
proof -
  define buf where "buf = cd_buffer c"
  from assms have l40: "40 \<le> length buf"
    by (auto simp: codec_scan_def Let_def kFrameHeaderSize_def need_more_def buf_def split: if_splits)
  then obtain n where n: "read_u32_le buf 0 = Inr n" using read_le_total(2) [of 0 buf] by auto
  obtain ty where ty: "read_u16_le buf 4 = Inr ty" using l40 read_le_total(1) [of 4 buf] by auto
  obtain fl where fl: "read_u16_le buf 6 = Inr fl" using l40 read_le_total(1) [of 6 buf] by auto
  obtain si where si: "read_u32_le buf 8 = Inr si" using l40 read_le_total(2) [of 8 buf] by auto
  obtain sg where sg: "read_u32_le buf 12 = Inr sg" using l40 read_le_total(2) [of 12 buf] by auto
  obtain sq where sq: "read_u64_le buf 16 = Inr sq" using l40 read_le_total(3) [of 16 buf] by auto
  obtain tk where tk: "read_u64_le buf 24 = Inr tk" using l40 read_le_total(3) [of 24 buf] by auto
  obtain hc where hc: "read_u32_le buf 32 = Inr hc" using l40 read_le_total(2) [of 32 buf] by auto
  obtain pc where pc: "read_u32_le buf 36 = Inr pc" using l40 read_le_total(2) [of 36 buf] by auto
  let ?p = "drop 40 (take (unat n) buf)"
  let ?f = "\<lparr>fr_type = ty, fr_flags = fl, fr_stream_id = si, fr_stream_generation = sg,
     fr_sequence = sq, fr_request_token = tk, fr_payload = ?p\<rparr>"
  have hc': "read_u32_le (take 40 buf) 32 = Inr hc" using hc l40 by (simp add: read_le_take)
  have main: "40 \<le> unat n" "n \<le> max_frame_bytes (cd_limits c)" "unat n \<le> length buf"
     "crc32c (take 32 buf) = hc" "length ?p \<le> unat (max_payload_bytes (cd_limits c))" "crc32c ?p = pc"
     "c' = c\<lparr>cd_buffer := drop (unat n) buf\<rparr>" "r = frame_result ?f"
    using assms l40 ty fl si sg sq tk pc hc'
    by (auto simp: codec_scan_def Let_def kFrameHeaderSize_def n need_more_def closed_with_def
        take_cleared_header buf_def [symmetric] split: if_splits)
  have flen: "frame_len ?f = n"
    using main(1,3) by (simp add: frame_len_def kFrameHeaderSize_def)
  have "take 32 buf = take 4 buf @ take 2 (drop 4 buf) @ take 2 (drop 6 buf) @ take 4 (drop 8 buf) @
      take 4 (drop 12 buf) @ take 8 (drop 16 buf) @ take 8 (drop 24 buf)"
    using take_add [of 4 28 buf] take_add [of 2 26 "drop 4 buf"] take_add [of 2 24 "drop 6 buf"] take_add [of 4 20 "drop 8 buf"]
      take_add [of 4 16 "drop 12 buf"] take_add [of 8 8 "drop 16 buf"] by simp
  then have hdr: "take 32 buf = fipc_header ?f"
    using n ty fl si sg sq tk by (simp add: fipc_header_def flen read_u16_inverse read_u32_inverse read_u64_inverse)
  have "drop 40 (take (unat n) buf @ drop (unat n) buf) = ?p @ drop (unat n) buf"
    using main(1,3) by (subst drop_append) simp
  then have body: "drop 40 buf = ?p @ drop (unat n) buf" by simp
  have "buf = codec_encode ?f @ drop (unat n) buf"
    apply (subst header_split [of buf])
    using main(1,3) read_u32_inverse [OF hc] read_u32_inverse [OF pc] main(4,6)
    by (simp add: codec_encode_eq hdr body)
  then show ?thesis
    using main by (intro that [of ?f "drop (unat n) buf"]) (auto simp: buf_def frame_fits_def word_le_nat_alt)
qed

section \<open>Scanning is monotone in the buffer\<close>

lemma scan_need_more: "codec_scan c = (c', r) \<Longrightarrow> dr_state r = ds_need_more \<Longrightarrow> c' = c"
  by (auto simp: codec_scan_def Let_def closed_with_def frame_result_def split: if_splits sum.splits)

lemma scan_closed:
  "codec_scan c = (c', r) \<Longrightarrow> dr_state r = ds_closed \<Longrightarrow>
     c' = c\<lparr>cd_closed := True\<rparr> \<and> dr_frame r = None \<and> code (dr_diagnostic r) = ec_protocol"
  by (auto simp: codec_scan_def Let_def closed_with_def frame_result_def need_more_def protocol_error_def
      split: if_splits sum.splits)

lemma scan_extend:
  assumes scan: "codec_scan c = (c', r)" and "dr_state r \<noteq> ds_need_more"
  shows "codec_scan (c\<lparr>cd_buffer := cd_buffer c @ x\<rparr>) = (c'\<lparr>cd_buffer := cd_buffer c' @ x\<rparr>, r)"
proof (cases "dr_state r")
  case ds_frame
  then show ?thesis
    using scan by (auto elim!: scan_sound simp: scan_encode)
next
  case ds_closed
  let ?buf = "cd_buffer c"
  have l40: "40 \<le> length ?buf"
    using assms by (auto simp: codec_scan_def Let_def kFrameHeaderSize_def need_more_def split: if_splits)
  then obtain n where n: "read_u32_le ?buf 0 = Inr n" using read_le_total(2) [of 0 ?buf] by auto
  have same: "read_u32_le (?buf @ x) 0 = Inr n" "read_u32_le (?buf @ x) 36 = read_u32_le ?buf 36"
    "take 40 (?buf @ x) = take 40 ?buf"
    using l40 n by (simp_all add: read_le_extend)
  show ?thesis
  proof (cases "unat n < 40 \<or> max_frame_bytes (cd_limits c) < n")
    case True
    then show ?thesis using scan l40
      by (auto simp: codec_scan_def Let_def kFrameHeaderSize_def n same(1))
  next
    case False
    moreover have "\<not> length ?buf < unat n"
      using scan ds_closed l40 False by (auto simp: codec_scan_def Let_def kFrameHeaderSize_def n need_more_def)
    moreover from this have "take (unat n) (?buf @ x) = take (unat n) ?buf" by simp
    ultimately show ?thesis using scan l40 ds_closed
      by (auto simp: codec_scan_def Let_def kFrameHeaderSize_def n same frame_result_def split: if_split_asm)
  qed
qed (use assms in simp)

lemma scan_truncated:
  assumes "cd_buffer c = take k (codec_encode f)" "k < length (codec_encode f)" "frame_fits (cd_limits c) f"
  shows "codec_scan c = (c, need_more)"
proof (cases "k < 40")
  case True
  then show ?thesis using assms by (simp add: codec_scan_def kFrameHeaderSize_def)
next
  case False
  have len: "unat (frame_len f) = 40 + length (fr_payload f)" "frame_len f \<le> max_frame_bytes (cd_limits c)"
    using assms(3) unat_frame_len by (auto simp: frame_fits_def word_le_nat_alt)
  have "take k (codec_encode f) = le32 (frame_len f) @ take (k - 4) (drop 4 (codec_encode f))"
    using False take_add [of 4 "k - 4" "codec_encode f"] by (simp add: codec_encode_eq fipc_header_def)
  then have "read_u32_le (cd_buffer c) 0 = Inr (frame_len f)"
    by (simp only: assms(1) read_le_head)
  then show ?thesis
    using False assms(1,2) len by (simp add: codec_scan_def Let_def kFrameHeaderSize_def)
qed

lemma encode_prefix_free:
  assumes "codec_encode f @ xs = codec_encode g @ ys" "frame_fits lim f" "frame_fits lim g"
  shows "f = g \<and> xs = ys"
proof -
  let ?c = "\<lparr>cd_limits = lim, cd_buffer = codec_encode f @ xs, cd_closed = False\<rparr>"
  have "codec_scan ?c = (?c\<lparr>cd_buffer := xs\<rparr>, frame_result f)" using assms(2) by (simp add: scan_encode)
  moreover have "codec_scan ?c = (?c\<lparr>cd_buffer := ys\<rparr>, frame_result g)"
    using assms(1,3) by (intro scan_encode) simp_all
  ultimately show ?thesis by (simp add: frame_result_def)
qed

section \<open>Corrupted frames are never delivered\<close>

lemma codec_encode_envelope: "codec_encode f = envelope (fipc_header f) (fr_payload f)"
  by (simp add: codec_encode_eq envelope_def)

lemma burst_not_encoded:
  assumes f: "frame_fits lim f" and g: "frame_fits lim g"
    and b: "burst m (codec_encode f) bad" "m \<le> 36 \<or> 40 \<le> m" and eq: "bad @ xs = codec_encode g @ ys"
  shows "bad = codec_encode f"
proof -
  have "length (fr_payload f) = length (fr_payload g)" if "fipc_header f = fipc_header g"
  proof -
    from that have "frame_len f = frame_len g" by (simp add: fipc_header_def append_eq_append_conv)
    then show ?thesis using unat_frame_len f g by (metis add_left_cancel frame_fits_def)
  qed
  then show ?thesis
    using b eq unfolding codec_encode_envelope
    by (intro envelope_burst [where H' = "fipc_header g" and P' = "fr_payload g"]) simp_all
qed

lemma scan_corrupt:
  assumes "frame_fits (cd_limits c) f" "burst m (codec_encode f) bad" "m \<le> 36 \<or> 40 \<le> m" "bad \<noteq> codec_encode f"
    and "cd_buffer c = bad @ xs" "codec_scan c = (c', r)"
  shows "dr_state r \<noteq> ds_frame"
proof
  assume "dr_state r = ds_frame"
  then show False
    using assms burst_not_encoded by (metis scan_sound)
qed

section \<open>The codec as a framing of records\<close>

text \<open>One scan of a byte sequence: the frame it returns and the number of bytes it consumes.\<close>

definition fipc_dec :: "Limits \<Rightarrow> Bytes \<Rightarrow> (FipcFrame \<times> nat) option" where
  "fipc_dec lim bs =
     (case codec_scan \<lparr>cd_limits = lim, cd_buffer = bs, cd_closed = False\<rparr> of
        (c, r) \<Rightarrow> map_option (\<lambda>f. (f, length bs - length (cd_buffer c))) (dr_frame r))"

lemma fipc_dec_encode:
  "frame_fits lim f \<Longrightarrow> fipc_dec lim (codec_encode f @ rest) = Some (f, length (codec_encode f))"
  by (simp add: fipc_dec_def scan_encode frame_result_def del: length_codec_encode)

lemma fipc_dec_truncated:
  "\<lbrakk>frame_fits lim f; k < length (codec_encode f)\<rbrakk> \<Longrightarrow> fipc_dec lim (take k (codec_encode f)) = None"
  by (simp add: fipc_dec_def scan_truncated need_more_def)

interpretation fipc: record_framing codec_encode "fipc_dec lim" "frame_fits lim" for lim
proof unfold_locales
  show "codec_encode f \<noteq> []" for f by (simp add: codec_encode_eq fipc_header_def le32_bytes)
  show "fipc_dec lim [] = None" by (simp add: fipc_dec_def codec_scan_def kFrameHeaderSize_def need_more_def)
qed (simp_all add: fipc_dec_encode fipc_dec_truncated del: length_codec_encode)

section \<open>Properties\<close>

text \<open>
  C21. The frame decoder accepts exactly what the encoder writes: a scan returns a frame
  if and only if the buffer starts with the encoding of that frame and the frame is within the
  configured limits, and it then leaves exactly the bytes behind it in the buffer.
\<close>

theorem fipc_decoder_inverts_encoder:
  "codec_scan c = (c', frame_result f) \<longleftrightarrow>
    frame_fits (cd_limits c) f \<and> (\<exists>rest. cd_buffer c = codec_encode f @ rest \<and> c' = c\<lparr>cd_buffer := rest\<rparr>)"
proof
  assume "codec_scan c = (c', frame_result f)"
  moreover have "dr_state (frame_result f) = ds_frame" by (simp add: frame_result_def)
  ultimately show "frame_fits (cd_limits c) f \<and> (\<exists>rest. cd_buffer c = codec_encode f @ rest \<and> c' = c\<lparr>cd_buffer := rest\<rparr>)"
    by (rule scan_sound) (auto simp: frame_result_def)
qed (auto simp: scan_encode)

text \<open>
  C22. A frame damaged within four consecutive bytes, in its header, its checksums or its
  payload, is never delivered, whatever follows it in the buffer. Only a burst that spans the end
  of the payload checksum (offset 40) and the start of the payload is left out.
\<close>

theorem fipc_corrupt_frame_not_delivered:
  assumes "frame_fits (cd_limits c) f" "length bad = length (codec_encode f)" "bad \<noteq> codec_encode f"
    and "take m bad = take m (codec_encode f)" "drop (m + 4) bad = drop (m + 4) (codec_encode f)"
    and "m \<le> 36 \<or> 40 \<le> m" "cd_buffer c = bad @ rest"
  shows "dr_state (snd (codec_scan c)) \<noteq> ds_frame"
  using assms by (intro scan_corrupt [of c f m bad rest "fst (codec_scan c)"]) (simp_all add: burst_def)

theorem fipc_corrupt_frame_not_delivered_witness:
  "let f = \<lparr>fr_type = ft_hello, fr_flags = 0, fr_stream_id = 0, fr_stream_generation = 0, fr_sequence = 0,
         fr_request_token = 7, fr_payload = [1, 2, 3, 4, 5, 6]\<rparr>;
       c = \<lparr>cd_limits = default_limits, cd_buffer = (codec_encode f)[41 := 9, 42 := 8, 44 := 7] @ [5], cd_closed = False\<rparr>
   in dr_state (snd (codec_scan c)) \<noteq> ds_frame"
  unfolding Let_def
  by (rule fipc_corrupt_frame_not_delivered [where m = 41 and rest = "[5]" and f = "\<lparr>fr_type = ft_hello, fr_flags = 0, fr_stream_id = 0,
      fr_stream_generation = 0, fr_sequence = 0, fr_request_token = 7, fr_payload = [1, 2, 3, 4, 5, 6]\<rparr>"])
    (simp_all add: frame_fits_def default_limits_def codec_encode_eq list_update_append)

end
