(* ===== verification/Forge_Session.thy ===== *)
theory Forge_Session
  imports Forge_Fipc Forge_Credit
begin

text \<open>
  The FIPC session, \<^verbatim>\<open>src/ipc/session.cpp\<close>: handshake state, streams with generations and
  sequence numbers, byte credit, idempotency tokens, and the loop that applies every frame of a
  chunk. The lemmas give the session invariant, the effect of every accepted frame, and that the
  outcome does not depend on how the transport splits the byte stream.
\<close>

section \<open>Definitions\<close>

datatype SessionState = ses_accepted | ses_negotiated | ses_active | ses_closed

record SessionEvent =
  ev_type :: FrameType
  ev_stream_id :: u32
  ev_sequence :: u64
  ev_request_token :: u64

record StreamState =
  ss_generation :: u32
  ss_next_sequence :: u64
  ss_credit :: u64
  ss_terminal_pending :: bool

record FipcSession =
  se_limits :: Limits
  se_codec :: FipcCodec
  se_state :: SessionState
  se_streams :: "(u32, StreamState) std_map"
  se_retired :: "(u32, u32) std_map"
  se_idempotency :: "(u64, Bytes) std_map"

definition new_session :: "Limits \<Rightarrow> FipcSession" where
  "new_session lim = \<lparr>se_limits = lim, se_codec = new_codec lim, se_state = ses_accepted,
     se_streams = [], se_retired = [], se_idempotency = []\<rparr>"

definition session_error :: "ErrorCode \<Rightarrow> string \<Rightarrow> Status" where
  "session_error c msg = error c ''fipc-session'' msg"

definition send_credit :: "FipcSession \<Rightarrow> u32 \<Rightarrow> u64 \<Rightarrow> FipcSession \<times> unit Result" where
  "send_credit s sid bytes =
     (case sm_find (se_streams s) sid of
        None \<Rightarrow> (s, Inl (session_error ec_protocol ''credit for unknown stream''))
      | Some st \<Rightarrow>
          (case checked_add (ss_credit st) bytes ''fipc-session'' of
             Inl e \<Rightarrow> (s, Inl e)
           | Inr added \<Rightarrow>
               (s\<lparr>se_streams := sm_put sid (st\<lparr>ss_credit := added\<rparr>) (se_streams s)\<rparr>, Inr ())))"

definition reserve_send :: "FipcSession \<Rightarrow> u32 \<Rightarrow> u64 \<Rightarrow> bool \<Rightarrow> FipcSession \<times> unit Result" where
  "reserve_send s sid bytes terminal =
     (case sm_find (se_streams s) sid of
        None \<Rightarrow> (s, Inl (session_error ec_protocol ''send on unknown stream''))
      | Some st \<Rightarrow>
          if ss_credit st < bytes then
            if terminal
            then (s\<lparr>se_streams := sm_put sid (st\<lparr>ss_terminal_pending := True\<rparr>) (se_streams s)\<rparr>, Inr ())
            else (s, Inl (session_error ec_backpressure ''insufficient stream credit''))
          else (s\<lparr>se_streams := sm_put sid (st\<lparr>ss_credit := ss_credit st - bytes\<rparr>) (se_streams s)\<rparr>, Inr ()))"

definition event_of :: "FipcFrame \<Rightarrow> SessionEvent" where
  "event_of f = \<lparr>ev_type = fr_type f, ev_stream_id = fr_stream_id f, ev_sequence = fr_sequence f,
     ev_request_token = fr_request_token f\<rparr>"

text \<open>
  \<open>apply_frame\<close> in the order of the source. Its three later stages (credit, idempotency,
  close) are separate definitions; each passes the session on.
\<close>

definition apply_open :: "FipcSession \<Rightarrow> FipcFrame \<Rightarrow> FipcSession \<times> unit Result" where
  "apply_open s f =
     (if fr_stream_id f = 0 \<or>
         (case sm_find (se_streams s) (fr_stream_id f) of
            None \<Rightarrow> False | Some st \<Rightarrow> fr_stream_generation f \<le> ss_generation st) \<or>
         (case sm_find (se_retired s) (fr_stream_id f) of
            None \<Rightarrow> False | Some g \<Rightarrow> fr_stream_generation f \<le> g)
      then (s, Inl (session_error ec_protocol ''illegal stream reuse''))
      else if unat (max_streams (se_limits s)) \<le> length (se_streams s)
      then (s, Inl (session_error ec_resource_limit ''stream cap reached''))
      else (s\<lparr>se_streams := sm_put (fr_stream_id f)
                 \<lparr>ss_generation = fr_stream_generation f, ss_next_sequence = 0, ss_credit = 0,
                  ss_terminal_pending = False\<rparr> (se_streams s),
               se_state := ses_active\<rparr>, Inr ()))"

definition apply_sequence :: "FipcSession \<Rightarrow> FipcFrame \<Rightarrow> FipcSession \<times> unit Result" where
  "apply_sequence s f =
     (case sm_find (se_streams s) (fr_stream_id f) of
        None \<Rightarrow>
          if fr_stream_id f \<noteq> 0 then (s, Inl (session_error ec_protocol ''unknown stream''))
          else (s, Inr ())
      | Some st \<Rightarrow>
          if ss_generation st \<noteq> fr_stream_generation f \<or> ss_next_sequence st \<noteq> fr_sequence f
          then (s, Inl (session_error ec_protocol ''nonmonotonic stream sequence or generation''))
          else (s\<lparr>se_streams := sm_put (fr_stream_id f)
                    (st\<lparr>ss_next_sequence := ss_next_sequence st + 1\<rparr>) (se_streams s)\<rparr>, Inr ()))"

definition apply_credit :: "FipcSession \<Rightarrow> FipcFrame \<Rightarrow> FipcSession \<times> unit Result" where
  "apply_credit s f =
     (if fr_type f = ft_credit then
        (case read_u64_le (fr_payload f) 0 of
           Inl e \<Rightarrow> (s, Inl e)
         | Inr credit \<Rightarrow> send_credit s (fr_stream_id f) credit)
      else (s, Inr ()))"

definition apply_idempotency :: "FipcSession \<Rightarrow> FipcFrame \<Rightarrow> FipcSession \<times> unit Result" where
  "apply_idempotency s f =
     (if fr_type f = ft_build_request then
        if (case sm_find (se_idempotency s) (fr_request_token f) of
              None \<Rightarrow> False | Some prior \<Rightarrow> prior \<noteq> fr_payload f)
        then (s, Inl (session_error ec_protocol ''IDEMPOTENCY_CONFLICT''))
        else (s\<lparr>se_idempotency := sm_put (fr_request_token f) (fr_payload f) (se_idempotency s)\<rparr>, Inr ())
      else (s, Inr ()))"

definition apply_close :: "FipcSession \<Rightarrow> FipcFrame \<Rightarrow> FipcSession" where
  "apply_close s f =
     (case sm_find (se_streams s) (fr_stream_id f) of
        None \<Rightarrow> s
      | Some st \<Rightarrow>
          if fr_type f = ft_close_stream then
            let rest = sm_erase (fr_stream_id f) (se_streams s)
            in s\<lparr>se_retired := sm_put (fr_stream_id f) (ss_generation st) (se_retired s),
                 se_streams := rest,
                 se_state := (if rest = [] then ses_negotiated else ses_active)\<rparr>
          else s)"

definition and_then :: "'s \<times> unit Result \<Rightarrow> ('s \<Rightarrow> 's \<times> unit Result) \<Rightarrow> 's \<times> unit Result" where
  "and_then r k = (case r of (s, Inl e) \<Rightarrow> (s, Inl e) | (s, Inr _) \<Rightarrow> k s)"

definition apply_stream_frame :: "FipcSession \<Rightarrow> FipcFrame \<Rightarrow> FipcSession \<times> unit Result" where
  "apply_stream_frame s f =
     and_then (apply_sequence s f) (\<lambda>s.
     and_then (apply_credit s f) (\<lambda>s.
     and_then (apply_idempotency s f) (\<lambda>s. (apply_close s f, Inr ()))))"

definition dispatch_frame :: "FipcSession \<Rightarrow> FipcFrame \<Rightarrow> FipcSession \<times> unit Result" where
  "dispatch_frame s f =
     (if se_state s = ses_accepted then
        if fr_type f \<noteq> ft_hello \<or> fr_stream_id f \<noteq> 0 \<or> fr_sequence f \<noteq> 0
        then (s, Inl (session_error ec_protocol ''expected initial HELLO''))
        else (s\<lparr>se_state := ses_negotiated\<rparr>, Inr ())
      else if se_state s = ses_negotiated \<and> fr_type f = ft_open_stream then apply_open s f
      else if se_state s \<noteq> ses_active \<and> se_state s \<noteq> ses_negotiated
      then (s, Inl (session_error ec_protocol ''frame after close''))
      else apply_stream_frame s f)"

definition apply_frame ::
    "FipcSession \<Rightarrow> FipcFrame \<Rightarrow> SessionEvent list \<Rightarrow> FipcSession \<times> SessionEvent list Result" where
  "apply_frame s f events =
     (case dispatch_frame s f of
        (s', Inl e) \<Rightarrow> (s', Inl e)
      | (s', Inr _) \<Rightarrow> (s', Inr (events @ [event_of f])))"

text \<open>The facts about the codec and \<open>apply_frame\<close> that make the loop of \<open>feed\<close> terminate.\<close>

lemma feed_frame_shrinks:
  assumes "codec_feed c data = (c', r)" "dr_state r = ds_frame"
  shows "length (cd_buffer c') + 40 \<le> length (cd_buffer c) + length data"
proof -
  let ?c = "if data \<noteq> [] then c\<lparr>cd_buffer := cd_buffer c @ data\<rparr> else c"
  from assms have "codec_scan ?c = (c', r)"
    by (auto simp: codec_feed_def Let_def closed_with_def split: if_splits)
  then show ?thesis
    using assms(2) by (rule scan_sound) (auto split: if_splits dest!: arg_cong [where f = length])
qed

lemma apply_stages_codec [simp]:
  "se_codec (fst (send_credit s sid n)) = se_codec s" "se_codec (fst (apply_open s f)) = se_codec s"
  "se_codec (fst (apply_sequence s f)) = se_codec s" "se_codec (fst (apply_credit s f)) = se_codec s"
  "se_codec (fst (apply_idempotency s f)) = se_codec s" "se_codec (apply_close s f) = se_codec s"
  by (auto simp: send_credit_def apply_open_def apply_sequence_def apply_credit_def apply_idempotency_def
      apply_close_def Let_def split: option.splits sum.splits)

lemma and_then_inv:
  "\<lbrakk>P (fst r); \<And>s. P s \<Longrightarrow> P (fst (k s))\<rbrakk> \<Longrightarrow> P (fst (and_then r k))"
  by (auto simp: and_then_def split: prod.splits sum.splits)

lemma dispatch_frame_codec [simp]: "se_codec (fst (dispatch_frame s f)) = se_codec s"
  by (auto simp: dispatch_frame_def apply_stream_frame_def
      intro!: and_then_inv [where P = "\<lambda>s'. se_codec s' = se_codec s"])

lemma fst_apply_frame [simp]: "fst (apply_frame s f events) = fst (dispatch_frame s f)"
  by (auto simp: apply_frame_def split: prod.splits sum.splits)

lemma apply_frame_codec: "apply_frame s f events = (s', r) \<Longrightarrow> se_codec s' = se_codec s"
  by (metis dispatch_frame_codec fst_apply_frame fst_conv)

function session_loop ::
    "FipcSession \<Rightarrow> Bytes \<Rightarrow> SessionEvent list \<Rightarrow> FipcSession \<times> SessionEvent list Result" where
  "session_loop s data events =
     (case codec_feed (se_codec s) data of (c, d) \<Rightarrow>
        (case dr_state d of
           ds_need_more \<Rightarrow> (s\<lparr>se_codec := c\<rparr>, Inr events)
         | ds_closed \<Rightarrow>
             (s\<lparr>se_codec := c, se_state := ses_closed\<rparr>,
              if status_ok (dr_diagnostic d) then Inr events else Inl (dr_diagnostic d))
         | ds_frame \<Rightarrow>
             (case apply_frame (s\<lparr>se_codec := c\<rparr>) (the (dr_frame d)) events of
                (s', Inl e) \<Rightarrow> (s'\<lparr>se_state := ses_closed\<rparr>, Inl e)
              | (s', Inr events') \<Rightarrow>
                  if codec_buffered (se_codec s') = 0 then (s', Inr events')
                  else session_loop s' [] events')))"
  by pat_completeness auto
termination
  by (relation "measure (\<lambda>(s, data, _). length (cd_buffer (se_codec s)) + length data)")
    (auto dest!: feed_frame_shrinks [OF sym] apply_frame_codec [OF sym])

declare session_loop.simps [simp del]

definition session_feed :: "FipcSession \<Rightarrow> Bytes \<Rightarrow> FipcSession \<times> SessionEvent list Result" where
  "session_feed s data = session_loop s data []"

section \<open>The session invariant\<close>

text \<open>
  At most one stream is live at any time: \<open>OPEN_STREAM\<close> is only honoured in the negotiated state,
  and the first stream makes the session active. A live stream has a nonzero id and a generation
  above every generation of that id that was closed before.
\<close>

definition session_inv :: "FipcSession \<Rightarrow> bool" where
  "session_inv s \<longleftrightarrow>
     sm_ok (se_streams s) \<and> sm_ok (se_retired s) \<and> sm_ok (se_idempotency s) \<and>
     length (se_streams s) \<le> 1 \<and>
     (se_state s = ses_accepted \<or> se_state s = ses_negotiated \<longrightarrow> se_streams s = []) \<and>
     (se_state s = ses_active \<longrightarrow> se_streams s \<noteq> []) \<and>
     (\<forall>sid st. sm_find (se_streams s) sid = Some st \<longrightarrow>
        sid \<noteq> 0 \<and> (\<forall>g. sm_find (se_retired s) sid = Some g \<longrightarrow> g < ss_generation st))"

lemma session_inv_new: "session_inv (new_session lim)"
  by (simp add: session_inv_def new_session_def)

lemma single_stream: "session_inv s \<Longrightarrow> sm_find (se_streams s) k = Some st \<Longrightarrow> se_streams s = [(k, st)]"
  by (cases "se_streams s") (auto simp: session_inv_def sm_find_def split: if_splits)

text \<open>Replacing the state of the live stream, with its generation kept, keeps the invariant.\<close>

lemma session_inv_update:
  assumes "session_inv s" "sm_find (se_streams s) k = Some st" "ss_generation st' = ss_generation st"
  shows "session_inv (s\<lparr>se_streams := sm_put k st' (se_streams s)\<rparr>)"
  using assms single_stream [OF assms(1,2)] by (auto simp: session_inv_def sm_ok_def split: if_splits)

lemma session_inv_stages [forge_inv]:
  assumes "session_inv s"
  shows "session_inv (fst (send_credit s sid n))" "session_inv (fst (reserve_send s sid n t))"
    "session_inv (fst (apply_sequence s f))" "session_inv (fst (apply_credit s f))"
    "session_inv (fst (apply_idempotency s f))"
proof -
  show credit: "session_inv (fst (send_credit s sid n))" for sid n
    using assms by (auto simp: send_credit_def session_inv_update split: option.splits sum.splits)
  show "session_inv (fst (reserve_send s sid n t))"
    using assms by (auto simp: reserve_send_def session_inv_update split: option.splits)
  show "session_inv (fst (apply_sequence s f))"
    using assms by (auto simp: apply_sequence_def session_inv_update split: option.splits)
  show "session_inv (fst (apply_credit s f))"
    using assms credit by (auto simp: apply_credit_def split: sum.splits)
  show "session_inv (fst (apply_idempotency s f))"
    using assms by (auto simp: apply_idempotency_def session_inv_def)
qed

lemma session_inv_open: "session_inv s \<Longrightarrow> se_state s = ses_negotiated \<Longrightarrow> session_inv (fst (apply_open s f))"
  by (auto simp: apply_open_def session_inv_def sm_ok_def split: option.splits if_splits)

lemma session_inv_close: "session_inv s \<Longrightarrow> session_inv (apply_close s f)"
proof (cases "sm_find (se_streams s) (fr_stream_id f)")
  case (Some st)
  assume inv: "session_inv s"
  then show ?thesis
    using Some single_stream [OF inv Some] by (auto simp: apply_close_def session_inv_def sm_erase_def)
qed (simp add: apply_close_def)

lemma session_inv_dispatch [forge_inv]: "session_inv s \<Longrightarrow> session_inv (fst (dispatch_frame s f))"
  by (auto simp: dispatch_frame_def apply_stream_frame_def session_inv_open session_inv_close session_inv_stages
      intro!: and_then_inv [where P = session_inv]) (auto simp: session_inv_def)

lemma session_inv_codec [simp]: "session_inv (s\<lparr>se_codec := c\<rparr>) = session_inv s"
  by (simp add: session_inv_def)

lemma session_inv_closed: "session_inv s \<Longrightarrow> session_inv (s\<lparr>se_state := ses_closed\<rparr>)"
  by (simp add: session_inv_def)

lemma loop_invariant:
  assumes "\<And>s f. P s \<Longrightarrow> P (fst (dispatch_frame s f))" "\<And>s c. P s \<Longrightarrow> P (s\<lparr>se_codec := c\<rparr>)"
    and "\<And>s. P s \<Longrightarrow> P (s\<lparr>se_state := ses_closed\<rparr>)"
  shows "P s \<Longrightarrow> P (fst (session_loop s data events))"
proof (induction s data events rule: session_loop.induct)
  case (1 s data events)
  obtain c d where cd: "codec_feed (se_codec s) data = (c, d)" by (cases "codec_feed (se_codec s) data")
  obtain s' r where sr: "apply_frame (s\<lparr>se_codec := c\<rparr>) (the (dr_frame d)) events = (s', r)"
    by (cases "apply_frame (s\<lparr>se_codec := c\<rparr>) (the (dr_frame d)) events")
  then have "s' = fst (dispatch_frame (s\<lparr>se_codec := c\<rparr>) (the (dr_frame d)))"
    by (metis fst_apply_frame fst_conv)
  then have "P s'" using 1(2) assms(1,2) by simp
  moreover have "P (s\<lparr>se_codec := c, se_state := ses_closed\<rparr>)" using assms(2,3) 1(2) by simp
  ultimately show ?case
    using 1 cd sr assms(2,3) by (subst session_loop.simps) (auto split: DecodeState.splits sum.splits)
qed

lemma session_inv_loop [forge_inv]: "session_inv s \<Longrightarrow> session_inv (fst (session_loop s data events))"
  by (rule loop_invariant [where P = session_inv]) (simp_all add: session_inv_dispatch session_inv_closed)

section \<open>Turns of the feed loop\<close>

lemma feed_scan:
  assumes "\<not> cd_closed c" "length (cd_buffer c) + length data \<le> unat (max_single_allocation (cd_limits c))"
  shows "codec_feed c data = codec_scan (c\<lparr>cd_buffer := cd_buffer c @ data\<rparr>)"
  using assms by (auto simp: codec_feed_def Let_def)

lemma feed_closed_error:
  "codec_feed c data = (c', d) \<Longrightarrow> dr_state d = ds_closed \<Longrightarrow> \<not> status_ok (dr_diagnostic d)"
  by (auto simp: codec_feed_def Let_def closed_with_def protocol_error_def status_ok_def split: if_splits dest!: scan_closed)

text \<open>The stages of a frame do not look at the codec.\<close>

abbreviation swap_codec :: "FipcCodec \<Rightarrow> FipcSession \<Rightarrow> FipcSession" where
  "swap_codec c s \<equiv> s\<lparr>se_codec := c\<rparr>"

lemma and_then_swap:
  "(\<And>s. k (swap_codec c s) = apfst (swap_codec c) (k s)) \<Longrightarrow>
    and_then (apfst (swap_codec c) r) k = apfst (swap_codec c) (and_then r k)"
  by (cases r; cases "snd r") (auto simp: and_then_def)

lemma stages_swap:
  "send_credit (swap_codec c s) sid n = apfst (swap_codec c) (send_credit s sid n)"
  "apply_open (swap_codec c s) f = apfst (swap_codec c) (apply_open s f)"
  "apply_sequence (swap_codec c s) f = apfst (swap_codec c) (apply_sequence s f)"
  "apply_idempotency (swap_codec c s) f = apfst (swap_codec c) (apply_idempotency s f)"
  "apply_close (swap_codec c s) f = swap_codec c (apply_close s f)"
  by (simp_all add: send_credit_def apply_open_def apply_sequence_def apply_idempotency_def apply_close_def Let_def
      split: option.split sum.split)

lemma credit_swap: "apply_credit (swap_codec c s) f = apfst (swap_codec c) (apply_credit s f)"
  by (simp add: apply_credit_def stages_swap split: sum.split)

lemma stream_frame_swap: "apply_stream_frame (swap_codec c s) f = apfst (swap_codec c) (apply_stream_frame s f)"
  unfolding apply_stream_frame_def stages_swap(3)
  by (intro and_then_swap) (simp add: credit_swap stages_swap and_then_swap)

lemma dispatch_swap: "dispatch_frame (swap_codec c s) f = apfst (swap_codec c) (dispatch_frame s f)"
  by (simp add: dispatch_frame_def stream_frame_swap stages_swap)

text \<open>One turn of the loop, by its outcome.\<close>

lemma loop_need_more:
  "codec_feed (se_codec s) data = (c, d) \<Longrightarrow> dr_state d = ds_need_more \<Longrightarrow>
    session_loop s data events = (swap_codec c s, Inr events)"
  by (subst session_loop.simps) simp

lemma loop_closed:
  "codec_feed (se_codec s) data = (c, d) \<Longrightarrow> dr_state d = ds_closed \<Longrightarrow>
    session_loop s data events = ((swap_codec c s)\<lparr>se_state := ses_closed\<rparr>, Inl (dr_diagnostic d))"
  by (subst session_loop.simps) (simp add: feed_closed_error)

lemma loop_frame:
  "codec_feed (se_codec s) data = (c, d) \<Longrightarrow> dr_state d = ds_frame \<Longrightarrow>
    session_loop s data events =
      (case dispatch_frame (swap_codec c s) (the (dr_frame d)) of
         (s', Inl e) \<Rightarrow> (s'\<lparr>se_state := ses_closed\<rparr>, Inl e)
       | (s', Inr _) \<Rightarrow>
           if cd_buffer c = [] then (s', Inr (events @ [event_of (the (dr_frame d))]))
           else session_loop s' [] (events @ [event_of (the (dr_frame d))]))"
proof -
  assume cd: "codec_feed (se_codec s) data = (c, d)" "dr_state d = ds_frame"
  obtain s' r where sr: "dispatch_frame (swap_codec c s) (the (dr_frame d)) = (s', r)"
    by (cases "dispatch_frame (swap_codec c s) (the (dr_frame d))")
  then have "se_codec s' = c" using dispatch_frame_codec [of "swap_codec c s" "the (dr_frame d)"] by simp
  then show ?thesis
    using cd sr by (subst session_loop.simps) (simp add: apply_frame_def codec_buffered_def split: sum.split)
qed

lemmas loop_steps = loop_need_more loop_closed loop_frame

definition prepend :: "'a list \<Rightarrow> 's \<times> 'a list Result \<Rightarrow> 's \<times> 'a list Result" where
  "prepend pre r = (case r of (s, Inl e) \<Rightarrow> (s, Inl e) | (s, Inr es) \<Rightarrow> (s, Inr (pre @ es)))"

lemma loop_prepend: "session_loop s data (pre @ events) = prepend pre (session_loop s data events)"
proof (induction s data events rule: session_loop.induct)
  case (1 s data events)
  obtain c d where cd: "codec_feed (se_codec s) data = (c, d)" by (cases "codec_feed (se_codec s) data")
  show ?case
  proof (cases "dr_state d")
    case ds_frame
    obtain s' r where sr: "dispatch_frame (swap_codec c s) (the (dr_frame d)) = (s', r)"
      by (cases "dispatch_frame (swap_codec c s) (the (dr_frame d))")
    then have "se_codec s' = c" using dispatch_frame_codec [of "swap_codec c s" "the (dr_frame d)"] by simp
    then show ?thesis
      using 1 [OF cd [symmetric] ds_frame] sr
      by (auto simp: loop_frame [OF cd ds_frame] apply_frame_def codec_buffered_def
          prepend_def [of _ "(_, Inl _)"] prepend_def [of _ "(_, Inr _)"] split: sum.split)
  qed (simp_all add: loop_steps [OF cd] prepend_def)
qed

lemma loop_feed: "session_loop s data events = prepend events (session_feed s data)"
  using loop_prepend [of s data events "[]"] by (simp add: session_feed_def)
section \<open>Chunks and encoded frames\<close>

text \<open>\<open>session_room s n\<close>: the codec is open and \<open>n\<close> more bytes stay within the allocation limit.\<close>

definition session_room :: "FipcSession \<Rightarrow> nat \<Rightarrow> bool" where
  "session_room s n \<longleftrightarrow> \<not> cd_closed (se_codec s) \<and>
     length (cd_buffer (se_codec s)) + n \<le> unat (max_single_allocation (cd_limits (se_codec s)))"

definition with_pending :: "FipcSession \<Rightarrow> Bytes \<Rightarrow> FipcSession" where
  "with_pending s data = s\<lparr>se_codec := (se_codec s)\<lparr>cd_buffer := cd_buffer (se_codec s) @ data\<rparr>\<rparr>"

lemma loop_codec_only:
  assumes "codec_feed (se_codec s) x = codec_feed (se_codec t) y" "\<And>c. swap_codec c s = swap_codec c t"
  shows "session_loop s x events = session_loop t y events"
  by (subst (1 2) session_loop.simps) (simp only: assms)

lemma with_pending_Nil [simp]: "with_pending s [] = s"
  by (simp add: with_pending_def)

lemma with_pending_swap [simp]: "swap_codec c (with_pending s data) = swap_codec c s"
  by (simp add: with_pending_def)

lemma loop_shift:
  "session_room s (length data + length rest) \<Longrightarrow>
    session_loop (with_pending s data) rest events = session_loop s (data @ rest) events"
  by (rule loop_codec_only) (simp_all add: feed_scan session_room_def with_pending_def)

lemma scan_room:
  assumes "codec_scan c = (c', d)" "dr_state d = ds_frame"
  shows "cd_closed c' = cd_closed c" "cd_limits c' = cd_limits c" "length (cd_buffer c') \<le> length (cd_buffer c)"
  using assms by (auto elim!: scan_sound)

lemma loop_idle:
  assumes "session_room s 0" "cd_buffer (se_codec s) = []"
  shows "session_loop s [] events = (s, Inr events)"
proof -
  have "codec_feed (se_codec s) [] = (se_codec s, need_more)"
    using assms by (simp add: feed_scan session_room_def codec_scan_def kFrameHeaderSize_def)
  then show ?thesis by (simp add: loop_need_more need_more_def)
qed

text \<open>Bytes behind a delivered frame are handled as if they arrived in a later chunk.\<close>

lemma loop_frame_pending:
  assumes room: "session_room s (length x + length y)"
    and scan: "codec_scan ((se_codec s)\<lparr>cd_buffer := cd_buffer (se_codec s) @ x\<rparr>) = (c, d)"
    and frame: "dr_state d = ds_frame"
    and sr: "dispatch_frame (swap_codec c s) (the (dr_frame d)) = (s', Inr u)"
  shows "session_loop s (x @ y) events = session_loop s' y (events @ [event_of (the (dr_frame d))])"
    and "session_room s' (length y)" and "se_codec s' = c"
proof -
  let ?f = "the (dr_frame d)" and ?cy = "c\<lparr>cd_buffer := cd_buffer c @ y\<rparr>"
  have cd: "codec_feed (se_codec s) (x @ y) = (?cy, d)"
    using room scan_extend [OF scan, of y] frame by (simp add: feed_scan session_room_def)
  show c': "se_codec s' = c" using dispatch_frame_codec [of "swap_codec c s" ?f] sr by simp
  show room': "session_room s' (length y)"
    using room scan_room [OF scan frame] c' by (simp add: session_room_def)
  have "dispatch_frame (swap_codec ?cy s) ?f = (with_pending s' y, Inr u)"
    using dispatch_swap [of ?cy "swap_codec c s" ?f] sr c' by (simp add: with_pending_def)
  then show "session_loop s (x @ y) events = session_loop s' y (events @ [event_of ?f])"
    using room' c' loop_shift [of s' y "[]" "events @ [event_of ?f]"] loop_idle [of s']
    by (auto simp: loop_frame [OF cd frame] with_pending_def)
qed

lemma loop_chunk:
  assumes "session_loop s x events = (s1, Inr ev1)" "session_room s (length x + length y)"
  shows "session_loop s (x @ y) events = session_loop s1 y ev1"
  using assms
proof (induction s x events rule: session_loop.induct)
  case (1 s x events)
  let ?c = "(se_codec s)\<lparr>cd_buffer := cd_buffer (se_codec s) @ x\<rparr>"
  obtain c d where scan: "codec_scan ?c = (c, d)" by (cases "codec_scan ?c")
  then have cd: "codec_feed (se_codec s) x = (c, d)"
    using "1.prems"(2) by (simp add: feed_scan session_room_def)
  show ?case
  proof (cases "dr_state d")
    case ds_need_more
    then have "s1 = with_pending s x" "ev1 = events"
      using "1.prems"(1) scan_need_more [OF scan ds_need_more] by (auto simp: loop_need_more [OF cd] with_pending_def)
    then show ?thesis using "1.prems"(2) by (simp add: loop_shift)
  next
    case ds_closed
    then show ?thesis using "1.prems"(1) by (simp add: loop_closed [OF cd])
  next
    case ds_frame
    obtain s' r where sr: "dispatch_frame (swap_codec c s) (the (dr_frame d)) = (s', r)"
      by (cases "dispatch_frame (swap_codec c s) (the (dr_frame d))")
    with "1.prems"(1) obtain u where r: "r = Inr u"
      by (cases r) (simp_all add: loop_frame [OF cd ds_frame])
    note step = loop_frame_pending [OF "1.prems"(2) scan ds_frame sr [unfolded r]]
    show ?thesis
    proof (cases "cd_buffer c = []")
      case True
      then show ?thesis using "1.prems"(1) step(1) [of events] by (simp add: loop_frame [OF cd ds_frame] sr r)
    next
      case False
      then have "session_loop s' ([] @ y) (events @ [event_of (the (dr_frame d))]) = session_loop s1 y ev1"
        using "1.IH" [OF cd [symmetric] ds_frame, of s'] "1.prems"(1) sr r step(2,3)
        by (simp add: apply_frame_def codec_buffered_def loop_frame [OF cd ds_frame])
      then show ?thesis using step(1) [of events] by simp
    qed
  qed
qed

text \<open>Feeding one chunk is feeding its two parts in turn.\<close>

lemma feed_chunk:
  assumes "session_feed s x = (s1, Inr ev1)" "session_room s (length x + length y)"
  shows "session_feed s (x @ y) = prepend ev1 (session_feed s1 y)"
  using loop_chunk [of s x "[]"] assms by (simp add: session_feed_def loop_feed [of s1 y ev1])

text \<open>Feeding an encoded frame is applying that frame.\<close>

lemma feed_encoded:
  assumes "frame_fits (cd_limits (se_codec s)) f" "cd_buffer (se_codec s) = []"
    and "session_room s (length (codec_encode f) + length y)" "dispatch_frame s f = (s', Inr u)"
  shows "session_feed s (codec_encode f @ y) = prepend [event_of f] (session_feed s' y)"
    and "se_codec s' = se_codec s"
proof -
  let ?c = "(se_codec s)\<lparr>cd_buffer := cd_buffer (se_codec s) @ codec_encode f\<rparr>"
  have scan: "codec_scan ?c = (se_codec s, frame_result f)"
    using assms(1,2) scan_encode [of ?c f "[]"] by simp
  have d: "dispatch_frame (swap_codec (se_codec s) s) (the (dr_frame (frame_result f))) = (s', Inr u)"
    using assms(4) by (simp add: frame_result_def)
  have fr: "dr_state (frame_result f) = ds_frame" by (simp add: frame_result_def)
  show "se_codec s' = se_codec s" by (rule loop_frame_pending(3) [OF assms(3) scan fr d])
  show "session_feed s (codec_encode f @ y) = prepend [event_of f] (session_feed s' y)"
    using loop_frame_pending(1) [OF assms(3) scan fr d, of "[]"]
    by (simp add: session_feed_def frame_result_def loop_feed [of s' y "[event_of f]"])
qed
lemma loop_chunk_error:
  assumes "session_loop s x events = (s1, Inl e)" "session_room s (length x + length y)"
  shows "session_loop s (x @ y) events = (with_pending s1 y, Inl e)"
  using assms
proof (induction s x events rule: session_loop.induct)
  case (1 s x events)
  let ?c = "(se_codec s)\<lparr>cd_buffer := cd_buffer (se_codec s) @ x\<rparr>"
  obtain c d where scan: "codec_scan ?c = (c, d)" by (cases "codec_scan ?c")
  then have cd: "codec_feed (se_codec s) x = (c, d)"
    using "1.prems"(2) by (simp add: feed_scan session_room_def)
  have cd': "codec_feed (se_codec s) (x @ y) = (c\<lparr>cd_buffer := cd_buffer c @ y\<rparr>, d)" if "dr_state d \<noteq> ds_need_more"
    using "1.prems"(2) scan_extend [OF scan that, of y] by (simp add: feed_scan session_room_def)
  show ?case
  proof (cases "dr_state d")
    case ds_need_more
    then show ?thesis using "1.prems"(1) by (simp add: loop_need_more [OF cd])
  next
    case ds_closed
    then show ?thesis using "1.prems"(1) cd' by (auto simp: loop_closed [OF cd] loop_closed [OF cd'] with_pending_def)
  next
    case ds_frame
    let ?f = "the (dr_frame d)" and ?cy = "c\<lparr>cd_buffer := cd_buffer c @ y\<rparr>"
    obtain s' r where sr: "dispatch_frame (swap_codec c s) ?f = (s', r)" by (cases "dispatch_frame (swap_codec c s) ?f")
    show ?thesis
    proof (cases r)
      case (Inl e')
      moreover have "dispatch_frame (swap_codec ?cy s) ?f = (swap_codec ?cy s', r)"
        using dispatch_swap [of ?cy "swap_codec c s" ?f] sr by simp
      ultimately show ?thesis
        using "1.prems"(1) sr ds_frame dispatch_frame_codec [of "swap_codec c s" ?f]
        by (auto simp: loop_frame [OF cd] loop_frame [OF cd'] with_pending_def)
    next
      case (Inr u)
      note step = loop_frame_pending [OF "1.prems"(2) scan ds_frame sr [unfolded Inr]]
      show ?thesis
        using "1.IH" [OF cd [symmetric] ds_frame, of s'] "1.prems"(1) sr Inr step(2,3) step(1) [of events]
        by (auto simp: apply_frame_def codec_buffered_def loop_frame [OF cd ds_frame] split: if_splits)
    qed
  qed
qed

lemma feed_chunk_error:
  assumes "session_feed s x = (s1, Inl e)" "session_room s (length x + length y)"
  shows "session_feed s (x @ y) = (with_pending s1 y, Inl e)"
  using loop_chunk_error assms by (simp add: session_feed_def)

lemma feed_encoded_refused:
  assumes "frame_fits (cd_limits (se_codec s)) f" "cd_buffer (se_codec s) = []"
    and "session_room s (length (codec_encode f) + length y)" "dispatch_frame s f = (s', Inl e)"
  shows "session_feed s (codec_encode f @ y) = (with_pending (s'\<lparr>se_state := ses_closed\<rparr>) y, Inl e)"
proof -
  let ?c = "(se_codec s)\<lparr>cd_buffer := cd_buffer (se_codec s) @ codec_encode f\<rparr>"
  have "codec_scan ?c = (se_codec s, frame_result f)" using assms(1,2) scan_encode [of ?c f "[]"] by simp
  then have cd: "codec_feed (se_codec s) (codec_encode f) = (se_codec s, frame_result f)"
    using assms(3) by (simp add: feed_scan session_room_def)
  have "session_feed s (codec_encode f) = (s'\<lparr>se_state := ses_closed\<rparr>, Inl e)"
    using assms(4) loop_frame [OF cd, of "[]"] by (simp add: session_feed_def frame_result_def)
  from feed_chunk_error [OF this assms(3)] show ?thesis .
qed

fun feed_chunks :: "FipcSession \<Rightarrow> Bytes list \<Rightarrow> FipcSession \<times> SessionEvent list Result" where
  "feed_chunks s [] = (s, Inr [])"
| "feed_chunks s (x # xs) =
     (case session_feed s x of
        (s', Inl e) \<Rightarrow> (s', Inl e)
      | (s', Inr evs) \<Rightarrow> prepend evs (feed_chunks s' xs))"

fun run_frames :: "FipcSession \<Rightarrow> FipcFrame list \<Rightarrow> FipcSession \<times> SessionEvent list Result" where
  "run_frames s [] = (s, Inr [])"
| "run_frames s (f # fs) =
     (case dispatch_frame s f of
        (s', Inl e) \<Rightarrow> (s'\<lparr>se_state := ses_closed\<rparr>, Inl e)
      | (s', Inr _) \<Rightarrow> prepend [event_of f] (run_frames s' fs))"

lemma snd_prepend: "snd (prepend pre r) = map_sum id ((@) pre) (snd r)"
  by (auto simp: prepend_def split: prod.split sum.split)

lemma prepend_apfst: "prepend pre (apfst h r) = apfst h (prepend pre r)"
  by (simp add: prepend_def split: prod.split sum.split)

lemma isl_prepend [simp]: "isl (snd (prepend pre r)) = isl (snd r)"
  by (simp add: prepend_def split: prod.split sum.split)

lemma prepend_Inr: "prepend pre r = (s, Inr es) \<longleftrightarrow> (\<exists>es'. r = (s, Inr es') \<and> es = pre @ es')"
  by (auto simp: prepend_def split: prod.splits sum.splits)

lemma loop_room:
  "session_loop s x events = (s1, Inr ev1) \<Longrightarrow> session_room s (length x + n) \<Longrightarrow> session_room s1 n"
proof (induction s x events rule: session_loop.induct)
  case (1 s x events)
  let ?c = "(se_codec s)\<lparr>cd_buffer := cd_buffer (se_codec s) @ x\<rparr>"
  obtain c d where scan: "codec_scan ?c = (c, d)" by (cases "codec_scan ?c")
  then have cd: "codec_feed (se_codec s) x = (c, d)"
    using "1.prems"(2) by (simp add: feed_scan session_room_def)
  show ?case
  proof (cases "dr_state d")
    case ds_need_more
    then show ?thesis using "1.prems" scan_need_more [OF scan ds_need_more]
      by (auto simp: loop_need_more [OF cd] session_room_def)
  next
    case ds_closed
    then show ?thesis using "1.prems"(1) by (simp add: loop_closed [OF cd])
  next
    case ds_frame
    let ?f = "the (dr_frame d)"
    obtain s' r where sr: "dispatch_frame (swap_codec c s) ?f = (s', r)" by (cases "dispatch_frame (swap_codec c s) ?f")
    then have c': "se_codec s' = c" using dispatch_frame_codec [of "swap_codec c s" ?f] by simp
    then have "session_room s' n"
      using "1.prems"(2) scan_room [OF scan ds_frame] by (simp add: session_room_def)
    then show ?thesis
      using "1.IH" [OF cd [symmetric] ds_frame, of s'] "1.prems"(1) sr c'
      by (auto simp: apply_frame_def codec_buffered_def loop_frame [OF cd ds_frame] split: if_splits sum.splits)
  qed
qed

text \<open>
  After an error the chunks that were not fed any more are, when all bytes come at once, behind the
  refused frame in the buffer of the closed session; this is the only difference.
\<close>

lemma feed_chunks_concat:
  assumes "session_room s (length (concat (x # xs)))"
  shows "\<exists>k. session_feed s (concat (x # xs)) = apfst (\<lambda>t. with_pending t (concat (drop k xs))) (feed_chunks s (x # xs)) \<and>
    (isl (snd (feed_chunks s (x # xs))) \<or> length xs \<le> k)"
  using assms
proof (induction xs arbitrary: s x)
  case Nil
  then show ?case by (auto simp: prepend_def split: prod.split sum.split)
next
  case (Cons y ys)
  obtain s1 r where x: "session_feed s x = (s1, r)" by (cases "session_feed s x")
  have room: "session_room s (length x + length (concat (y # ys)))" using Cons.prems by simp
  show ?case
  proof (cases r)
    case (Inl e)
    then show ?thesis using feed_chunk_error [of s x s1 e "concat (y # ys)"] x room by (intro exI [of _ 0]) simp
  next
    case (Inr ev)
    have "session_room s1 (length (concat (y # ys)))"
      using loop_room x Inr room by (simp add: session_feed_def)
    from Cons.IH [OF this] obtain k where
      "session_feed s1 (concat (y # ys)) = apfst (\<lambda>t. with_pending t (concat (drop k ys))) (feed_chunks s1 (y # ys))"
      "isl (snd (feed_chunks s1 (y # ys))) \<or> length ys \<le> k" by blast
    then show ?thesis
      using feed_chunk [OF x [unfolded Inr] room] x Inr
      by (intro exI [of _ "Suc k"]) (simp add: prepend_apfst del: feed_chunks.simps(2), simp add: x Inr)
  qed
qed

lemma feed_stream:
  assumes "list_all (frame_fits (cd_limits (se_codec s))) fs" "cd_buffer (se_codec s) = []"
    and "session_room s (length (concat (map codec_encode fs)))"
  shows "case run_frames s fs of
      (s', Inr evs) \<Rightarrow> session_feed s (concat (map codec_encode fs)) = (s', Inr evs)
    | (s', Inl e) \<Rightarrow> \<exists>k < length fs. \<not> isl (snd (run_frames s (take k fs))) \<and>
        session_feed s (concat (map codec_encode fs)) = (with_pending s' (concat (map codec_encode (drop (Suc k) fs))), Inl e)"
  using assms
proof (induction fs arbitrary: s)
  case Nil
  then show ?case using loop_idle [of s "[]"] by (simp add: session_feed_def)
next
  case (Cons f fs)
  have room: "session_room s (length (codec_encode f) + length (concat (map codec_encode fs)))"
    using Cons.prems(3) by simp
  obtain s1 r where d: "dispatch_frame s f = (s1, r)" by fastforce
  show ?case
  proof (cases r)
    case (Inl e)
    then show ?thesis
      using feed_encoded_refused [OF _ Cons.prems(2) room d [unfolded Inl]] Cons.prems(1) d by auto
  next
    case (Inr u)
    note fe = feed_encoded [OF _ Cons.prems(2) room d [unfolded Inr]]
    have "case run_frames s1 fs of
        (s', Inr evs) \<Rightarrow> session_feed s1 (concat (map codec_encode fs)) = (s', Inr evs)
      | (s', Inl e) \<Rightarrow> \<exists>k < length fs. \<not> isl (snd (run_frames s1 (take k fs))) \<and>
          session_feed s1 (concat (map codec_encode fs)) = (with_pending s' (concat (map codec_encode (drop (Suc k) fs))), Inl e)"
      using Cons.prems fe(2) by (intro Cons.IH) (auto simp: session_room_def)
    then show ?thesis
      using fe(1) Cons.prems(1) d Inr
      by (auto simp: prepend_def split: prod.splits sum.splits intro!: exI [of _ "Suc _"])
  qed
qed

lemma feed_stream_accepted:
  assumes "list_all (frame_fits (cd_limits (se_codec s))) fs" "cd_buffer (se_codec s) = []"
    and "session_room s (length (concat (map codec_encode fs)))" "run_frames s fs = (s', Inr evs)"
  shows "session_feed s (concat (map codec_encode fs)) = (s', Inr evs)"
  using feed_stream [OF assms(1-3)] by (simp add: assms(4))

section \<open>Reachable sessions\<close>

inductive session_reach :: "Limits \<Rightarrow> FipcSession \<Rightarrow> bool" for lim where
  start: "session_reach lim (new_session lim)"
| feed: "session_reach lim s \<Longrightarrow> session_reach lim (fst (session_feed s data))"
| credit: "session_reach lim s \<Longrightarrow> session_reach lim (fst (send_credit s sid n))"
| reserve: "session_reach lim s \<Longrightarrow> session_reach lim (fst (reserve_send s sid n terminal))"

lemma session_reach_inv: "session_reach lim s \<Longrightarrow> session_inv s"
  by (induction rule: session_reach.induct)
    (simp_all add: session_inv_new session_inv_loop session_inv_stages session_feed_def)

section \<open>Accepted frames\<close>

lemma and_then_Inr:
  "and_then r k = (s', Inr u) \<longleftrightarrow> (\<exists>s v. r = (s, Inr v) \<and> k s = (s', Inr u))"
  by (auto simp: and_then_def split: prod.splits sum.splits)

lemma apply_sequence_Some:
  assumes "apply_sequence s f = (s', Inr u)" "sm_find (se_streams s) (fr_stream_id f) = Some st"
  shows "ss_next_sequence st = fr_sequence f" "ss_generation st = fr_stream_generation f"
    "sm_find (se_streams s') (fr_stream_id f) = Some (st\<lparr>ss_next_sequence := ss_next_sequence st + 1\<rparr>)"
    "se_state s' = se_state s"
  using assms by (auto simp: apply_sequence_def split: if_splits)

text \<open>What credit and idempotency stages leave alone.\<close>

lemma credit_keeps:
  assumes "apply_credit s f = (s', r)" "sm_find (se_streams s) k = Some st"
  shows "se_state s' = se_state s"
    "\<exists>st'. sm_find (se_streams s') k = Some st' \<and> ss_next_sequence st' = ss_next_sequence st \<and>
       ss_generation st' = ss_generation st"
  using assms by (auto simp: apply_credit_def send_credit_def split: if_splits sum.splits option.splits)

lemma idempotency_keeps:
  assumes "apply_idempotency s f = (s', r)"
  shows "se_state s' = se_state s" "se_streams s' = se_streams s"
  using assms by (auto simp: apply_idempotency_def split: if_splits)

lemma stream_frame_accepted:
  assumes "apply_stream_frame s f = (s', Inr u)" "sm_find (se_streams s) (fr_stream_id f) = Some st"
  shows "fr_sequence f = ss_next_sequence st" "fr_stream_generation f = ss_generation st"
    "fr_type f \<noteq> ft_close_stream \<Longrightarrow>
       se_state s' = se_state s \<and>
       (\<exists>st'. sm_find (se_streams s') (fr_stream_id f) = Some st' \<and>
          ss_next_sequence st' = ss_next_sequence st + 1 \<and> ss_generation st' = ss_generation st)"
proof -
  from assms(1) obtain s1 s2 s3 v1 v2 v3 where st:
    "apply_sequence s f = (s1, Inr v1)" "apply_credit s1 f = (s2, Inr v2)"
    "apply_idempotency s2 f = (s3, Inr v3)" "s' = apply_close s3 f"
    by (auto simp: apply_stream_frame_def and_then_Inr)
  note seq = apply_sequence_Some [OF st(1) assms(2)]
  show "fr_sequence f = ss_next_sequence st" "fr_stream_generation f = ss_generation st" using seq by simp_all
  assume "fr_type f \<noteq> ft_close_stream"
  then have "s' = s3" using st(4) by (simp add: apply_close_def split: option.split)
  then show "se_state s' = se_state s \<and> (\<exists>st'. sm_find (se_streams s') (fr_stream_id f) = Some st' \<and>
      ss_next_sequence st' = ss_next_sequence st + 1 \<and> ss_generation st' = ss_generation st)"
    using credit_keeps [OF st(2) seq(3)] idempotency_keeps [OF st(3)] seq(4) by auto
qed

text \<open>Frames on other streams, among them the control frames on stream 0, leave a live stream alone.\<close>

lemma stream_frame_other:
  assumes "apply_stream_frame s f = (s', Inr u)" "sm_find (se_streams s) sid = Some st" "fr_stream_id f \<noteq> sid"
    and "se_state s = ses_active"
  shows "sm_find (se_streams s') sid = Some st" "se_state s' = ses_active"
proof -
  from assms(1) obtain s1 s2 s3 v1 v2 v3 where stages:
    "apply_sequence s f = (s1, Inr v1)" "apply_credit s1 f = (s2, Inr v2)"
    "apply_idempotency s2 f = (s3, Inr v3)" "s' = apply_close s3 f"
    by (auto simp: apply_stream_frame_def and_then_Inr)
  have "sm_find (se_streams s1) sid = Some st \<and> se_state s1 = ses_active"
    using stages(1) assms(2-4) by (auto simp: apply_sequence_def split: option.splits if_splits)
  then have "sm_find (se_streams s2) sid = Some st \<and> se_state s2 = ses_active"
    using stages(2) assms(3) by (auto simp: apply_credit_def send_credit_def split: option.splits sum.splits if_splits)
  then have "sm_find (se_streams s3) sid = Some st \<and> se_state s3 = ses_active"
    using idempotency_keeps [OF stages(3)] by simp
  moreover from this have "sm_find (sm_erase (fr_stream_id f) (se_streams s3)) sid = Some st" using assms(3) by simp
  then have "sm_erase (fr_stream_id f) (se_streams s3) \<noteq> []" by (metis option.distinct(1) sm_find_Nil)
  ultimately show "sm_find (se_streams s') sid = Some st" "se_state s' = ses_active"
    using stages(4) assms(3) by (auto simp: apply_close_def Let_def split: option.split)
qed

lemma run_frames_Cons:
  assumes "run_frames s (f # fs) = (s', Inr evs)"
  obtains s1 u evs' where "dispatch_frame s f = (s1, Inr u)" "run_frames s1 fs = (s', Inr evs')"
  using assms by (auto simp: prepend_Inr split: prod.splits sum.splits)

lemma run_frames_sequence:
  assumes "run_frames s fs = (s', Inr evs)" "se_state s = ses_active" "sm_find (se_streams s) sid = Some st"
    and "list_all (\<lambda>f. fr_stream_id f = sid \<longrightarrow> fr_type f \<noteq> ft_close_stream) fs"
  shows "map fr_sequence (filter (\<lambda>f. fr_stream_id f = sid) fs) =
      map (\<lambda>i. ss_next_sequence st + of_nat i) [0..<length (filter (\<lambda>f. fr_stream_id f = sid) fs)] \<and>
    (\<forall>f \<in> set fs. fr_stream_id f = sid \<longrightarrow> fr_stream_generation f = ss_generation st)"
  using assms
proof (induction fs arbitrary: s st evs)
  case (Cons f fs)
  from Cons.prems(1) obtain s1 u evs' where d: "dispatch_frame s f = (s1, Inr u)" and r: "run_frames s1 fs = (s', Inr evs')"
    by (rule run_frames_Cons)
  from d Cons.prems(2) have app: "apply_stream_frame s f = (s1, Inr u)" by (auto simp: dispatch_frame_def)
  show ?case
  proof (cases "fr_stream_id f = sid")
    case True
    note acc = stream_frame_accepted [OF app, of st]
    obtain st' where st': "sm_find (se_streams s1) sid = Some st'" "se_state s1 = ses_active"
      "ss_next_sequence st' = ss_next_sequence st + 1" "ss_generation st' = ss_generation st"
      using acc(3) Cons.prems(2,3,4) True by auto
    have "[0..<Suc (length gs)] = 0 # map Suc [0..<length gs]" for gs :: "FipcFrame list"
      by (simp add: map_Suc_upt upt_conv_Cons del: upt_Suc)
    moreover note Cons.IH [OF r st'(2,1)]
    moreover have "fr_sequence f = ss_next_sequence st" "fr_stream_generation f = ss_generation st"
      using acc(1,2) Cons.prems(3) True by simp_all
    ultimately show ?thesis using Cons.prems(4) True by (simp add: st'(3,4) add.assoc del: upt_Suc)
  next
    case False
    from Cons.IH [OF r] stream_frame_other [OF app Cons.prems(3) False Cons.prems(2)] Cons.prems(4) False
    show ?thesis by simp
  qed
qed simp

text \<open>Idempotency tokens and retired generations are never forgotten.\<close>

lemma stages_keep_token:
  assumes "sm_find (se_idempotency s) tok = Some p"
  shows "sm_find (se_idempotency (fst (apply_open s f))) tok = Some p"
    "sm_find (se_idempotency (fst (apply_sequence s f))) tok = Some p"
    "sm_find (se_idempotency (fst (apply_credit s f))) tok = Some p"
    "sm_find (se_idempotency (fst (apply_idempotency s f))) tok = Some p"
    "sm_find (se_idempotency (apply_close s f)) tok = Some p"
  using assms
  by (simp_all add: apply_open_def apply_sequence_def apply_credit_def send_credit_def apply_idempotency_def
      apply_close_def Let_def split: option.split sum.split) auto

lemma fst_prepend [simp]: "fst (prepend pre r) = fst r"
  by (simp add: prepend_def split: prod.split sum.split)

lemma dispatch_keeps_token:
  "sm_find (se_idempotency s) tok = Some p \<Longrightarrow> sm_find (se_idempotency (fst (dispatch_frame s f))) tok = Some p"
  by (auto simp: dispatch_frame_def apply_stream_frame_def stages_keep_token
      intro!: and_then_inv [where P = "\<lambda>s. sm_find (se_idempotency s) tok = Some p"])

lemma run_frames_keep_token:
  "sm_find (se_idempotency s) tok = Some p \<Longrightarrow> sm_find (se_idempotency (fst (run_frames s fs))) tok = Some p"
proof (induction fs arbitrary: s)
  case (Cons f fs)
  then show ?case
    using Cons.IH dispatch_keeps_token [OF Cons.prems, of f]
    by (cases "dispatch_frame s f"; cases "snd (dispatch_frame s f)") simp_all
qed simp

lemma dispatch_request_stored:
  "dispatch_frame s f = (s', Inr u) \<Longrightarrow> fr_type f = ft_build_request \<Longrightarrow>
    sm_find (se_idempotency s') (fr_request_token f) = Some (fr_payload f) \<and>
    (\<forall>p. sm_find (se_idempotency s) (fr_request_token f) = Some p \<longrightarrow> p = fr_payload f)"
proof -
  assume d: "dispatch_frame s f = (s', Inr u)" and ty: "fr_type f = ft_build_request"
  then have "apply_stream_frame s f = (s', Inr u)" by (auto simp: dispatch_frame_def split: if_splits)
  then obtain s1 s2 s3 v1 v2 v3 where st:
    "apply_sequence s f = (s1, Inr v1)" "apply_credit s1 f = (s2, Inr v2)"
    "apply_idempotency s2 f = (s3, Inr v3)" "s' = apply_close s3 f"
    by (auto simp: apply_stream_frame_def and_then_Inr)
  have "se_idempotency s1 = se_idempotency s" "se_idempotency s2 = se_idempotency s1"
    using st(1,2) ty by (auto simp: apply_sequence_def apply_credit_def split: option.splits if_splits)
  moreover have "s' = s3" using st(4) ty by (simp add: apply_close_def split: option.split)
  ultimately show ?thesis
    using st(3) ty by (auto simp: apply_idempotency_def split: if_splits option.splits)
qed

lemma run_frames_requests:
  assumes "run_frames s fs = (s', Inr evs)" "f \<in> set fs" "fr_type f = ft_build_request"
  shows "sm_find (se_idempotency s') (fr_request_token f) = Some (fr_payload f)"
  using assms
proof (induction fs arbitrary: s evs)
  case (Cons g fs)
  from Cons.prems(1) obtain s1 u evs' where d: "dispatch_frame s g = (s1, Inr u)" and r: "run_frames s1 fs = (s', Inr evs')"
    by (rule run_frames_Cons)
  show ?case
    using Cons.IH [OF r] Cons.prems(2,3) run_frames_keep_token [of s1 _ _ fs] r dispatch_request_stored [OF d] by auto
qed simp

text \<open>Once closed, a session stays closed and reports no event.\<close>

lemma dispatch_closed: "se_state s = ses_closed \<Longrightarrow> \<exists>e. dispatch_frame s f = (s, Inl e)"
  by (simp add: dispatch_frame_def)

lemma loop_on_closed:
  assumes "se_state s = ses_closed"
  shows "se_state (fst (session_loop s data events)) = ses_closed \<and>
    (snd (session_loop s data events) = Inr events \<or> (\<exists>e. snd (session_loop s data events) = Inl e))"
proof -
  obtain c d where cd: "codec_feed (se_codec s) data = (c, d)" by (cases "codec_feed (se_codec s) data")
  obtain e where "dispatch_frame (swap_codec c s) (the (dr_frame d)) = (swap_codec c s, Inl e)"
    using dispatch_closed [of "swap_codec c s"] assms by auto
  then show ?thesis
    using assms by (cases "dr_state d") (simp_all add: loop_steps [OF cd])
qed

text \<open>The first event of a fresh session is the HELLO.\<close>

lemma loop_on_accepted:
  assumes "se_state s = ses_accepted" "session_feed s data = (s', Inr (e # es))"
  shows "ev_type e = ft_hello \<and> ev_stream_id e = 0 \<and> ev_sequence e = 0"
proof -
  obtain c d where cd: "codec_feed (se_codec s) data = (c, d)" by (cases "codec_feed (se_codec s) data")
  show ?thesis
  proof (cases "dr_state d")
    case ds_frame
    obtain s1 r where sr: "dispatch_frame (swap_codec c s) (the (dr_frame d)) = (s1, r)"
      by (cases "dispatch_frame (swap_codec c s) (the (dr_frame d))")
    have run: "session_loop s data [] = (s', Inr (e # es))" using assms(2) by (simp add: session_feed_def)
    obtain u where r: "r = Inr u" and e: "e = event_of (the (dr_frame d))"
      using run sr by (cases r) (auto simp: loop_frame [OF cd ds_frame] loop_feed [of s1] prepend_Inr
          split: if_splits)
    then show ?thesis
      using sr assms(1) by (auto simp: dispatch_frame_def event_of_def split: if_splits)
  qed (use assms in \<open>simp_all add: session_feed_def loop_steps [OF cd]\<close>)
qed

text \<open>Retired generations only grow, and an opened stream is newer than every retired one.\<close>

definition retired_at_least :: "u32 \<Rightarrow> u32 \<Rightarrow> FipcSession \<Rightarrow> bool" where
  "retired_at_least sid g s \<longleftrightarrow> (\<exists>h. sm_find (se_retired s) sid = Some h \<and> g \<le> h)"

lemma stages_keep_retired:
  "se_retired (fst (apply_open s f)) = se_retired s" "se_retired (fst (apply_sequence s f)) = se_retired s"
  "se_retired (fst (apply_credit s f)) = se_retired s" "se_retired (fst (apply_idempotency s f)) = se_retired s"
  by (simp_all add: apply_open_def apply_sequence_def apply_credit_def send_credit_def apply_idempotency_def Let_def
      split: option.split sum.split)

lemma close_keeps_retired:
  "session_inv s \<Longrightarrow> retired_at_least sid g s \<Longrightarrow> retired_at_least sid g (apply_close s f)"
  by (fastforce simp: apply_close_def retired_at_least_def session_inv_def Let_def split: option.splits)

lemma dispatch_keeps_retired:
  assumes "session_inv s" "retired_at_least sid g s"
  shows "retired_at_least sid g (fst (dispatch_frame s f))"
proof -
  let ?P = "\<lambda>s. session_inv s \<and> retired_at_least sid g s"
  have st: "?P (fst (apply_sequence t f))" "?P (fst (apply_credit t f))" "?P (fst (apply_idempotency t f))"
    "?P (apply_close t f)" if "?P t" for t
    using that session_inv_stages [of t] session_inv_close close_keeps_retired
    by (auto simp: retired_at_least_def stages_keep_retired)
  have "?P (fst (apply_stream_frame s f))"
    unfolding apply_stream_frame_def using assms
    by (intro and_then_inv [where P = ?P] st)
      (auto intro: session_inv_close close_keeps_retired)
  then show ?thesis
    using assms by (auto simp: dispatch_frame_def retired_at_least_def stages_keep_retired)
qed

lemma run_frames_keep_retired:
  "session_inv s \<Longrightarrow> retired_at_least sid g s \<Longrightarrow> retired_at_least sid g (fst (run_frames s fs))"
proof (induction fs arbitrary: s)
  case (Cons f fs)
  then show ?case
    using dispatch_keeps_retired [OF Cons.prems, of f] session_inv_dispatch [OF Cons.prems(1), of f]
    by (cases "dispatch_frame s f"; cases "snd (dispatch_frame s f)") (auto simp: retired_at_least_def)
qed simp

lemma run_frames_inv: "session_inv s \<Longrightarrow> session_inv (fst (run_frames s fs))"
proof (induction fs arbitrary: s)
  case (Cons f fs)
  then show ?case
    using session_inv_dispatch [OF Cons.prems, of f]
    by (cases "dispatch_frame s f"; cases "snd (dispatch_frame s f)") (auto simp: session_inv_closed)
qed simp

lemma run_frames_append:
  assumes "run_frames s (fs @ gs) = (s', Inr evs)"
  obtains s1 evs1 evs2 where "run_frames s fs = (s1, Inr evs1)" "run_frames s1 gs = (s', Inr evs2)"
  using assms
proof (induction fs arbitrary: s evs thesis)
  case (Cons f fs)
  from Cons.prems(2) obtain s1 u evs' where d: "dispatch_frame s f = (s1, Inr u)" and r: "run_frames s1 (fs @ gs) = (s', Inr evs')"
    unfolding append_Cons by (rule run_frames_Cons)
  from Cons.IH [OF _ r] obtain s2 evs1 evs2 where "run_frames s1 fs = (s2, Inr evs1)" "run_frames s2 gs = (s', Inr evs2)" by blast
  then show ?case using d by (intro Cons.prems(1) [of s2]) (auto simp: prepend_def)
qed auto

text \<open>An accepted close retires the generation it carries.\<close>

lemma close_retires:
  assumes "dispatch_frame s f = (s', Inr u)" "fr_type f = ft_close_stream" "fr_stream_id f \<noteq> 0"
  shows "retired_at_least (fr_stream_id f) (fr_stream_generation f) s'"
proof -
  have app: "apply_stream_frame s f = (s', Inr u)" using assms(1,2) by (auto simp: dispatch_frame_def split: if_splits)
  then obtain s1 s2 s3 v1 v2 v3 where stages:
    "apply_sequence s f = (s1, Inr v1)" "apply_credit s1 f = (s2, Inr v2)"
    "apply_idempotency s2 f = (s3, Inr v3)" "s' = apply_close s3 f"
    by (auto simp: apply_stream_frame_def and_then_Inr)
  obtain st where st: "sm_find (se_streams s) (fr_stream_id f) = Some st"
    using stages(1) assms(3) by (auto simp: apply_sequence_def split: option.splits)
  note seq = apply_sequence_Some [OF stages(1) st]
  have "s2 = s1" "s3 = s2" using stages(2,3) assms(2) by (simp_all add: apply_credit_def apply_idempotency_def)
  then show ?thesis using stages(4) seq assms(2) by (simp add: apply_close_def Let_def retired_at_least_def)
qed

text \<open>A frame that is accepted on a nonzero stream id is newer than every retired generation of that id.\<close>

lemma accepted_is_newer:
  assumes inv: "session_inv s" and d: "dispatch_frame s f = (s', Inr u)" "fr_stream_id f \<noteq> 0"
    and retired: "retired_at_least (fr_stream_id f) g s"
  shows "g < fr_stream_generation f"
proof (cases "se_state s = ses_negotiated \<and> fr_type f = ft_open_stream")
  case True
  then show ?thesis using d(1) retired by (auto simp: dispatch_frame_def apply_open_def retired_at_least_def split: if_splits)
next
  case False
  then have "apply_stream_frame s f = (s', Inr u)" using d by (auto simp: dispatch_frame_def split: if_splits)
  then obtain s1 v where seq: "apply_sequence s f = (s1, Inr v)" by (auto simp: apply_stream_frame_def and_then_Inr)
  then obtain st where st: "sm_find (se_streams s) (fr_stream_id f) = Some st"
    using d(2) by (auto simp: apply_sequence_def split: option.splits)
  then show ?thesis
    using apply_sequence_Some(2) [OF seq st] inv retired unfolding session_inv_def retired_at_least_def by fastforce
qed

section \<open>Credit as a ledger\<close>

definition session_balance :: "FipcSession \<Rightarrow> u32 \<Rightarrow> u64 option" where
  "session_balance s sid = map_option ss_credit (sm_find (se_streams s) sid)"

interpretation session_credit: credit_ledger session_balance send_credit reserve_send
proof unfold_locales
  fix s s' k n u b
  assume "send_credit s k n = (s', Inr u)" "session_balance s k = Some b"
  then show "\<exists>c. session_balance s' k = Some c \<and> unat c = unat b + unat n"
    by (auto simp: send_credit_def session_balance_def checked_add_unat split: sum.splits)
next
  fix s s' k n t u b
  assume "reserve_send s k n t = (s', Inr u)" "session_balance s k = Some b"
  then show "\<exists>c. session_balance s' k = Some c \<and> (if t \<and> b < n then c = b else unat b = unat c + unat n)"
    using unat_sub_le [of n b] by (cases "b < n") (auto simp: reserve_send_def session_balance_def split: if_splits)
qed (auto simp: send_credit_def reserve_send_def session_balance_def fun_eq_iff
    split: option.splits sum.splits if_splits)

section \<open>Properties\<close>

text \<open>Concrete frames and sessions for the witnesses.\<close>

definition demo_frame :: "FrameType \<Rightarrow> u32 \<Rightarrow> u32 \<Rightarrow> u64 \<Rightarrow> Bytes \<Rightarrow> FipcFrame" where
  "demo_frame ty sid g sq p = \<lparr>fr_type = ty, fr_flags = 0, fr_stream_id = sid, fr_stream_generation = g,
     fr_sequence = sq, fr_request_token = 7, fr_payload = p\<rparr>"

definition demo_hello :: FipcFrame where "demo_hello = demo_frame ft_hello 0 0 0 []"
definition demo_open :: FipcFrame where "demo_open = demo_frame ft_open_stream 9 1 0 []"
definition demo_request :: FipcFrame where "demo_request = demo_frame ft_build_request 9 1 0 [1]"
definition demo_close :: FipcFrame where "demo_close = demo_frame ft_close_stream 9 1 0 []"
definition demo_reopen :: FipcFrame where "demo_reopen = demo_frame ft_open_stream 9 2 0 []"

lemmas demo_frames = demo_frame_def demo_hello_def demo_open_def demo_request_def demo_close_def demo_reopen_def

definition demo_session :: "FipcFrame list \<Rightarrow> FipcSession" where
  "demo_session fs = fst (run_frames (new_session default_limits) fs)"

lemma demo_room: "n \<le> 33554432 \<Longrightarrow> session_room (new_session default_limits) n"
  by (simp add: session_room_def new_session_def new_codec_def default_limits_def)

lemma demo_fits: "length (fr_payload f) \<le> 1000 \<Longrightarrow> frame_fits default_limits f"
  by (simp add: frame_fits_def default_limits_def)

text \<open>
  C2. Splitting the bytes of a connection into chunks in any way does not change what the session
  reports, as long as the codec is open and all of the bytes fit its allocation limit: feeding the
  chunks one by one gives the same events or the same error as feeding their concatenation at once,
  and the same session. After an error the sessions differ only in the bytes of the chunks that were
  not fed any more, which are left behind in the buffer of the closed session.
\<close>

theorem session_chunking_irrelevant:
  assumes "session_room s (length (concat (x # xs)))" "feed_chunks s (x # xs) = (s', r)"
  shows "\<exists>k. session_feed s (concat (x # xs)) = (with_pending s' (concat (drop k xs)), r) \<and> (\<not> isl r \<longrightarrow> concat (drop k xs) = [])"
  using feed_chunks_concat [OF assms(1)] assms(2) by auto

theorem session_chunking_irrelevant_witness:
  "session_room (new_session default_limits) 40 \<and>
   snd (feed_chunks (new_session default_limits) [take 7 (codec_encode demo_hello), drop 7 (codec_encode demo_hello)]) =
   snd (session_feed (new_session default_limits) (codec_encode demo_hello))"
proof -
  define e where "e = codec_encode demo_hello"
  define xs where "xs = [drop 7 e]"
  obtain s' r where run: "feed_chunks (new_session default_limits) (take 7 e # xs) = (s', r)" by fastforce
  have "length e = 40" by (simp add: e_def demo_frames)
  moreover have e: "concat (take 7 e # xs) = e" by (simp add: xs_def)
  ultimately have "session_room (new_session default_limits) (length (concat (take 7 e # xs)))" using demo_room [of 40] by simp
  from session_chunking_irrelevant [OF this run] have "snd (session_feed (new_session default_limits) e) = r" unfolding e by auto
  then have "snd (feed_chunks (new_session default_limits) [take 7 e, drop 7 e]) = snd (session_feed (new_session default_limits) e)"
    using run unfolding xs_def by (simp only: snd_conv)
  moreover have "session_room (new_session default_limits) 40" by (rule demo_room) simp
  ultimately show ?thesis unfolding e_def by (intro conjI)
qed

text \<open>
  C20. Frames that are encoded, concatenated and fed to a session with an empty buffer, an open
  codec and room for all of them are applied in order. When none is refused the session reports
  exactly their events and ends in the state that applying them one by one gives. Otherwise the
  frames before the first refused one are applied, the feed returns its error, the session is closed
  and the bytes of the frames behind it stay in the buffer.
\<close>

theorem session_feed_encoded_frames:
  assumes "list_all (frame_fits (cd_limits (se_codec s))) fs" "cd_buffer (se_codec s) = []"
    and "session_room s (length (concat (map codec_encode fs)))"
  shows "case run_frames s fs of
      (s', Inr evs) \<Rightarrow> session_feed s (concat (map codec_encode fs)) = (s', Inr evs)
    | (s', Inl e) \<Rightarrow> \<exists>k < length fs. \<not> isl (snd (run_frames s (take k fs))) \<and>
        session_feed s (concat (map codec_encode fs)) = (with_pending s' (concat (map codec_encode (drop (Suc k) fs))), Inl e)"
  using assms by (rule feed_stream)

lemma demo_stream:
  assumes "list_all (\<lambda>f. length (fr_payload f) \<le> 1000) fs" "length (concat (map codec_encode fs)) \<le> 33554432"
  shows "list_all (frame_fits (cd_limits (se_codec (new_session default_limits)))) fs"
    "cd_buffer (se_codec (new_session default_limits)) = []"
    "session_room (new_session default_limits) (length (concat (map codec_encode fs)))"
  using assms demo_fits demo_room by (simp_all add: new_session_def new_codec_def list_all_iff)

lemma demo_run:
  "run_frames (new_session default_limits) [demo_hello, demo_open, demo_request] =
    (demo_session [demo_hello, demo_open, demo_request], Inr [event_of demo_hello, event_of demo_open, event_of demo_request])"
  by code_simp

lemma demo_sizes:
  "list_all (\<lambda>f. length (fr_payload f) \<le> 1000) [demo_hello, demo_open, demo_request]"
  "length (concat (map codec_encode [demo_hello, demo_open, demo_request])) \<le> 33554432"
  "list_all (\<lambda>f. length (fr_payload f) \<le> 1000) [demo_hello, demo_request, demo_open]"
  "length (concat (map codec_encode [demo_hello, demo_request, demo_open])) \<le> 33554432"
  by (simp_all add: demo_frames)

lemma demo_feed:
  "session_feed (new_session default_limits) (concat (map codec_encode [demo_hello, demo_open, demo_request])) =
    (demo_session [demo_hello, demo_open, demo_request], Inr [event_of demo_hello, event_of demo_open, event_of demo_request])"
  by (rule feed_stream_accepted [OF demo_stream [OF demo_sizes(1,2)] demo_run])

lemma demo_refused:
  "run_frames (new_session default_limits) [demo_hello, demo_request, demo_open] =
    (demo_session [demo_hello, demo_request], Inl (session_error ec_protocol ''unknown stream''))"
  by code_simp

theorem session_feed_encoded_frames_witness:
  "session_feed (new_session default_limits) (concat (map codec_encode [demo_hello, demo_open, demo_request])) =
    (demo_session [demo_hello, demo_open, demo_request], Inr [event_of demo_hello, event_of demo_open, event_of demo_request]) \<and>
   snd (session_feed (new_session default_limits) (concat (map codec_encode [demo_hello, demo_request, demo_open]))) =
    Inl (session_error ec_protocol ''unknown stream'')"
proof
  show "session_feed (new_session default_limits) (concat (map codec_encode [demo_hello, demo_open, demo_request])) =
    (demo_session [demo_hello, demo_open, demo_request], Inr [event_of demo_hello, event_of demo_open, event_of demo_request])"
    using session_feed_encoded_frames [OF demo_stream [OF demo_sizes(1,2)]] by (simp only: demo_run prod.case sum.case)
  have "\<exists>t. session_feed (new_session default_limits) (concat (map codec_encode [demo_hello, demo_request, demo_open])) =
      (t, Inl (session_error ec_protocol ''unknown stream''))"
    using session_feed_encoded_frames [OF demo_stream [OF demo_sizes(3,4)]] by (simp only: demo_refused prod.case sum.case) blast
  then show "snd (session_feed (new_session default_limits) (concat (map codec_encode [demo_hello, demo_request, demo_open]))) =
    Inl (session_error ec_protocol ''unknown stream'')" by auto
qed

text \<open>
  C15. Every session that is reached from a fresh one by feeding bytes, granting credit and
  reserving sends satisfies the session invariant: sorted tables, at most one live stream, none
  before the first \<open>OPEN_STREAM\<close>, a live stream in the active state, nonzero stream ids, and
  generations above the retired ones.
\<close>

theorem session_invariant:
  assumes "session_reach lim s"
  shows "session_inv s"
  using assms by (rule session_reach_inv)

theorem session_invariant_witness:
  "session_inv (fst (session_feed (new_session default_limits) (codec_encode demo_hello)))"
  by (rule session_invariant [of default_limits], intro session_reach.intros)

text \<open>
  A closed session is final: feeding it more bytes keeps it closed and yields either no
  event or an error.
\<close>

theorem closed_session_final:
  assumes "se_state s = ses_closed"
  shows "se_state (fst (session_feed s data)) = ses_closed \<and>
    (snd (session_feed s data) = Inr [] \<or> (\<exists>e. snd (session_feed s data) = Inl e))"
  using loop_on_closed [OF assms, of data "[]"] by (simp add: session_feed_def)

theorem closed_session_final_witness:
  "se_state (fst (session_feed ((new_session default_limits)\<lparr>se_state := ses_closed\<rparr>) [1, 2])) = ses_closed"
  using closed_session_final [of "(new_session default_limits)\<lparr>se_state := ses_closed\<rparr>" "[1, 2]"] by simp

text \<open>
  No frame is dispatched before the handshake: the first event a fresh session reports is
  a \<open>HELLO\<close> on stream 0 with sequence 0.
\<close>

theorem handshake_first:
  assumes "se_state s = ses_accepted" "session_feed s data = (s', Inr (e # es))"
  shows "ev_type e = ft_hello \<and> ev_stream_id e = 0 \<and> ev_sequence e = 0"
  using assms by (rule loop_on_accepted)

theorem handshake_first_witness:
  "ev_type (event_of demo_hello) = ft_hello \<and> ev_stream_id (event_of demo_hello) = 0 \<and>
   ev_sequence (event_of demo_hello) = 0"
  using handshake_first [OF _ demo_feed] by (simp add: new_session_def)

text \<open>
  C16. Sequence numbers on a stream are gapless: while a stream is live, of the frames that the
  session accepts, with control frames on stream 0 at any places between them, the \<open>i\<close>-th one on that
  stream carries the stream's next sequence number plus \<open>i\<close>, modulo \<open>2 ^ 64\<close>, and all of them carry
  the stream's generation. The run has no frame that closes the stream.
\<close>

theorem stream_sequence_gapless:
  assumes "run_frames s fs = (s', Inr evs)" "se_state s = ses_active" "sm_find (se_streams s) sid = Some st"
    and "list_all (\<lambda>f. fr_stream_id f = sid \<longrightarrow> fr_type f \<noteq> ft_close_stream) fs"
  shows "map fr_sequence (filter (\<lambda>f. fr_stream_id f = sid) fs) =
      map (\<lambda>i. ss_next_sequence st + of_nat i) [0..<length (filter (\<lambda>f. fr_stream_id f = sid) fs)] \<and>
    (\<forall>f \<in> set fs. fr_stream_id f = sid \<longrightarrow> fr_stream_generation f = ss_generation st)"
  using assms by (rule run_frames_sequence)

definition demo_control :: FipcFrame where "demo_control = demo_frame ft_status_event 0 0 77 []"

definition demo_mixed :: "FipcFrame list" where
  "demo_mixed = [demo_request, demo_control, demo_frame ft_build_request 9 1 1 [1], demo_control, demo_frame ft_credit 9 1 2 (le64 5)]"

lemma demo_streams:
  "se_state (demo_session [demo_hello, demo_open]) = ses_active"
  "sm_find (se_streams (demo_session [demo_hello, demo_open])) 9 =
    Some \<lparr>ss_generation = 1, ss_next_sequence = 0, ss_credit = 0, ss_terminal_pending = False\<rparr>"
  "run_frames (demo_session [demo_hello, demo_open]) demo_mixed =
    (demo_session ([demo_hello, demo_open] @ demo_mixed), Inr (map event_of demo_mixed))"
  by code_simp+

theorem stream_sequence_gapless_witness:
  "run_frames (demo_session [demo_hello, demo_open]) demo_mixed =
    (demo_session ([demo_hello, demo_open] @ demo_mixed), Inr (map event_of demo_mixed)) \<and>
   map fr_sequence (filter (\<lambda>f. fr_stream_id f = 9) demo_mixed) = map of_nat [0..<3]"
proof -
  have "list_all (\<lambda>f. fr_stream_id f = 9 \<longrightarrow> fr_type f \<noteq> ft_close_stream) demo_mixed"
    "length (filter (\<lambda>f. fr_stream_id f = 9) demo_mixed) = 3" by (simp_all add: demo_mixed_def demo_control_def demo_frames)
  then show ?thesis using stream_sequence_gapless [OF demo_streams(3,1,2)] demo_streams(3) by simp
qed

text \<open>
  C17. A request token names one payload: two build requests with the same token that one
  session accepts have the same payload, whatever comes between them.
\<close>

theorem idempotency_token_single_payload:
  assumes "run_frames s fs = (s', Inr evs)" "f \<in> set fs" "g \<in> set fs"
    and "fr_type f = ft_build_request" "fr_type g = ft_build_request"
    and "fr_request_token f = fr_request_token g"
  shows "fr_payload f = fr_payload g"
  using run_frames_requests [OF assms(1,2,4)] run_frames_requests [OF assms(1,3,5)] assms(6) by simp

theorem idempotency_token_single_payload_witness:
  "fr_payload demo_request = fr_payload (demo_frame ft_build_request 9 1 1 [1])"
proof (rule idempotency_token_single_payload)
  show "run_frames (new_session default_limits)
      [demo_hello, demo_open, demo_request, demo_frame ft_build_request 9 1 1 [1]] =
    (demo_session [demo_hello, demo_open, demo_request, demo_frame ft_build_request 9 1 1 [1]],
     Inr (map event_of [demo_hello, demo_open, demo_request, demo_frame ft_build_request 9 1 1 [1]]))"
    by code_simp
qed (simp_all add: demo_frames)

text \<open>
  C18. A closed stream id is used again only with a greater generation: after a reachable session has
  accepted a \<open>CLOSE_STREAM\<close> for a nonzero id, every later frame that it accepts on that id, the
  \<open>OPEN_STREAM\<close> that reopens it included, carries a generation above that of the close, whatever comes
  between the two.
\<close>

theorem stream_reuse_needs_newer_generation:
  assumes "session_reach lim s" "run_frames s (close # fs @ [f]) = (s', Inr evs)"
    and "fr_type close = ft_close_stream" "fr_stream_id close = sid" "sid \<noteq> 0" "fr_stream_id f = sid"
  shows "fr_stream_generation close < fr_stream_generation f"
proof -
  obtain s1 s2 s3 u v evs1 where run: "dispatch_frame s close = (s1, Inr u)" "run_frames s1 fs = (s2, Inr evs1)"
    "dispatch_frame s2 f = (s3, Inr v)"
    using assms(2) by (elim run_frames_Cons run_frames_append) blast
  have inv1: "session_inv s1" using session_inv_dispatch [OF session_reach_inv [OF assms(1)], of close] run(1) by simp
  have "retired_at_least sid (fr_stream_generation close) s1" using close_retires [OF run(1)] assms(3-5) by simp
  then have "retired_at_least sid (fr_stream_generation close) s2" "session_inv s2"
    using run_frames_keep_retired [OF inv1, of sid _ fs] run_frames_inv [OF inv1, of fs] run(2) by auto
  then show ?thesis using accepted_is_newer [OF _ run(3)] assms(5,6) by simp
qed

lemma demo_reach:
  assumes "list_all (\<lambda>f. length (fr_payload f) \<le> 1000) fs" "length (concat (map codec_encode fs)) \<le> 33554432"
    and "run_frames (new_session default_limits) fs = (s, Inr evs)"
  shows "session_reach default_limits s"
proof -
  have "session_feed (new_session default_limits) (concat (map codec_encode fs)) = (s, Inr evs)"
    by (rule feed_stream_accepted [OF demo_stream [OF assms(1,2)] assms(3)])
  then show ?thesis using session_reach.feed [OF session_reach.start] by (metis fst_conv)
qed

theorem stream_reuse_needs_newer_generation_witness:
  "\<not> isl (snd (run_frames (demo_session [demo_hello, demo_open]) [demo_close, demo_control, demo_reopen])) \<and>
   fr_stream_generation demo_close < fr_stream_generation demo_reopen"
proof -
  let ?s = "demo_session [demo_hello, demo_open]"
  have reach: "session_reach default_limits ?s"
    by (rule demo_reach [of "[demo_hello, demo_open]" _ "map event_of [demo_hello, demo_open]"])
      (simp add: demo_frames, simp add: demo_frames, code_simp)
  have run: "run_frames ?s (demo_close # [demo_control] @ [demo_reopen]) =
    (demo_session [demo_hello, demo_open, demo_close, demo_control, demo_reopen], Inr (map event_of [demo_close, demo_control, demo_reopen]))"
    by code_simp
  then have "\<not> isl (snd (run_frames ?s [demo_close, demo_control, demo_reopen]))" by simp
  moreover have "fr_stream_generation demo_close < fr_stream_generation demo_reopen"
    by (rule stream_reuse_needs_newer_generation [OF reach run]) (simp_all add: demo_frames)
  ultimately show ?thesis by blast
qed


definition demo_ledger :: "u32 credit_op list" where
  "demo_ledger = [Grant 9 5, Spend 9 3 False, Spend 9 8 False, Spend 9 8 True, Spend 9 1 True]"


text \<open>
  While a stream is live no second one can be opened: an \<open>OPEN_STREAM\<close> for another nonzero
  id is refused as an unknown stream, in every reachable session that is active.
\<close>

theorem second_stream_refused:
  assumes "session_reach lim s" "se_state s = ses_active" "sm_find (se_streams s) sid = Some st"
    and "fr_type f = ft_open_stream" "fr_stream_id f \<noteq> 0" "fr_stream_id f \<noteq> sid"
  shows "dispatch_frame s f = (s, Inl (session_error ec_protocol ''unknown stream''))"
proof -
  have "se_streams s = [(sid, st)]" using session_reach_inv [OF assms(1)] assms(3) by (rule single_stream)
  then show ?thesis
    using assms(2,5,6) by (simp add: dispatch_frame_def apply_stream_frame_def apply_sequence_def and_then_def)
qed

theorem second_stream_refused_witness:
  "dispatch_frame (demo_session [demo_hello, demo_open]) (demo_frame ft_open_stream 3 1 0 []) =
    (demo_session [demo_hello, demo_open], Inl (session_error ec_protocol ''unknown stream''))"
proof (rule second_stream_refused [OF _ demo_streams(1,2)])
  show "session_reach default_limits (demo_session [demo_hello, demo_open])"
    by (rule demo_reach [of "[demo_hello, demo_open]" _ "map event_of [demo_hello, demo_open]"])
      (simp add: demo_frames, simp add: demo_frames, code_simp)
qed (simp_all add: demo_frames)

end
