(* ===== verification/Forge_Daemon.thy ===== *)
theory Forge_Daemon
  imports Forge_Session Forge_Workspace
begin

text \<open>
  The daemon and its Unix socket server and client: \<^verbatim>\<open>include/forge/daemon.hpp\<close>, \<^verbatim>\<open>src/ipc/server.cpp\<close> and
  \<^verbatim>\<open>src/ipc/client.cpp\<close>. What the system calls return is a parameter: the results of \<open>recv\<close> and \<open>send\<close>
  on a connection are lists that the loops consume, and a loop whose list runs out blocks, which is
  the result \<open>None\<close>. The lemmas show that partial and interrupted calls do not change what is sent
  and received, and that a status request is answered with the status of the daemon.
\<close>

section \<open>Definitions\<close>

subsection \<open>Daemon\<close>

datatype DaemonState = das_initialized | das_running | das_stopping | das_stopped

fun daemon_state_name :: "DaemonState \<Rightarrow> string" where
  "daemon_state_name das_initialized = ''initialized''"
| "daemon_state_name das_running = ''running''"
| "daemon_state_name das_stopping = ''stopping''"
| "daemon_state_name das_stopped = ''stopped''"

record Daemon =
  dm_state :: DaemonState
  dm_workspace :: WorkspaceCore

definition new_daemon :: "(string \<Rightarrow> string) \<Rightarrow> Daemon" where
  "new_daemon relative = \<lparr>dm_state = das_initialized, dm_workspace = new_workspace relative\<rparr>"

definition daemon_start :: "Daemon \<Rightarrow> Daemon \<times> unit Result" where
  "daemon_start d =
     (if dm_state d \<noteq> das_initialized \<and> dm_state d \<noteq> das_stopped
      then (d, Inl (error ec_internal_invariant ''daemon'' ''daemon already running''))
      else (d\<lparr>dm_state := das_running\<rparr>, Inr ()))"

definition daemon_stop :: "Daemon \<Rightarrow> Daemon \<times> unit Result" where
  "daemon_stop d =
     (if dm_state d = das_stopped then (d, Inr ())
      else
        let d = d\<lparr>dm_state := das_stopping\<rparr>;
            d = d\<lparr>dm_state := das_stopped\<rparr>
        in (d, Inr ()))"

subsection \<open>Connections\<close>

text \<open>
  The results of \<open>recv\<close>, where receiving no byte is the end of the connection, and of \<open>send\<close>, which
  accepts a number of bytes. A failure carries the text of \<open>strerror\<close>.
\<close>

datatype recv_result = Received Bytes | RecvInterrupted | RecvFailed string
datatype send_result = Sent nat | SendInterrupted | SendFailed string

definition socket_error :: "string \<Rightarrow> string \<Rightarrow> string \<Rightarrow> Status" where
  "socket_error cmp msg err = error ec_io cmp (msg @ '': '' @ err)"

text \<open>
  \<open>write_all\<close> of both sides: \<open>bytes\<close> is the part that is not written yet and \<open>wire\<close> what was sent so
  far; the two copies of the function differ in the error \<open>failed\<close> they return.
\<close>

fun write_all :: "(string \<Rightarrow> Status) \<Rightarrow> Bytes \<Rightarrow> send_result list \<Rightarrow> Bytes \<Rightarrow> (Bytes \<times> send_result list \<times> unit Result) option" where
  "write_all failed [] sends wire = Some (wire, sends, Inr ())"
| "write_all failed (b # bs) [] wire = None"
| "write_all failed (b # bs) (Sent n # sends) wire = write_all failed (drop n (b # bs)) sends (wire @ take n (b # bs))"
| "write_all failed (b # bs) (SendInterrupted # sends) wire = write_all failed (b # bs) sends wire"
| "write_all failed (b # bs) (SendFailed err # sends) wire = Some (wire, sends, Inl (failed err))"

definition server_write_all :: "Bytes \<Rightarrow> send_result list \<Rightarrow> Bytes \<Rightarrow> (Bytes \<times> send_result list \<times> unit Result) option" where
  "server_write_all = write_all (socket_error ''unix-socket-daemon'' ''unable to write response'')"

definition client_write_all :: "Bytes \<Rightarrow> send_result list \<Rightarrow> Bytes \<Rightarrow> (Bytes \<times> send_result list \<times> unit Result) option" where
  "client_write_all = write_all (socket_error ''unix-socket-client'' ''unable to write request'')"

subsection \<open>Server\<close>

definition server_error :: "ErrorCode \<Rightarrow> string \<Rightarrow> Status" where
  "server_error c msg = error c ''unix-socket-daemon'' msg"

text \<open>The socket server; \<open>listen_fd_\<close> is -1 when it does not listen, and \<open>us_file\<close> says whether the socket file exists.\<close>

record UnixSocketDaemon =
  us_path :: string
  us_daemon :: Daemon
  us_listen_fd :: int
  us_file :: bool

definition new_server :: "string \<Rightarrow> Daemon \<Rightarrow> bool \<Rightarrow> UnixSocketDaemon" where
  "new_server path d file_exists = \<lparr>us_path = path, us_daemon = d, us_listen_fd = -1, us_file = file_exists\<rparr>"

definition server_stop :: "UnixSocketDaemon \<Rightarrow> UnixSocketDaemon \<times> unit Result" where
  "server_stop u =
     (let u = (if us_listen_fd u \<ge> 0 then u\<lparr>us_listen_fd := -1\<rparr> else u);
          u = u\<lparr>us_file := False\<rparr>
      in case daemon_stop (us_daemon u) of (d, r) \<Rightarrow> (u\<lparr>us_daemon := d\<rparr>, r))"

definition server_destroy :: "UnixSocketDaemon \<Rightarrow> UnixSocketDaemon" where
  "server_destroy u = fst (server_stop u)"

text \<open>\<open>sizeof(sun_path)\<close> on Linux.\<close>

definition sun_path_size :: nat where
  "sun_path_size = 108"

definition socket_address :: "string \<Rightarrow> unit Result" where
  "socket_address path =
     (if length path \<ge> sun_path_size then Inl (server_error ec_path ''socket path is too long'') else Inr ())"

text \<open>What the system calls of \<open>start\<close> return: a descriptor or the text of the error.\<close>

record start_calls =
  sc_mkdir_ok :: bool
  sc_socket :: "nat + string"
  sc_bind :: "string option"
  sc_listen :: "string option"

text \<open>An address whose first byte is zero, as that of the empty path, is abstract on Linux: \<open>bind\<close> creates no file.\<close>

definition names_file :: "string \<Rightarrow> bool" where
  "names_file path \<longleftrightarrow> path \<noteq> [] \<and> hd path \<noteq> CHR 0x00"

definition server_start :: "start_calls \<Rightarrow> UnixSocketDaemon \<Rightarrow> UnixSocketDaemon \<times> unit Result" where
  "server_start calls u =
     (if us_listen_fd u \<ge> 0 then (u, Inl (server_error ec_internal_invariant ''socket daemon already started''))
      else
        case daemon_start (us_daemon u) of
          (d, Inl e) \<Rightarrow> (u\<lparr>us_daemon := d\<rparr>, Inl e)
        | (d, Inr _) \<Rightarrow>
            let u = u\<lparr>us_daemon := d\<rparr>
            in if CHR ''/'' \<in> set (us_path u) \<and> \<not> sc_mkdir_ok calls
               then (u, Inl (server_error ec_io ''unable to create socket directory''))
               else
                 case socket_address (us_path u) of
                   Inl e \<Rightarrow> (u, Inl e)
                 | Inr _ \<Rightarrow>
                     case sc_socket calls of
                       Inr err \<Rightarrow> (u\<lparr>us_listen_fd := -1\<rparr>, Inl (socket_error ''unix-socket-daemon'' ''unable to create socket'' err))
                     | Inl fd \<Rightarrow>
                         let u = u\<lparr>us_listen_fd := int fd, us_file := False\<rparr>
                         in case sc_bind calls of
                              Some err \<Rightarrow> (fst (server_stop u), Inl (socket_error ''unix-socket-daemon'' ''unable to bind socket'' err))
                            | None \<Rightarrow>
                                let u = u\<lparr>us_file := names_file (us_path u)\<rparr>
                                in case sc_listen calls of
                                     Some err \<Rightarrow>
                                       (fst (server_stop u), Inl (socket_error ''unix-socket-daemon'' ''unable to listen on socket'' err))
                                   | None \<Rightarrow> (u, Inr ()))"

text \<open>The replies of \<open>serve_once\<close>.\<close>

definition welcome_frame :: "u64 \<Rightarrow> FipcFrame" where
  "welcome_frame token = \<lparr>fr_type = ft_welcome, fr_flags = 0, fr_stream_id = 0, fr_stream_generation = 0, fr_sequence = 0,
     fr_request_token = token, fr_payload = []\<rparr>"

definition status_text :: "Daemon \<Rightarrow> string" where
  "status_text d = ''state='' @ daemon_state_name (dm_state d) @ '' generation='' @
     decimal (unat (gen_value (bg_generation (ws_graph (dm_workspace d))))) @ [CHR 0x0A]"

definition status_frame :: "Daemon \<Rightarrow> u32 \<Rightarrow> u64 \<Rightarrow> FipcFrame" where
  "status_frame d sid token = \<lparr>fr_type = ft_status_event, fr_flags = 0, fr_stream_id = sid, fr_stream_generation = 1, fr_sequence = 0,
     fr_request_token = token, fr_payload = map char_byte (status_text d)\<rparr>"

text \<open>The loop over the events of one chunk: it returns from \<open>serve_once\<close> or goes on.\<close>

datatype serve_step = Returned Bytes "unit Result" | Continues Bytes "send_result list"

fun serve_events :: "Daemon \<Rightarrow> SessionEvent list \<Rightarrow> send_result list \<Rightarrow> Bytes \<Rightarrow> serve_step option" where
  "serve_events d [] sends wire = Some (Continues wire sends)"
| "serve_events d (event # events) sends wire =
     (case (if ev_type event = ft_hello then server_write_all (codec_encode (welcome_frame (ev_request_token event))) sends wire
            else Some (wire, sends, Inr ())) of
        None \<Rightarrow> None
      | Some (wire, sends, Inl e) \<Rightarrow> Some (Returned wire (Inl e))
      | Some (wire, sends, Inr _) \<Rightarrow>
          if ev_type event = ft_build_request then
            map_option (\<lambda>(wire, sends, written). Returned wire written)
              (server_write_all (codec_encode (status_frame d (ev_stream_id event) (ev_request_token event))) sends wire)
          else serve_events d events sends wire)"

fun serve_loop :: "Daemon \<Rightarrow> FipcSession \<Rightarrow> recv_result list \<Rightarrow> send_result list \<Rightarrow> Bytes \<Rightarrow> (Bytes \<times> unit Result) option" where
  "serve_loop d s [] sends wire = None"
| "serve_loop d s (RecvInterrupted # recvs) sends wire = serve_loop d s recvs sends wire"
| "serve_loop d s (RecvFailed err # recvs) sends wire =
     Some (wire, Inl (socket_error ''unix-socket-daemon'' ''unable to read request'' err))"
| "serve_loop d s (Received data # recvs) sends wire =
     (if data = [] then Some (wire, Inl (server_error ec_protocol ''client closed before request''))
      else
        case session_feed s data of
          (s, Inl e) \<Rightarrow> Some (wire, Inl e)
        | (s, Inr events) \<Rightarrow>
            case serve_events d events sends wire of
              None \<Rightarrow> None
            | Some (Returned wire r) \<Rightarrow> Some (wire, r)
            | Some (Continues wire sends) \<Rightarrow> serve_loop d s recvs sends wire)"

text \<open>\<open>conn\<close> is the result of \<open>accept\<close>: a connection or an error text. The result has the bytes sent on the connection.\<close>

definition serve_once ::
    "unit + string \<Rightarrow> recv_result list \<Rightarrow> send_result list \<Rightarrow> UnixSocketDaemon \<Rightarrow> (Bytes \<times> unit Result) option" where
  "serve_once conn recvs sends u =
     (if us_listen_fd u < 0 then Some ([], Inl (server_error ec_internal_invariant ''socket daemon is not started''))
      else
        case conn of
          Inr err \<Rightarrow> Some ([], Inl (socket_error ''unix-socket-daemon'' ''unable to accept connection'' err))
        | Inl _ \<Rightarrow> serve_loop (us_daemon u) (new_session default_limits) recvs sends [])"

subsection \<open>Client\<close>

text \<open>The in-process client forwards to the workspace it refers to.\<close>

type_synonym Client = WorkspaceCore

definition client_put_node :: "Client \<Rightarrow> string \<Rightarrow> ActionSpec \<Rightarrow> Client \<times> NodeId Result" where
  "client_put_node workspace name action = ws_put_node workspace name action"

definition client_put_edge :: "Client \<Rightarrow> NodeId \<Rightarrow> NodeId \<Rightarrow> EdgeKind \<Rightarrow> Client \<times> EdgeId Result" where
  "client_put_edge workspace f t kind = ws_put_edge workspace f t kind"

definition client_build ::
    "'e run_fun \<Rightarrow> Client \<Rightarrow> 'e \<Rightarrow> NodeId list \<Rightarrow> (Client \<times> 'e \<times> BuildOutcome Result) option" where
  "client_build run workspace ex targets = build run workspace ex targets"

definition client_error :: "ErrorCode \<Rightarrow> string \<Rightarrow> Status" where
  "client_error c msg = error c ''unix-socket-client'' msg"

datatype connect_calls = connected | client_socket_failed string | connect_failed string

definition connect_socket :: "connect_calls \<Rightarrow> string \<Rightarrow> unit Result" where
  "connect_socket calls path =
     (case calls of
        client_socket_failed err \<Rightarrow> Inl (socket_error ''unix-socket-client'' ''unable to create socket'' err)
      | _ \<Rightarrow>
          if length path \<ge> sun_path_size then Inl (client_error ec_path ''socket path is too long'')
          else
            case calls of
              connect_failed err \<Rightarrow> Inl (socket_error ''unix-socket-client'' ''unable to connect'' err)
            | _ \<Rightarrow> Inr ())"

definition client_frame :: "FrameType \<Rightarrow> u32 \<Rightarrow> u32 \<Rightarrow> u64 \<Rightarrow> Bytes \<Rightarrow> FipcFrame" where
  "client_frame ty sid g token payload = \<lparr>fr_type = ty, fr_flags = 0, fr_stream_id = sid, fr_stream_generation = g,
     fr_sequence = 0, fr_request_token = token, fr_payload = payload\<rparr>"

definition kStatusPayload :: string where
  "kStatusPayload = ''status''"

definition request_frames :: "FipcFrame list" where
  "request_frames = [client_frame ft_hello 0 0 1 [], client_frame ft_open_stream 1 1 1 [],
     client_frame ft_build_request 1 1 2 (map char_byte kStatusPayload)]"

definition status_request :: Bytes where
  "status_request = concat (map codec_encode request_frames)"

text \<open>The inner loop over the decoded frames: the status text, or the state in which it is left.\<close>

function client_decode :: "FipcCodec \<Rightarrow> DecodeResult \<Rightarrow> string + FipcCodec \<times> DecodeResult" where
  "client_decode codec decoded =
     (if dr_state decoded = ds_frame then
        if fr_type (the (dr_frame decoded)) = ft_status_event
        then Inl (map byte_char (fr_payload (the (dr_frame decoded))))
        else if codec_buffered codec = 0 then Inr (codec, decoded)
        else (case codec_feed codec [] of (codec, decoded) \<Rightarrow> client_decode codec decoded)
      else Inr (codec, decoded))"
  by pat_completeness auto
termination
  by (relation "measure (\<lambda>(c, d). if dr_state d = ds_frame then Suc (length (cd_buffer c)) else 0)")
    (auto simp: codec_buffered_def split: prod.split dest: feed_frame_shrinks)

declare client_decode.simps [simp del]

fun client_loop :: "FipcCodec \<Rightarrow> recv_result list \<Rightarrow> string Result option" where
  "client_loop codec [] = None"
| "client_loop codec (RecvInterrupted # recvs) = client_loop codec recvs"
| "client_loop codec (RecvFailed err # recvs) = Some (Inl (socket_error ''unix-socket-client'' ''unable to read response'' err))"
| "client_loop codec (Received data # recvs) =
     (if data = [] then Some (Inl (client_error ec_protocol ''daemon closed before status response''))
      else
        case codec_feed codec data of
          (codec, decoded) \<Rightarrow>
            case client_decode codec decoded of
              Inl payload \<Rightarrow> Some (Inr payload)
            | Inr (codec, decoded) \<Rightarrow>
                if dr_state decoded = ds_closed \<and> \<not> status_ok (dr_diagnostic decoded)
                then Some (Inl (dr_diagnostic decoded))
                else client_loop codec recvs)"

text \<open>A socket client is the path of its socket.\<close>

type_synonym UnixSocketClient = string

definition client_status ::
    "connect_calls \<Rightarrow> UnixSocketClient \<Rightarrow> send_result list \<Rightarrow> recv_result list \<Rightarrow> (Bytes \<times> string Result) option" where
  "client_status calls path sends recvs =
     (case connect_socket calls path of
        Inl e \<Rightarrow> Some ([], Inl e)
      | Inr _ \<Rightarrow>
          case client_write_all status_request sends [] of
            None \<Rightarrow> None
          | Some (wire, _, Inl e) \<Rightarrow> Some (wire, Inl e)
          | Some (wire, _, Inr _) \<Rightarrow> map_option (\<lambda>r. (wire, r)) (client_loop (new_codec default_limits) recvs))"


section \<open>Writing\<close>

text \<open>No call fails, every call that is not interrupted accepts a byte, and there are at least \<open>n\<close> of these.\<close>

definition accepts :: "send_result \<Rightarrow> bool" where
  "accepts r \<longleftrightarrow> (case r of Sent n \<Rightarrow> 0 < n | _ \<Rightarrow> False)"

definition sends_enough :: "nat \<Rightarrow> send_result list \<Rightarrow> bool" where
  "sends_enough n sends \<longleftrightarrow> list_all (\<lambda>r. accepts r \<or> r = SendInterrupted) sends \<and> n \<le> length (filter accepts sends)"

text \<open>Whatever is accepted by the partial writes, what is on the wire is a prefix of the bytes, and all of them on success.\<close>

lemma write_all_prefix:
  "write_all failed bytes sends wire = Some (wire', sends', r) \<Longrightarrow>
   \<exists>k. wire' = wire @ take k bytes \<and> (r = Inr () \<longrightarrow> wire' = wire @ bytes)"
proof (induction failed bytes sends wire rule: write_all.induct)
  case (3 failed b bs n sends wire)
  then obtain k where k: "wire' = (wire @ take n (b # bs)) @ take k (drop n (b # bs))"
    "r = Inr () \<longrightarrow> wire' = (wire @ take n (b # bs)) @ drop n (b # bs)" by auto
  then have "wire' = wire @ take (n + k) (b # bs)" by (simp only: append_assoc take_add)
  then show ?case using k(2) by (intro exI [of _ "n + k"]) (simp only: append_assoc append_take_drop_id simp_thms)
qed (auto intro: exI [of _ 0])

lemma write_all_total:
  "sends_enough (length bytes + n) sends \<Longrightarrow>
   \<exists>sends'. write_all failed bytes sends wire = Some (wire @ bytes, sends', Inr ()) \<and> sends_enough n sends'"
proof (induction failed bytes sends wire rule: write_all.induct)
  case (3 failed b bs m sends wire)
  have m: "0 < m" and "sends_enough (length bs + n) sends"
    using "3.prems" by (auto simp: sends_enough_def accepts_def)
  then have "sends_enough (length (drop m (b # bs)) + n) sends" by (auto simp: sends_enough_def)
  then show ?case using "3.IH" by fastforce
next
  case (4 failed b bs sends wire)
  then have "sends_enough (length (b # bs) + n) sends" by (simp add: sends_enough_def accepts_def)
  then show ?case using "4.IH" by simp
qed (auto simp: sends_enough_def accepts_def)

section \<open>Serving\<close>

text \<open>The bytes of a connection: no failure, and no end of the connection in between.\<close>

definition recv_ok :: "recv_result \<Rightarrow> bool" where
  "recv_ok r \<longleftrightarrow> (case r of Received data \<Rightarrow> data \<noteq> [] | RecvInterrupted \<Rightarrow> True | RecvFailed _ \<Rightarrow> False)"

fun data_of :: "recv_result \<Rightarrow> Bytes" where
  "data_of (Received data) = data"
| "data_of _ = []"

abbreviation received :: "recv_result list \<Rightarrow> Bytes" where
  "received recvs \<equiv> concat (map data_of recvs)"

lemma serve_events_append:
  "serve_events d (es @ es') sends wire =
     (case serve_events d es sends wire of
        Some (Continues wire sends) \<Rightarrow> serve_events d es' sends wire
      | r \<Rightarrow> r)"
  by (induction d es sends wire rule: serve_events.induct) (auto split: option.splits sum.splits prod.splits)

lemma serve_loop_events:
  "\<lbrakk>list_all recv_ok recvs; received recvs \<noteq> []; session_room s (length (received recvs));
    session_feed s (received recvs) = (s', Inr events); serve_events d events sends wire = Some (Returned wire' r)\<rbrakk>
   \<Longrightarrow> serve_loop d s recvs sends wire = Some (wire', r)"
proof (induction recvs arbitrary: s sends wire events)
  case (Cons x recvs)
  show ?case
  proof (cases x)
    case (Received data)
    then have data: "data \<noteq> []" using Cons.prems(1) by (simp add: recv_ok_def)
    have room: "session_room s (length data + length (received recvs))" using Cons.prems(3) Received by simp
    obtain s1 r1 where f: "session_feed s data = (s1, r1)" by fastforce
    obtain ev1 where ev1: "r1 = Inr ev1"
      using feed_chunk_error [OF _ room, of s1] f Cons.prems(4) Received by (cases r1) auto
    show ?thesis
    proof (cases "received recvs = []")
      case True
      then have "received (x # recvs) = data" using Received by (simp del: concat_eq_Nil_conv)
      then have "session_feed s data = (s', Inr events)" using Cons.prems(4) by (simp only:)
      then show ?thesis using Cons.prems(5) Received data by simp
    next
      case False
      have "prepend ev1 (session_feed s1 (received recvs)) = (s', Inr events)"
        using feed_chunk [OF f [unfolded ev1] room] Cons.prems(4) Received by simp
      then obtain ev2 where ev2: "session_feed s1 (received recvs) = (s', Inr ev2)" "events = ev1 @ ev2" by (auto simp: prepend_Inr)
      have room1: "session_room s1 (length (received recvs))" using loop_room f ev1 room by (simp add: session_feed_def)
      show ?thesis
      proof (cases "serve_events d ev1 sends wire")
        case None
        then show ?thesis using Cons.prems(5) ev2(2) by (simp add: serve_events_append)
      next
        case (Some step)
        show ?thesis
        proof (cases step)
          case (Returned w q)
          then show ?thesis using Cons.prems(5) ev2(2) Some \<open>x = Received data\<close> data f ev1 by (simp add: serve_events_append)
        next
          case (Continues w q)
          then have "serve_events d ev2 q w = Some (Returned wire' r)" using Cons.prems(5) ev2(2) Some by (simp add: serve_events_append)
          then show ?thesis using Cons.IH [OF _ False room1 ev2(1)] Cons.prems(1) Some Continues \<open>x = Received data\<close> data f ev1 by simp
        qed
      qed
    qed
  qed (use Cons in \<open>auto simp: recv_ok_def\<close>)
qed simp


text \<open>What the server sends in answer to a status request.\<close>

definition status_reply :: "Daemon \<Rightarrow> Bytes" where
  "status_reply d = codec_encode (welcome_frame 1) @ codec_encode (status_frame d 1 2)"

lemma request_frames_run:
  "run_frames (new_session default_limits) request_frames =
     (fst (run_frames (new_session default_limits) request_frames), Inr (map event_of request_frames))"
  by code_simp

lemma length_status_request: "length status_request = 126"
  by (simp add: status_request_def request_frames_def client_frame_def kStatusPayload_def)

lemma request_feed:
  "session_feed (new_session default_limits) status_request =
     (fst (run_frames (new_session default_limits) request_frames), Inr (map event_of request_frames))"
  unfolding status_request_def
proof (rule feed_stream_accepted [OF _ _ _ request_frames_run])
  show "list_all (frame_fits (cd_limits (se_codec (new_session default_limits)))) request_frames"
    by (simp add: request_frames_def client_frame_def kStatusPayload_def new_session_def new_codec_def demo_fits)
  show "session_room (new_session default_limits) (length (concat (map codec_encode request_frames)))"
    using length_status_request by (intro demo_room) (simp add: status_request_def)
qed (simp add: new_session_def new_codec_def)

lemma serve_request_events:
  assumes "sends_enough (length (status_reply d)) sends"
  shows "serve_events d (map event_of request_frames) sends [] = Some (Returned (status_reply d) (Inr ()))"
proof -
  let ?w = "codec_encode (welcome_frame 1)" and ?r = "codec_encode (status_frame d 1 2)"
  have "sends_enough (length ?w + length ?r) sends" using assms by (simp add: status_reply_def)
  then obtain sends1 where w: "server_write_all ?w sends [] = Some (?w, sends1, Inr ())" "sends_enough (length ?r + 0) sends1"
    using write_all_total [of ?w "length ?r" sends _ "[]"] unfolding server_write_all_def by fastforce
  then obtain sends2 where r: "server_write_all ?r sends1 ?w = Some (status_reply d, sends2, Inr ())"
    using write_all_total [of ?r 0 sends1 _ ?w] unfolding server_write_all_def status_reply_def by fastforce
  show ?thesis using w(1) r by (simp add: request_frames_def client_frame_def event_of_def)
qed

lemma serve_status_request:
  assumes "list_all recv_ok recvs" "received recvs = status_request" "sends_enough (length (status_reply d)) sends"
  shows "serve_loop d (new_session default_limits) recvs sends [] = Some (status_reply d, Inr ())"
proof (rule serve_loop_events [OF assms(1)])
  show "received recvs \<noteq> []" using length_status_request assms(2) by (metis list.size(3) numeral_neq_zero)
  show "session_room (new_session default_limits) (length (received recvs))"
    unfolding assms(2) length_status_request by (rule demo_room) simp
  show "session_feed (new_session default_limits) (received recvs) =
      (fst (run_frames (new_session default_limits) request_frames), Inr (map event_of request_frames))"
    unfolding assms(2) by (rule request_feed)
qed (rule serve_request_events [OF assms(3)])

section \<open>Reading the reply\<close>

definition client_codec :: "Bytes \<Rightarrow> FipcCodec" where
  "client_codec buf = \<lparr>cd_limits = default_limits, cd_buffer = buf, cd_closed = False\<rparr>"

lemma client_feed: "length (buf @ data) \<le> 33554432 \<Longrightarrow> codec_feed (client_codec buf) data = codec_scan (client_codec (buf @ data))"
  by (auto simp: codec_feed_def client_codec_def default_limits_def Let_def)

lemma client_scan_frame:
  "frame_fits default_limits f \<Longrightarrow> codec_scan (client_codec (codec_encode f @ buf)) = (client_codec buf, frame_result f)"
  using scan_encode [of "client_codec (codec_encode f @ buf)" f buf] by (simp add: client_codec_def)

lemma client_scan_part:
  assumes "frame_fits default_limits f" "buf @ rest = codec_encode f @ later" "length buf < length (codec_encode f)"
  shows "codec_scan (client_codec buf) = (client_codec buf, need_more)"
proof -
  have "buf = take (length buf) (codec_encode f)" using assms(2,3) by (metis append_eq_append_conv_if append_eq_conv_conj less_imp_le_nat)
  then show ?thesis using scan_truncated [of "client_codec buf" "length buf" f] assms(1,3) by (simp add: client_codec_def)
qed

lemma client_decode_part:
  assumes "frame_fits default_limits f" "buf @ rest = codec_encode f @ later" "length buf < length (codec_encode f)"
    and "codec_scan (client_codec buf) = (c, d)"
  shows "client_decode c d = Inr (client_codec buf, need_more)"
  using client_scan_part [OF assms(1-3)] assms(4) by (simp add: client_decode.simps need_more_def)

lemma client_decode_frame:
  assumes "frame_fits default_limits f" "codec_scan (client_codec (codec_encode f @ buf)) = (c, d)" "length buf \<le> 33554432"
  shows "client_decode c d =
    (if fr_type f = ft_status_event then Inl (map byte_char (fr_payload f))
     else if buf = [] then Inr (client_codec [], frame_result f)
     else case codec_scan (client_codec buf) of (c, d) \<Rightarrow> client_decode c d)"
  using client_scan_frame [OF assms(1), of buf] assms(2,3) client_feed [of buf "[]"]
  by (subst client_decode.simps) (auto simp: frame_result_def codec_buffered_def client_codec_def)

text \<open>\<open>buf\<close> and \<open>rest\<close> are the bytes of whole frames, of which the last one is the status frame.\<close>

definition frames_until :: "FipcFrame \<Rightarrow> FipcFrame list \<Rightarrow> Bytes \<Rightarrow> Bytes \<Rightarrow> bool" where
  "frames_until st fs buf rest \<longleftrightarrow> list_all (frame_fits default_limits) (fs @ [st]) \<and> fr_type st = ft_status_event \<and>
     list_all (\<lambda>f. fr_type f \<noteq> ft_status_event) fs \<and> buf @ rest = concat (map codec_encode (fs @ [st])) \<and>
     length buf + length rest \<le> 33554432"

lemma frames_until_Nil: "frames_until st [] buf rest \<Longrightarrow> buf @ rest = codec_encode st \<and> frame_fits default_limits st"
  by (simp add: frames_until_def)

lemma frames_until_Cons:
  assumes "frames_until st (f # fs) buf rest"
  shows "buf @ rest = codec_encode f @ concat (map codec_encode (fs @ [st]))" "frame_fits default_limits f" "fr_type f \<noteq> ft_status_event"
    and "buf = codec_encode f @ buf1 \<Longrightarrow> frames_until st fs buf1 rest"
  using assms by (auto simp: frames_until_def)

lemma frames_until_rest: "frames_until st fs [] rest \<Longrightarrow> rest \<noteq> []"
  using length_codec_encode [of st] by (auto simp: frames_until_def simp del: length_codec_encode)

text \<open>
  The inner loop on a part of the reply: it returns the text of the status frame when the part is
  the whole reply, and otherwise keeps the bytes of the frames that are not complete.
\<close>

lemma client_decode_stream:
  "\<lbrakk>frames_until st fs buf rest; codec_scan (client_codec buf) = (c, d)\<rbrakk>
   \<Longrightarrow> if rest = [] then client_decode c d = Inl (map byte_char (fr_payload st))
      else \<exists>gs buf' d'. client_decode c d = Inr (client_codec buf', d') \<and> dr_state d' \<noteq> ds_closed \<and> frames_until st gs buf' rest"
proof (induction fs arbitrary: buf c d)
  case Nil
  note st = frames_until_Nil [OF Nil(1)]
  show ?case
  proof (cases "rest = []")
    case True
    then have "codec_scan (client_codec (codec_encode st @ [])) = (c, d)" using st Nil(2) by simp
    then show ?thesis using client_decode_frame [of st "[]" c d] st Nil(1) True by (simp add: frames_until_def)
  next
    case False
    then have "length buf < length (codec_encode st)" using st by (metis length_append length_greater_0_conv less_add_same_cancel1)
    then have "client_decode c d = Inr (client_codec buf, need_more)" using client_decode_part [of st buf rest "[]"] st Nil(2) by simp
    moreover have "dr_state need_more \<noteq> ds_closed" by (simp add: need_more_def)
    ultimately show ?thesis using False Nil(1) by (metis (full_types))
  qed
next
  case (Cons f fs)
  note f = frames_until_Cons [OF Cons.prems(1)]
  show ?case
  proof (cases "length buf < length (codec_encode f)")
    case True
    then have "client_decode c d = Inr (client_codec buf, need_more)" using client_decode_part [OF f(2,1) _ Cons.prems(2)] by simp
    moreover have "rest \<noteq> []" "dr_state need_more \<noteq> ds_closed" using True f(1) by (auto simp: need_more_def)
    ultimately show ?thesis using Cons.prems(1) by (metis (full_types))
  next
    case False
    then obtain buf1 where buf1: "buf = codec_encode f @ buf1" using f(1) by (metis append_eq_append_conv_if append_take_drop_id not_less)
    note later = f(4) [OF buf1]
    have len: "length buf1 \<le> 33554432" using later by (simp add: frames_until_def)
    obtain c1 d1 where scan: "codec_scan (client_codec buf1) = (c1, d1)" by fastforce
    have dec: "client_decode c d = (if buf1 = [] then Inr (client_codec [], frame_result f) else client_decode c1 d1)"
      using client_decode_frame [OF f(2) _ len] Cons.prems(2) f(3) scan unfolding buf1 by simp
    show ?thesis
    proof (cases "buf1 = []")
      case True
      then have "frames_until st fs [] rest" "rest \<noteq> []" using later frames_until_rest by simp_all
      moreover have "dr_state (frame_result f) \<noteq> ds_closed" by (simp add: frame_result_def)
      ultimately show ?thesis using dec True by (metis (full_types))
    next
      case False
      then show ?thesis using Cons.IH [OF later scan] dec by simp
    qed
  qed
qed

lemma client_loop_stream:
  "\<lbrakk>frames_until st fs buf (received recvs); list_all recv_ok recvs; received recvs \<noteq> []\<rbrakk>
   \<Longrightarrow> client_loop (client_codec buf) recvs = Some (Inr (map byte_char (fr_payload st)))"
proof (induction recvs arbitrary: fs buf)
  case (Cons x recvs)
  show ?case
  proof (cases x)
    case (Received data)
    then have data: "data \<noteq> []" using Cons.prems(2) by (simp add: recv_ok_def)
    have stream: "frames_until st fs (buf @ data) (received recvs)" using Cons.prems(1) Received by (simp add: frames_until_def)
    obtain c d where scan: "codec_scan (client_codec (buf @ data)) = (c, d)" by fastforce
    have feed: "codec_feed (client_codec buf) data = (c, d)" using client_feed [of buf data] scan stream by (simp add: frames_until_def)
    note dec = client_decode_stream [OF stream scan]
    show ?thesis
    proof (cases "received recvs = []")
      case True
      then show ?thesis using dec Received data feed by (simp del: concat_eq_Nil_conv)
    next
      case False
      then obtain gs buf' d' where g: "client_decode c d = Inr (client_codec buf', d')" "dr_state d' \<noteq> ds_closed"
        "frames_until st gs buf' (received recvs)" using dec [unfolded if_not_P [OF False]] by blast
      then show ?thesis using Cons.IH [OF g(3) _ False] Cons.prems(2) Received data feed by simp
    qed
  qed (use Cons in \<open>auto simp: recv_ok_def\<close>)
qed simp

section \<open>Status texts\<close>

lemma length_decimal: "n < 10 ^ Suc k \<Longrightarrow> length (decimal n) \<le> Suc k"
proof (induction k arbitrary: n)
  case 0
  then show ?case by (simp add: decimal.simps)
next
  case (Suc k)
  have "n div 10 < 10 ^ Suc k" using Suc.prems by (simp add: less_mult_imp_div_less)
  then show ?case using Suc.IH by (subst decimal.simps) auto
qed

lemma length_status_text: "length (status_text d) \<le> 50"
proof -
  let ?n = "unat (gen_value (bg_generation (ws_graph (dm_workspace d))))"
  have "?n < 2 ^ 64" using unsigned_less [of "gen_value (bg_generation (ws_graph (dm_workspace d)))", where 'a = nat] by simp
  then have "length (decimal ?n) \<le> 20" using length_decimal [of ?n 19] by simp
  moreover have "length (daemon_state_name (dm_state d)) \<le> 11" by (cases "dm_state d") simp_all
  ultimately show ?thesis by (simp add: status_text_def)
qed

lemma byte_char_char_byte [simp]: "byte_char (char_byte c) = c"
  by (simp add: byte_char_def unat_char_byte)

lemma reply_fits: "frame_fits default_limits (welcome_frame t)" "frame_fits default_limits (status_frame d i t)"
  using length_status_text [of d] by (simp_all add: demo_fits welcome_frame_def status_frame_def)

lemma client_reads_reply:
  assumes "list_all recv_ok recvs" "received recvs = status_reply d"
  shows "client_loop (new_codec default_limits) recvs = Some (Inr (status_text d))"
proof -
  have "length (status_reply d) = 80 + length (status_text d)" by (simp add: status_reply_def welcome_frame_def status_frame_def)
  then have len: "length (received recvs) \<le> 33554432" "received recvs \<noteq> []"
    using length_status_text [of d] assms(2) by (auto simp del: concat_eq_Nil_conv)
  have "client_loop (client_codec []) recvs = Some (Inr (map byte_char (fr_payload (status_frame d 1 2))))"
  proof (rule client_loop_stream [OF _ assms(1) len(2)])
    show "frames_until (status_frame d 1 2) [welcome_frame 1] [] (received recvs)"
      using reply_fits len(1) unfolding assms(2)
      by (simp add: frames_until_def status_reply_def) (simp add: welcome_frame_def status_frame_def)
  qed
  then show ?thesis by (simp add: client_codec_def new_codec_def status_frame_def comp_def)
qed

section \<open>Server states\<close>

text \<open>
  The states a server goes through when it is started and stopped, whatever the system calls return,
  and when the owner of the daemon it refers to starts, stops or uses that daemon directly. The flag
  tells that the daemon was stopped directly since the server was last started or stopped. Serving a
  client changes neither of them.
\<close>

inductive server_reach :: "bool \<Rightarrow> UnixSocketDaemon \<Rightarrow> bool" where
  reach_new: "server_reach False (new_server path (new_daemon relative) f)"
| reach_start: "\<lbrakk>server_reach direct u; server_start calls u = (u', r)\<rbrakk> \<Longrightarrow> server_reach (direct \<and> r \<noteq> Inr ()) u'"
| reach_stop: "server_reach direct u \<Longrightarrow> server_reach False (fst (server_stop u))"
| reach_daemon_start: "server_reach direct u \<Longrightarrow> server_reach direct (u\<lparr>us_daemon := fst (daemon_start (us_daemon u))\<rparr>)"
| reach_daemon_stop: "server_reach direct u \<Longrightarrow> server_reach True (u\<lparr>us_daemon := fst (daemon_stop (us_daemon u))\<rparr>)"
| reach_workspace: "server_reach direct u \<Longrightarrow> server_reach direct (u\<lparr>us_daemon := (us_daemon u)\<lparr>dm_workspace := ws\<rparr>\<rparr>)"

definition server_inv :: "bool \<Rightarrow> UnixSocketDaemon \<Rightarrow> bool" where
  "server_inv direct u \<longleftrightarrow> dm_state (us_daemon u) \<noteq> das_stopping \<and>
     (us_listen_fd u \<ge> 0 \<longrightarrow> (dm_state (us_daemon u) = das_running \<or> direct) \<and> (us_file u \<longleftrightarrow> names_file (us_path u)) \<and>
       length (us_path u) < sun_path_size)"

lemma server_stop_state:
  "fst (server_stop u) = u\<lparr>us_listen_fd := (if us_listen_fd u \<ge> 0 then -1 else us_listen_fd u), us_file := False,
     us_daemon := (us_daemon u)\<lparr>dm_state := das_stopped\<rparr>\<rparr>"
  by (auto simp: server_stop_def daemon_stop_def Let_def)

lemma server_start_inv:
  "server_inv direct u \<Longrightarrow> server_start calls u = (u', r) \<Longrightarrow> server_inv (direct \<and> r \<noteq> Inr ()) u'"
  by (auto simp: server_start_def daemon_start_def server_inv_def socket_address_def server_stop_state Let_def
      split: if_splits sum.splits option.splits)

lemma server_reach_inv: "server_reach direct u \<Longrightarrow> server_inv direct u"
proof (induction rule: server_reach.induct)
  case (reach_start direct u calls u' r)
  then show ?case using server_start_inv by blast
qed (auto simp: server_inv_def new_server_def new_daemon_def server_stop_state daemon_start_def daemon_stop_def Let_def)

text \<open>
  A start that fails before the socket is bound leaves the daemon running without a socket, and a
  second attempt is refused.
\<close>

lemma failed_start_keeps_running:
  assumes "us_listen_fd u < 0" "dm_state (us_daemon u) = das_initialized" "length (us_path u) \<ge> sun_path_size" "sc_mkdir_ok calls"
    and "server_start calls u = (u', r)"
  shows "r = Inl (server_error ec_path ''socket path is too long'')" "dm_state (us_daemon u') = das_running" "us_listen_fd u' < 0"
    and "snd (server_start calls' u') = Inl (error ec_internal_invariant ''daemon'' ''daemon already running'')"
  using assms by (auto simp: server_start_def daemon_start_def socket_address_def Let_def)

text \<open>Both sides of a status request together.\<close>

lemma status_exchange:
  assumes "us_listen_fd u \<ge> 0" "length path < sun_path_size"
    and "list_all recv_ok requests" "received requests = status_request" "sends_enough (length (status_reply (us_daemon u))) sends"
    and "list_all recv_ok replies" "sends_enough (length status_request) client_sends"
  shows "\<exists>wire. serve_once (Inl ()) requests sends u = Some (wire, Inr ()) \<and>
    (received replies = wire \<longrightarrow>
     client_status connected path client_sends replies = Some (status_request, Inr (status_text (us_daemon u))))"
proof -
  have "serve_once (Inl ()) requests sends u = Some (status_reply (us_daemon u), Inr ())"
    using assms(1) serve_status_request [OF assms(3-5)] by (simp add: serve_once_def)
  moreover obtain sends' where "client_write_all status_request client_sends [] = Some (status_request, sends', Inr ())"
    using write_all_total [of status_request 0 client_sends _ "[]"] assms(7) unfolding client_write_all_def by fastforce
  then have "client_status connected path client_sends replies = Some (status_request, Inr (status_text (us_daemon u)))"
    if "received replies = status_reply (us_daemon u)"
    using client_reads_reply [OF assms(6) that] assms(2) by (simp add: client_status_def connect_socket_def)
  ultimately show ?thesis by blast
qed

section \<open>Properties\<close>

definition demo_server :: UnixSocketDaemon where
  "demo_server = \<lparr>us_path = ''s'', us_daemon = (new_daemon (\<lambda>p. p))\<lparr>dm_state := das_running\<rparr>, us_listen_fd = 3, us_file = True\<rparr>"

lemma sends_enough_replicate: "0 < k \<Longrightarrow> n \<le> m \<Longrightarrow> sends_enough n (replicate m (Sent k))"
  by (simp add: sends_enough_def accepts_def list_all_iff filter_replicate)

text \<open>
  C39. A listening server belongs to a running daemon: in every state that the socket server and the
  daemon it shares with its owner reach, however often either is started and stopped and whatever the
  system calls return, the daemon is never seen stopping, and while the server has an open listening
  socket the daemon is running, unless its owner has stopped it directly since the server was started,
  and the socket file exists exactly when the address of the socket names one (as long as no other
  process removes it).
\<close>

theorem server_listens_running:
  assumes "server_reach direct u"
  shows "dm_state (us_daemon u) \<noteq> das_stopping \<and>
    (us_listen_fd u \<ge> 0 \<longrightarrow> (dm_state (us_daemon u) = das_running \<or> direct) \<and> (us_file u \<longleftrightarrow> names_file (us_path u)))"
  using server_reach_inv [OF assms] by (simp add: server_inv_def)

definition demo_start :: "UnixSocketDaemon \<Rightarrow> UnixSocketDaemon" where
  "demo_start u = fst (server_start \<lparr>sc_mkdir_ok = True, sc_socket = Inl 3, sc_bind = None, sc_listen = None\<rparr> u)"

theorem server_listens_running_witness:
  "let u = demo_start (fst (server_stop (demo_start (new_server ''s'' (new_daemon (\<lambda>p. p)) True))))
   in us_listen_fd u = 3 \<and> dm_state (us_daemon u) = das_running \<and> us_file u"
proof -
  let ?calls = "\<lparr>sc_mkdir_ok = True, sc_socket = Inl 3, sc_bind = None, sc_listen = None\<rparr>"
  let ?u1 = "fst (server_stop (demo_start (new_server ''s'' (new_daemon (\<lambda>p. p)) True)))"
  have fd: "us_listen_fd (demo_start ?u1) = 3" "us_path (demo_start ?u1) = ''s''" by code_simp+
  have step: "\<exists>b. server_reach b (demo_start u)" if "server_reach False u" for u
    using reach_start [OF that prod.collapse [symmetric], of ?calls] by (auto simp: demo_start_def)
  obtain b where "server_reach b (demo_start (new_server ''s'' (new_daemon (\<lambda>p. p)) True))" using step reach_new by blast
  then have "server_reach False ?u1" by (rule reach_stop)
  from reach_start [OF this prod.collapse [symmetric], of ?calls] have "server_reach False (demo_start ?u1)" by (simp add: demo_start_def)
  from server_listens_running [OF this] show ?thesis using fd by (simp add: Let_def names_file_def)
qed

end
