(* ===== verification/Forge_Cli.thy ===== *)
theory Forge_Cli
  imports Forge_Apply Forge_Daemon
begin

text \<open>
  The command line: \<^verbatim>\<open>src/cli/forge_main.cpp\<close> with \<open>cmd_build\<close>, \<open>cmd_graph\<close> and \<open>cmd_status\<close>, and the daemon's
  \<^verbatim>\<open>src/cli/forged_main.cpp\<close>. A program run returns its exit code with what it wrote to the standard
  output and the standard error; the files it can open are a parameter. \<open>None\<close> is a run that does not
  return: an uncaught exception, or a server that waits for a connection.
\<close>

section \<open>Definitions\<close>

type_synonym Run = "nat \<times> string \<times> string"

definition message_line :: "string \<Rightarrow> string" where
  "message_line text = text @ [newline]"

definition exits :: "nat \<Rightarrow> string \<Rightarrow> Run" where
  "exits rc out = (rc, out, [])"

definition fails :: "nat \<Rightarrow> string \<Rightarrow> Run" where
  "fails rc err = (rc, [], message_line err)"

definition outcome_text :: "BuildOutcome \<Rightarrow> string" where
  "outcome_text outcome = concat (map (\<lambda>event. message_line (be_message event)) (bo_events outcome)) @
     message_line (''artifacts='' @ decimal (length (bo_artifacts outcome)))"

fun find_targets :: "(string, NodeId) std_map \<Rightarrow> string list \<Rightarrow> NodeId list \<Rightarrow> string + NodeId list" where
  "find_targets names [] targets = Inr targets"
| "find_targets names (arg # args) targets =
     (case sm_find names arg of None \<Rightarrow> Inl arg | Some nid \<Rightarrow> find_targets names args (targets @ [nid]))"

definition build_and_report :: "WorkspaceCore \<Rightarrow> NodeId list \<Rightarrow> Run option" where
  "build_and_report ws targets =
     (case build mock_run ws new_mock targets of
        None \<Rightarrow> None
      | Some (_, _, Inl e) \<Rightarrow> Some (fails 3 (message e))
      | Some (_, _, Inr outcome) \<Rightarrow> Some (exits 0 (outcome_text outcome)))"

definition debug_action :: "string \<Rightarrow> ActionSpec" where
  "debug_action command = \<lparr>as_command = command, as_options = [(''mode'', ''debug'')]\<rparr>"

definition cmd_build :: "(string \<Rightarrow> string option) \<Rightarrow> (string \<Rightarrow> string) \<Rightarrow> string list \<Rightarrow> Run option" where
  "cmd_build files relative argv =
     (let workspace = new_workspace relative
      in case argv of
           _ # path # args \<Rightarrow>
             (case files path of
                None \<Rightarrow> Some (fails 2 (''unable to open manifest: '' @ path))
              | Some input \<Rightarrow>
                  (case parse_manifest input of
                     Inl e \<Rightarrow> Some (fails 3 (message e))
                   | Inr manifest \<Rightarrow>
                       (case apply_manifest workspace manifest of
                          None \<Rightarrow> None
                        | Some (_, Inl e) \<Rightarrow> Some (fails 3 (message e))
                        | Some (workspace, Inr applied) \<Rightarrow>
                            (case (if args \<noteq> [] then find_targets (am_nodes_by_name applied) args [] else Inr (am_targets applied)) of
                               Inl arg \<Rightarrow> Some (fails 3 (''unknown target: '' @ arg))
                             | Inr targets \<Rightarrow> build_and_report workspace targets))))
         | _ \<Rightarrow>
             (case ws_put_node workspace ''lib'' (debug_action ''mock-lib'') of
                (workspace, lib) \<Rightarrow>
                  (case ws_put_node workspace ''app'' (debug_action ''mock-app'') of
                     (workspace, app) \<Rightarrow>
                       (case (lib, app) of
                          (Inr lib, Inr app) \<Rightarrow>
                            (case ws_put_edge workspace app lib ek_declared of
                               (_, Inl e) \<Rightarrow> Some (fails 3 (message e))
                             | (workspace, Inr _) \<Rightarrow> build_and_report workspace [app])
                        | _ \<Rightarrow> Some (fails 3 ''failed to create demo graph'')))))"

definition generation_text :: "WorkspaceCore \<Rightarrow> string" where
  "generation_text ws = ''generation='' @ decimal (unat (gen_value (bg_generation (ws_graph ws))))"

definition cmd_graph :: "(string \<Rightarrow> string option) \<Rightarrow> (string \<Rightarrow> string) \<Rightarrow> string list \<Rightarrow> Run option" where
  "cmd_graph files relative argv =
     (if length argv \<ge> 3 \<and> argv ! 1 = ''apply'' then
        (case files (argv ! 2) of
           None \<Rightarrow> Some (fails 2 (''unable to open manifest: '' @ argv ! 2))
         | Some input \<Rightarrow>
             (case parse_manifest input of
                Inl e \<Rightarrow> Some (fails 3 (message e))
              | Inr manifest \<Rightarrow>
                  (case apply_manifest (new_workspace relative) manifest of
                     None \<Rightarrow> None
                   | Some (_, Inl e) \<Rightarrow> Some (fails 3 (message e))
                   | Some (workspace, Inr applied) \<Rightarrow>
                       Some (exits 0 (message_line (generation_text workspace @
                         '' nodes='' @ decimal (length (am_nodes_by_name applied)) @
                         '' edges='' @ decimal (length (bg_edges (ws_graph workspace))) @
                         '' targets='' @ decimal (length (am_targets applied))))))))
      else
        (case ws_put_node (new_workspace relative) ''sample'' \<lparr>as_command = ''mock'', as_options = []\<rparr> of
           (_, Inl e) \<Rightarrow> Some (fails 3 (message e))
         | (workspace, Inr node) \<Rightarrow>
             Some (exits 0 (message_line (generation_text workspace @ '' node='' @ decimal (unat (id_value node)))))))"

text \<open>\<open>status\<close> is the call of the socket client on a path.\<close>

definition cmd_status :: "(string \<Rightarrow> string Result option) \<Rightarrow> (string \<Rightarrow> string) \<Rightarrow> string list \<Rightarrow> Run option" where
  "cmd_status status relative argv =
     (if length argv = 3 \<and> argv ! 1 = ''--socket'' then
        (case status (argv ! 2) of
           None \<Rightarrow> None
         | Some (Inl e) \<Rightarrow> Some (fails 10 (message e))
         | Some (Inr text) \<Rightarrow> Some (exits 0 text))
      else if length argv \<noteq> 1 then Some (fails 2 ''usage: forge status [--socket PATH]'')
      else Some (exits 0 (message_line (''state=initialized '' @ generation_text (new_workspace relative)))))"

definition forge_main ::
    "(string \<Rightarrow> string option) \<Rightarrow> (string \<Rightarrow> string) \<Rightarrow> (string \<Rightarrow> string Result option) \<Rightarrow> string list \<Rightarrow> Run option" where
  "forge_main files relative status argv =
     (case argv of
        _ # command # args \<Rightarrow>
          if command = ''build'' \<or> command = ''demo'' then cmd_build files relative (command # args)
          else if command = ''graph'' then cmd_graph files relative (command # args)
          else if command = ''status'' then cmd_status status relative (command # args)
          else Some (fails 2 (''unknown command: '' @ command))
      | _ \<Rightarrow> Some (fails 2 ''usage: forge <build [manifest] [targets...]|graph apply <manifest>|status [--socket PATH]|demo>''))"

subsection \<open>The daemon program\<close>

record ForgedOptions =
  fo_socket_path :: string
  fo_socket_mode :: bool
  fo_once :: bool

fun forged_args :: "string list \<Rightarrow> ForgedOptions \<Rightarrow> ForgedOptions option" where
  "forged_args [] opts = Some opts"
| "forged_args [arg] opts = (if arg = ''--once'' then Some (opts\<lparr>fo_once := True\<rparr>) else None)"
| "forged_args (arg # next_arg # args) opts =
     (if arg = ''--socket'' then forged_args args (opts\<lparr>fo_socket_path := next_arg, fo_socket_mode := True\<rparr>)
      else if arg = ''--once'' then forged_args (next_arg # args) (opts\<lparr>fo_once := True\<rparr>)
      else None)"

text \<open>A connection: what \<open>accept\<close>, \<open>recv\<close> and \<open>send\<close> return. The loop stops after one with \<open>--once\<close>, or with an error.\<close>

type_synonym connection = "(unit + string) \<times> recv_result list \<times> send_result list"

fun serve_all :: "bool \<Rightarrow> UnixSocketDaemon \<Rightarrow> connection list \<Rightarrow> unit Result option" where
  "serve_all once u [] = None"
| "serve_all once u ((conn, recvs, sends) # conns) =
     (case serve_once conn recvs sends u of
        None \<Rightarrow> None
      | Some (_, Inl e) \<Rightarrow> Some (Inl e)
      | Some (_, Inr _) \<Rightarrow> if once then Some (Inr ()) else serve_all once u conns)"

definition forged_main ::
    "(string \<Rightarrow> string) \<Rightarrow> bool \<Rightarrow> start_calls \<Rightarrow> connection list \<Rightarrow> string list \<Rightarrow> (Run \<times> Daemon) option" where
  "forged_main relative file_exists calls conns args =
     (case forged_args args \<lparr>fo_socket_path = [], fo_socket_mode = False, fo_once = False\<rparr> of
        None \<Rightarrow> Some (fails 2 ''usage: forged [--socket PATH] [--once]'', new_daemon relative)
      | Some opts \<Rightarrow>
          let daemon = new_daemon relative
          in if fo_socket_mode opts then
               (case server_start calls (new_server (fo_socket_path opts) daemon file_exists) of
                  (server, Inl e) \<Rightarrow> Some (fails 10 (message e), us_daemon (server_destroy server))
                | (server, Inr _) \<Rightarrow>
                    let banner = message_line (''forged socket='' @ fo_socket_path opts)
                    in case serve_all (fo_once opts) server conns of
                         None \<Rightarrow> None
                       | Some (Inl e) \<Rightarrow> Some ((10, banner, message_line (message e)), us_daemon (server_destroy server))
                       | Some (Inr _) \<Rightarrow>
                           (case server_stop server of
                              (server, Inl e) \<Rightarrow> Some ((10, banner, message_line (message e)), us_daemon (server_destroy server))
                            | (server, Inr _) \<Rightarrow> Some (exits 0 banner, us_daemon (server_destroy server))))
             else
               (case daemon_start daemon of
                  (daemon, Inl e) \<Rightarrow> Some (fails 10 (message e), daemon)
                | (daemon, Inr _) \<Rightarrow>
                    let banner = message_line ''forged state=running''
                    in case daemon_stop daemon of
                         (daemon, Inl e) \<Rightarrow> Some ((10, banner, message_line (message e)), daemon)
                       | (daemon, Inr _) \<Rightarrow> Some (exits 0 banner, daemon)))"


section \<open>Manifests of bounded size\<close>

definition items :: "ParseVars \<Rightarrow> nat" where
  "items v = length (gm_nodes (pv_manifest v)) + length (gm_edges (pv_manifest v))"

lemma line_of_words_items: "line_of_words n ws v = Inr v' \<Longrightarrow> items v' \<le> items v + 1"
proof (induction n ws v rule: line_of_words.induct)
  case (1 n r ws v)
  then show ?case
    by (cases "(n, ws, v)" rule: node_of_words.cases; cases "(n, ws, v)" rule: edge_of_words.cases; cases "(n, ws, v)" rule: target_of_words.cases)
      (auto simp: map_sum_Inr_iff items_def add_node_def add_edge_def add_target_def split: if_splits)
qed simp

lemma parse_lines_items: "parse_lines n ls v = Inr v' \<Longrightarrow> items v' \<le> items v + length ls"
proof (induction ls arbitrary: n v)
  case (Cons l ls)
  obtain v1 where v1: "parse_line (n + 1) l v = Inr v1" "parse_lines (n + 1) ls v1 = Inr v'"
    using Cons.prems by (auto split: sum.splits)
  have "items v1 \<le> items v + 1" using v1(1) line_of_words_items by (auto simp: parse_line_words split: if_splits)
  then show ?case using Cons.IH [OF v1(2)] by simp
qed simp

lemma length_get_lines: "length (get_lines s) \<le> length s"
  by (induction s) (auto split: list.splits)

lemma parsed_size:
  assumes "parse_manifest input = Inr m"
  shows "length (gm_nodes m) \<le> length input" "length (gm_edges m) \<le> length input"
proof -
  obtain v where v: "parse_lines 0 (get_lines input) empty_vars = Inr v" "m = pv_manifest v"
    using assms by (auto simp: parse_manifest_def split: sum.splits if_splits)
  then have "items v \<le> length input" using parse_lines_items [OF v(1)] length_get_lines [of input] by (simp add: items_def empty_vars_def)
  then show "length (gm_nodes m) \<le> length input" "length (gm_edges m) \<le> length input" using v(2) by (simp_all add: items_def)
qed

section \<open>Exit codes\<close>

definition buildable :: "GraphManifest \<Rightarrow> bool" where
  "buildable m \<longleftrightarrow> edges_known m \<and> targets_known m \<and> acyclic (manifest_depends m)"

lemma build_and_report_exit:
  assumes "graph_inv g" "set targets \<subseteq> set (sm_keys (bg_nodes g))"
  shows "\<exists>out err. build_and_report ((new_workspace relative)\<lparr>ws_graph := g\<rparr>) targets =
    Some (if acyclic (depends (bg_edges g)) then 0 else 3, out, err)"
proof (cases "acyclic (depends (bg_edges g))")
  case True
  then show ?thesis
    using build_mock_runs [OF new_workspace_ready [OF assms(1)], of relative targets new_mock] assms(2)
    by (auto simp: build_and_report_def exits_def new_mock_def)
next
  case False
  then have "build mock_run ((new_workspace relative)\<lparr>ws_graph := g\<rparr>) new_mock targets =
      Some ((new_workspace relative)\<lparr>ws_graph := g\<rparr>, new_mock, Inl (workspace_error ec_cycle ''graph contains prohibited cycle''))"
    using assms(1) by (intro build_cyclic) simp_all
  then show ?thesis using False by (simp add: build_and_report_def fails_def)
qed

lemma named_keys: "named g a n \<Longrightarrow> n \<in> set (sm_keys (bg_nodes g))"
  by (auto simp: named_def sm_keys_def rev_image_eqI)

lemma find_targets_cases:
  "find_targets names args targets =
    (if list_all (sm_contains names) args then Inr (targets @ map (\<lambda>a. the (sm_find names a)) args)
     else Inl (hd (filter (\<lambda>a. \<not> sm_contains names a) args)))"
  by (induction names args targets rule: find_targets.induct) (auto simp: sm_contains_def split: option.split)

text \<open>The names of an applied manifest are those of its nodes, and its targets are nodes of the graph.\<close>

lemma applied_names:
  assumes "names_of names g" "node_content g = (\<lambda>nd. (mn_name nd, mn_action nd)) ` set (gm_nodes m)"
  shows "sm_contains names a \<longleftrightarrow> a \<in> manifest_names m"
proof -
  have "sm_contains names a \<longleftrightarrow> (\<exists>n. named g a n)" using assms(1) by (auto simp: names_of_def sm_contains_def)
  also have "\<dots> \<longleftrightarrow> a \<in> fst ` node_content g" by (force simp: named_def node_content_def)
  finally show ?thesis by (simp add: assms(2) image_image manifest_names_def)
qed

lemma applied_targets_known:
  assumes "names_of names g" "list_all2 (named g) ts (am_targets am)" "am_nodes_by_name am = names"
    and "(if args \<noteq> [] then find_targets names args [] else Inr (am_targets am)) = Inr targets"
  shows "set targets \<subseteq> set (sm_keys (bg_nodes g))"
proof (cases "args = []")
  case True
  then show ?thesis using assms(2,4) named_keys by (fastforce simp: list_all2_conv_all_nth in_set_conv_nth)
next
  case False
  then have "list_all (sm_contains names) args" "targets = map (\<lambda>a. the (sm_find names a)) args"
    using assms(4) by (auto simp: find_targets_cases split: if_splits)
  moreover have "the (sm_find names a) \<in> set (sm_keys (bg_nodes g))" if "sm_contains names a" for a
  proof -
    obtain n where n: "sm_find names a = Some n" using \<open>sm_contains names a\<close> by (auto simp: sm_contains_def)
    have "named g a n" using n assms(1) unfolding names_of_def by blast
    then have "n \<in> set (sm_keys (bg_nodes g))" by (rule named_keys)
    then show ?thesis by (simp add: n)
  qed
  ultimately show ?thesis by (auto simp: list_all_iff)
qed

lemma cmd_build_manifest:
  assumes "parse_manifest input = Inr m" "length input < 2 ^ 64 - 1" "files path = Some input"
  shows "\<exists>out err. cmd_build files relative (prog # path # args) =
    Some (if buildable m \<and> set args \<subseteq> manifest_names m then 0 else 3, out, err)"
proof -
  note size = parsed_size [OF assms(1)] and ok = parsed_manifest_ok [OF assms(1)]
  show ?thesis
  proof (cases "edges_known m \<and> targets_known m")
    case True
    then obtain g am where g: "apply_manifest (new_workspace relative) m = Some ((new_workspace relative)\<lparr>ws_graph := g\<rparr>, Inr am)"
      "graph_inv g" "node_content g = (\<lambda>nd. (mn_name nd, mn_action nd)) ` set (gm_nodes m)"
      "name_edges g = (\<lambda>e. (me_from e, me_to e, me_kind e)) ` set (gm_edges m)"
      "names_of (am_nodes_by_name am) g" "list_all2 (named g) (manifest_targets m) (am_targets am)"
      using apply_manifest_graph [OF ok, of relative] size assms(2) by auto
    let ?q = "if args \<noteq> [] then find_targets (am_nodes_by_name am) args [] else Inr (am_targets am)"
    have known: "isl ?q \<longleftrightarrow> \<not> set args \<subseteq> manifest_names m"
      using applied_names [OF g(5,3)] by (auto simp: find_targets_cases list_all_iff)
    show ?thesis
    proof (cases ?q)
      case (Inl a)
      then show ?thesis using g(1) assms(1,3) known by (simp add: cmd_build_def fails_def split: if_splits)
    next
      case (Inr targets)
      from build_and_report_exit [OF g(2) applied_targets_known [OF g(5,6) refl Inr], of relative] show ?thesis
        using True g(1) assms(1,3) manifest_acyclic [OF g(2,4)] known Inr by (simp add: cmd_build_def buildable_def split: if_splits)
    qed
  next
    case False
    then obtain ws e where "apply_manifest (new_workspace relative) m = Some (ws, Inl e)"
      using apply_manifest_unknown [OF ok, of relative] size assms(2) by fastforce
    then show ?thesis using False assms(1,3) by (auto simp: cmd_build_def buildable_def fails_def)
  qed
qed

end
