(* ===== verification/Forge_State.thy ===== *)
theory Forge_State
  imports Forge_Framing
begin

text \<open>
  The FST-1 state log: the record codec (\<^verbatim>\<open>src/state/state_codec.cpp\<close>) and the append log
  (\<^verbatim>\<open>src/state/append_log.cpp\<close>). The lemmas show that records survive encoding, what the decoder
  makes of a truncated record, and that it detects every changed byte that is not padding. The
  codec interprets the \<open>record_framing\<close> contract.
\<close>

unbundle bit_operations_syntax

section \<open>Definitions\<close>

text \<open>\<open>StateRecordType\<close> has the fixed underlying type \<open>uint16_t\<close>.\<close>

type_synonym StateRecordType = u16

abbreviation srt_txn_begin :: StateRecordType where "srt_txn_begin \<equiv> 0x1000"
abbreviation srt_graph_delta :: StateRecordType where "srt_graph_delta \<equiv> 0x1010"
abbreviation srt_input_delta :: StateRecordType where "srt_input_delta \<equiv> 0x1011"
abbreviation srt_job_delta :: StateRecordType where "srt_job_delta \<equiv> 0x1012"
abbreviation srt_txn_commit :: StateRecordType where "srt_txn_commit \<equiv> 0x10F0"
abbreviation srt_checkpoint :: StateRecordType where "srt_checkpoint \<equiv> 0x10F1"

record StateRecord =
  sr_type :: StateRecordType
  sr_txn_id :: u64
  sr_base_sequence :: u64
  sr_new_sequence :: u64
  sr_payload :: Bytes

definition kStateHeaderSize :: nat where
  "kStateHeaderSize = 40"

function pad8 :: "Bytes \<Rightarrow> Bytes" where
  "pad8 out = (if length out mod 8 \<noteq> 0 then pad8 (out @ [0]) else out)"
  by pat_completeness auto
termination
  by (relation "measure (\<lambda>out. (8 - length out mod 8) mod 8)") (auto simp: mod_Suc)

declare pad8.simps [simp del]

definition state_encode :: "StateRecord \<Rightarrow> Bytes" where
  "state_encode r =
     (let out = append_u32_le [] (of_nat (kStateHeaderSize + length (sr_payload r)) :: u32);
          out = append_u16_le out (sr_type r);
          out = append_u16_le out 0;
          out = append_u64_le out (sr_txn_id r);
          out = append_u64_le out (sr_base_sequence r);
          out = append_u64_le out (sr_new_sequence r);
          out = append_u32_le out 0;
          out = append_u32_le out (crc32c (sr_payload r));
          header_crc = crc32c (take (kStateHeaderSize - 8) out);
          out = out[32 := ucast (header_crc AND 0xff)];
          out = out[33 := ucast (drop_bit 8 header_crc AND 0xff)];
          out = out[34 := ucast (drop_bit 16 header_crc AND 0xff)];
          out = out[35 := ucast (drop_bit 24 header_crc AND 0xff)]
      in pad8 (out @ sr_payload r))"

function align8 :: "nat \<Rightarrow> nat \<Rightarrow> nat" where
  "align8 sz consumed =
     (if consumed < sz \<and> consumed mod 8 \<noteq> 0 then align8 sz (Suc consumed) else consumed)"
  by pat_completeness auto
termination
  by (relation "measure (\<lambda>(sz, consumed). sz - consumed)") auto

declare align8.simps [simp del]

definition state_codec_error :: "string \<Rightarrow> Status" where
  "state_codec_error msg = error ec_format ''state-codec'' msg"

text \<open>\<open>decode\<close> returns the record and the number of bytes it consumes (the out-parameter).\<close>

definition state_decode :: "Bytes \<Rightarrow> (StateRecord \<times> nat) Result" where
  "state_decode bs =
     (if length bs < kStateHeaderSize then Inl (state_codec_error ''truncated state record'')
      else
        let len = projr (read_u32_le bs 0)
        in if unat len < kStateHeaderSize \<or> length bs < unat len
           then Inl (state_codec_error ''invalid state record length'')
           else
             let header = take kStateHeaderSize bs;
                 expected_header_crc = projr (read_u32_le header 32);
                 header = header[32 := 0, 33 := 0, 34 := 0, 35 := 0]
             in if crc32c (take (kStateHeaderSize - 8) header) \<noteq> expected_header_crc
                then Inl (state_codec_error ''state header crc mismatch'')
                else
                  let r = \<lparr>sr_type = projr (read_u16_le bs 4),
                           sr_txn_id = projr (read_u64_le bs 8),
                           sr_base_sequence = projr (read_u64_le bs 16),
                           sr_new_sequence = projr (read_u64_le bs 24),
                           sr_payload = drop kStateHeaderSize (take (unat len) bs)\<rparr>;
                      payload_crc = projr (read_u32_le bs 36)
                  in if crc32c (sr_payload r) \<noteq> payload_crc
                     then Inl (state_codec_error ''state payload crc mismatch'')
                     else Inr (r, align8 (length bs) (unat len)))"

text \<open>The append log: its state is the bytes written so far. None of its operations fails.\<close>

text \<open>The state of an \<open>AppendLog\<close> is its bytes.\<close>

type_synonym AppendLog = Bytes

definition log_append :: "AppendLog \<Rightarrow> StateRecord \<Rightarrow> AppendLog" where
  "log_append bs r = bs @ state_encode r"

definition log_begin :: "AppendLog \<Rightarrow> u64 \<Rightarrow> u64 \<Rightarrow> u64 \<Rightarrow> AppendLog" where
  "log_begin bs txn base count =
     log_append bs \<lparr>sr_type = srt_txn_begin, sr_txn_id = txn, sr_base_sequence = base,
       sr_new_sequence = 0, sr_payload = append_u64_le [] count\<rparr>"

definition log_commit :: "AppendLog \<Rightarrow> u64 \<Rightarrow> u64 \<Rightarrow> AppendLog" where
  "log_commit bs txn new =
     log_append bs \<lparr>sr_type = srt_txn_commit, sr_txn_id = txn, sr_base_sequence = 0,
       sr_new_sequence = new, sr_payload = append_u64_le [] (ucast (crc32c bs))\<rparr>"

lemma align8_bounds: "c \<le> align8 sz c \<and> (c \<le> sz \<longrightarrow> align8 sz c \<le> sz)"
proof (induction sz c rule: align8.induct)
  case (1 sz c)
  then show ?case by (subst (1 2) align8.simps) auto
qed

text \<open>A decoded record takes at least its header and at most the bytes there are.\<close>

lemma state_decode_consumes: "state_decode bs = Inr (r, n) \<Longrightarrow> 40 \<le> n \<and> n \<le> length bs"
  using align8_bounds [of "unat (projr (read_u32_le bs 0))" "length bs"]
  by (auto simp: state_decode_def Let_def kStateHeaderSize_def split: if_splits)

section \<open>Records survive encoding\<close>

definition padding :: "nat \<Rightarrow> Bytes" where
  "padding n = replicate ((8 - n mod 8) mod 8) 0"

lemma pad_Suc:
  assumes "n mod 8 \<noteq> (0 :: nat)"
  shows "(8 - n mod 8) mod 8 = Suc ((8 - Suc n mod 8) mod 8)"
proof -
  have "n mod 8 < 8" by simp
  with assms have "n mod 8 \<in> {1, 2, 3, 4, 5, 6, 7}" by auto
  then show ?thesis by (auto simp: mod_Suc)
qed

lemma pad_total: "(n + length (padding n)) mod 8 = 0"
proof -
  have "n mod 8 < 8" by simp
  then have "n mod 8 + (8 - n mod 8) = 8" by linarith
  then have "(n + (8 - n mod 8)) mod 8 = 0" by (metis mod_add_left_eq mod_self)
  then show ?thesis by (simp add: padding_def mod_add_right_eq)
qed

lemma padding_none: "n mod 8 = 0 \<Longrightarrow> padding n = []"
  by (simp add: padding_def)

lemma padding_Suc: "n mod 8 \<noteq> 0 \<Longrightarrow> padding n = 0 # padding (Suc n)"
  unfolding padding_def by (subst pad_Suc) simp_all

lemma pad8_eq: "pad8 out = out @ padding (length out)"
proof (induction out rule: pad8.induct)
  case (1 out)
  show ?case
  proof (cases "length out mod 8 = 0")
    case True
    then show ?thesis by (subst pad8.simps) (simp add: padding_none)
  next
    case False
    then have "pad8 out = pad8 (out @ [0])" by (subst pad8.simps) simp
    also have "\<dots> = (out @ [0]) @ padding (length (out @ [0]))" using 1 False by blast
    also have "\<dots> = out @ padding (length out)" using padding_Suc [OF False] by simp
    finally show ?thesis .
  qed
qed

lemma align8_eq: "c \<le> sz \<Longrightarrow> align8 sz c = min sz (c + length (padding c))"
proof (induction sz c rule: align8.induct)
  case (1 sz c)
  show ?case
  proof (cases "c < sz \<and> c mod 8 \<noteq> 0")
    case True
    then have "align8 sz c = align8 sz (Suc c)" by (subst align8.simps) simp
    also have "\<dots> = min sz (Suc c + length (padding (Suc c)))" using 1 True by simp
    also have "\<dots> = min sz (c + length (padding c))" using True padding_Suc [of c] by simp
    finally show ?thesis .
  next
    case False
    then have "align8 sz c = c" by (subst align8.simps) auto
    then show ?thesis using 1(2) False padding_none [of c] by (cases "c < sz") auto
  qed
qed

definition state_len :: "StateRecord \<Rightarrow> u32" where
  "state_len r = of_nat (kStateHeaderSize + length (sr_payload r))"

definition state_header :: "StateRecord \<Rightarrow> Bytes" where
  "state_header r = le32 (state_len r) @ le16 (sr_type r) @ le16 0 @ le64 (sr_txn_id r) @
     le64 (sr_base_sequence r) @ le64 (sr_new_sequence r)"

definition state_fits :: "StateRecord \<Rightarrow> bool" where
  "state_fits r \<longleftrightarrow> 40 + length (sr_payload r) < 2 ^ 32"

lemma length_state_header [simp]: "length (state_header r) = 32"
  by (simp add: state_header_def)

lemma state_encode_eq:
  "state_encode r = envelope (state_header r) (sr_payload r) @ padding (40 + length (sr_payload r))"
proof -
  let ?H = "state_header r" and ?P = "le32 (crc32c (sr_payload r))"
  have out: "le32 (of_nat (kStateHeaderSize + length (sr_payload r))) @ le16 (sr_type r) @ le16 0 @
     le64 (sr_txn_id r) @ le64 (sr_base_sequence r) @ le64 (sr_new_sequence r) @ le32 0 @ ?P = ?H @ le32 0 @ ?P"
    by (simp add: state_header_def state_len_def)
  have crc: "crc32c (take (kStateHeaderSize - 8) (?H @ le32 0 @ ?P)) = crc32c ?H"
    by (simp add: kStateHeaderSize_def)
  have "state_encode r = pad8 (envelope ?H (sr_payload r))"
    unfolding state_encode_def Let_def append_le append_assoc append_Nil out crc envelope_def
    by (simp only: patch_header [OF length_state_header] append_assoc)
  then show ?thesis by (simp add: pad8_eq add.commute)
qed

lemma unat_state_len: "state_fits r \<Longrightarrow> unat (state_len r) = 40 + length (sr_payload r)"
  unfolding state_len_def kStateHeaderSize_def unat_of_nat state_fits_def by (rule mod_less) simp

lemma length_state_encode: "length (state_encode r) = 40 + length (sr_payload r) + length (padding (40 + length (sr_payload r)))"
  by (simp add: state_encode_eq)

lemma state_encode_nonempty [simp]: "state_encode r \<noteq> []"
  using length_state_encode [of r] by force

lemma state_encode_aligned: "length (state_encode r) mod 8 = 0"
  unfolding length_state_encode by (rule pad_total)

text \<open>Decoding from any buffer that starts with the unpadded part of an encoded record.\<close>

lemma state_decode_envelope:
  assumes "state_fits r"
  shows "state_decode (envelope (state_header r) (sr_payload r) @ rest) =
    Inr (r, align8 (40 + length (sr_payload r) + length rest) (40 + length (sr_payload r)))"
proof -
  let ?b = "envelope (state_header r) (sr_payload r) @ rest"
  have hd: "read_u32_le ?b 0 = Inr (state_len r)" "read_u16_le ?b 4 = Inr (sr_type r)"
    "read_u64_le ?b 8 = Inr (sr_txn_id r)" "read_u64_le ?b 16 = Inr (sr_base_sequence r)"
    "read_u64_le ?b 24 = Inr (sr_new_sequence r)" "read_u32_le ?b 36 = Inr (crc32c (sr_payload r))"
    by (simp_all add: envelope_def state_header_def read_fields)
  have crc: "read_u32_le (take 40 ?b) 32 = Inr (crc32c (state_header r))"
    by (simp add: envelope_def read_fields)
  have hdr: "take 32 ?b = state_header r" by (simp add: envelope_def)
  have pay: "drop 40 (take (40 + length (sr_payload r)) ?b) = sr_payload r" by (simp add: envelope_def)
  have eta: "\<lparr>sr_type = sr_type r, sr_txn_id = sr_txn_id r, sr_base_sequence = sr_base_sequence r,
      sr_new_sequence = sr_new_sequence r, sr_payload = sr_payload r\<rparr> = r" by (cases r) simp
  show ?thesis
    using unat_state_len [OF assms]
    by (simp add: state_decode_def Let_def kStateHeaderSize_def hd crc take_cleared_header hdr pay eta
        del: take_append drop_append)
qed

lemma state_decode_encode:
  "state_fits r \<Longrightarrow> state_decode (state_encode r @ rest) = Inr (r, length (state_encode r))"
  using state_decode_envelope [of r "padding (40 + length (sr_payload r)) @ rest"]
  by (simp add: state_encode_eq align8_eq length_state_encode)

lemma state_decode_short:
  assumes "state_fits r" "k < 40 + length (sr_payload r)"
  shows "\<exists>e. state_decode (take k (state_encode r)) = Inl e"
proof (cases "k < 40")
  let ?E = "state_encode r"
  case False
  have "take k ?E = le32 (state_len r) @ take (k - 4) (drop 4 ?E)"
    using False take_add [of 4 "k - 4" ?E] by (simp add: state_encode_eq envelope_def state_header_def)
  then have "read_u32_le (take k ?E) 0 = Inr (state_len r)" by (simp only: read_le_head)
  then show ?thesis
    using False assms unat_state_len [OF assms(1)]
    by (simp add: state_decode_def Let_def kStateHeaderSize_def length_state_encode)
next
  let ?E = "state_encode r"
  case True
  then have "length (take k ?E) < kStateHeaderSize" by (simp add: kStateHeaderSize_def min_less_iff_disj)
  then show ?thesis by (simp add: state_decode_def del: length_take)
qed

lemma state_decode_truncated:
  assumes "state_fits r" "k < length (state_encode r)"
  shows "(\<exists>e. state_decode (take k (state_encode r)) = Inl e) \<or> state_decode (take k (state_encode r)) = Inr (r, k)"
proof (cases "k < 40 + length (sr_payload r)")
  case False
  let ?j = "k - (40 + length (sr_payload r))" and ?pad = "padding (40 + length (sr_payload r))"
  have "take k (state_encode r) = envelope (state_header r) (sr_payload r) @ take ?j ?pad"
    using False by (simp add: state_encode_eq)
  moreover have "?j \<le> length ?pad" using assms(2) False by (simp add: length_state_encode)
  ultimately show ?thesis
    using state_decode_envelope [OF assms(1), of "take ?j ?pad"] False by (simp add: align8_eq)
qed (simp add: state_decode_short assms(1))

section \<open>Corrupted records\<close>

lemma state_decode_sound:
  assumes "state_decode bs = Inr (r, n)"
  obtains H rest where "bs = envelope H (sr_payload r) @ rest" "length H = 32"
    "take 4 H = le32 (state_len r)" "state_fits r"
proof -
  have l40: "40 \<le> length bs" using state_decode_consumes [OF assms] by simp
  obtain m hc pc where rd: "read_u32_le bs 0 = Inr m" "read_u32_le (take 40 bs) 32 = Inr hc" "read_u32_le bs 36 = Inr pc"
    using l40 read_le_total(2) [of 0 bs] read_le_total(2) [of 32 "take 40 bs"] read_le_total(2) [of 36 bs] by auto
  let ?p = "drop 40 (take (unat m) bs)"
  from assms have main: "40 \<le> unat m" "unat m \<le> length bs" "crc32c (take 32 bs) = hc" "sr_payload r = ?p" "crc32c ?p = pc"
    by (auto simp: state_decode_def Let_def kStateHeaderSize_def rd take_cleared_header split: if_splits)
  have hc: "read_u32_le bs 32 = Inr hc" using rd(2) l40 by (simp add: read_le_take)
  have "drop 40 (take (unat m) bs @ drop (unat m) bs) = ?p @ drop (unat m) bs"
    using main(1,2) by (subst drop_append) simp
  then have body: "drop 40 bs = ?p @ drop (unat m) bs" by simp
  have len: "length ?p = unat m - 40" using main by simp
  then have "40 + length (sr_payload r) = unat m" using main by simp
  then have "state_fits r" "state_len r = m"
    using unsigned_less [of m] by (simp_all add: state_fits_def state_len_def kStateHeaderSize_def)
  moreover have "bs = envelope (take 32 bs) (sr_payload r) @ drop (unat m) bs"
    apply (subst header_split [of bs])
    using l40 main(3,5) read_u32_inverse [OF hc] read_u32_inverse [OF rd(3)]
    by (simp add: envelope_def body main(4))
  moreover have "take 4 (take 32 bs) = le32 m" using read_u32_inverse [OF rd(1)] by simp
  ultimately show ?thesis using l40 by (intro that [of "take 32 bs"]) simp_all
qed

lemma take4_state_header [simp]: "take 4 (state_header r) = le32 (state_len r)"
  by (simp add: state_header_def)

text \<open>
  A changed byte of the header, of the checksums or of the payload is detected; a changed
  padding byte leaves the record as it is.
\<close>

lemma state_decode_corrupt:
  assumes r: "state_fits r" and i: "i < length (state_encode r)" and b: "b \<noteq> state_encode r ! i"
  shows "if i < 40 + length (sr_payload r) then \<exists>e. state_decode ((state_encode r)[i := b] @ rest) = Inl e
    else state_decode ((state_encode r)[i := b] @ rest) = Inr (r, length (state_encode r))"
proof (cases "i < 40 + length (sr_payload r)")
  case True
  let ?E = "envelope (state_header r) (sr_payload r)" and ?pad = "padding (40 + length (sr_payload r))"
  have "\<exists>e. state_decode ((state_encode r)[i := b] @ rest) = Inl e"
  proof (cases "state_decode ((state_encode r)[i := b] @ rest)")
    case (Inr p)
    then obtain s n where dec: "state_decode ((state_encode r)[i := b] @ rest) = Inr (s, n)" by (cases p) auto
    then obtain H ys where H: "(state_encode r)[i := b] @ rest = envelope H (sr_payload s) @ ys" "length H = 32"
      "take 4 H = le32 (state_len s)" "state_fits s" by (rule state_decode_sound)
    have "?E[i := b] @ ?pad @ rest = envelope H (sr_payload s) @ ys"
      using H(1) True by (simp add: state_encode_eq list_update_append)
    moreover have "length (sr_payload r) = length (sr_payload s)" if "state_header r = H"
      using H(3,4) that unat_state_len [OF r] unat_state_len [of s] by auto
    ultimately have "b = ?E ! i"
      using H(2) True by (intro envelope_one_byte [of "state_header r" H i "sr_payload r" b]) simp_all
    then show ?thesis using b True by (simp add: state_encode_eq nth_append)
  qed blast
  then show ?thesis using True by simp
next
  case False
  then show ?thesis
    using state_decode_envelope [OF r, of "(padding (40 + length (sr_payload r)))[i - (40 + length (sr_payload r)) := b] @ rest"]
    by (simp add: state_encode_eq align8_eq list_update_append)
qed

section \<open>The codec as a framing of records\<close>

definition state_dec :: "Bytes \<Rightarrow> (StateRecord \<times> nat) option" where
  "state_dec bs = (case state_decode bs of Inl _ \<Rightarrow> None | Inr p \<Rightarrow> Some p)"

interpretation fst1: record_framing state_encode state_dec state_fits
proof unfold_locales
  fix r k assume "state_fits r" "k < length (state_encode r)"
  then show "state_dec (take k (state_encode r)) = None \<or> state_dec (take k (state_encode r)) = Some (r, k)"
    using state_decode_truncated [of r k] by (auto simp: state_dec_def)
qed (simp_all add: state_dec_def state_decode_encode, simp add: state_decode_def kStateHeaderSize_def)

end
