(* ===== verification/Forge_Recovery.thy ===== *)
theory Forge_Recovery
  imports Forge_State
begin

text \<open>
  Log recovery (\<^verbatim>\<open>src/state/recovery.cpp\<close>). The loop of \<open>recover_log\<close> is modelled with its local
  variables as a record. The lemmas follow it record by record over a log of transactions: a
  complete log replays exactly its transactions, a log cut at any byte replays the transactions
  that are completely on disk, and a log with one changed byte replays those before the change.
\<close>

section \<open>Definitions\<close>

record RecoveryResult =
  rr_sequence :: u64
  rr_committed :: "StateRecord list"
  rr_diagnostics :: "string list"

text \<open>The local variables of \<open>recover_log\<close>.\<close>

record RecoveryVars =
  rv_in_txn :: bool
  rv_txn_id :: u64
  rv_declared_count :: u64
  rv_staged :: "StateRecord list"
  rv_result :: RecoveryResult

definition diagnose :: "string \<Rightarrow> RecoveryVars \<Rightarrow> RecoveryVars" where
  "diagnose msg v = v\<lparr>rv_result := (rv_result v)\<lparr>rr_diagnostics := rr_diagnostics (rv_result v) @ [msg]\<rparr>\<rparr>"

text \<open>
  One record of the loop. \<open>Inl\<close> leaves the loop (\<open>break\<close>), \<open>Inr\<close> goes on behind the record.
\<close>

definition recover_record ::
    "Bytes \<Rightarrow> nat \<Rightarrow> StateRecord \<Rightarrow> RecoveryVars \<Rightarrow> RecoveryVars + RecoveryVars" where
  "recover_record bytes off r v =
     (if sr_type r = srt_txn_begin then
        (case read_u64_le (sr_payload r) 0 of
           Inl _ \<Rightarrow> Inl (diagnose ''transaction begin missing declared count'' v)
         | Inr count \<Rightarrow>
             Inr (v\<lparr>rv_in_txn := True, rv_txn_id := sr_txn_id r, rv_declared_count := count, rv_staged := []\<rparr>))
      else if sr_type r = srt_txn_commit \<and> rv_in_txn v \<and> sr_txn_id r = rv_txn_id v then
        (case read_u64_le (sr_payload r) 0 of
           Inl _ \<Rightarrow> Inl (diagnose ''transaction commit missing digest'' v)
         | Inr expected_crc \<Rightarrow>
             if length (rv_staged v) \<noteq> unat (rv_declared_count v) then
               Inr ((diagnose ''ignored transaction with mismatched declared record count'' v)
                      \<lparr>rv_in_txn := False, rv_staged := []\<rparr>)
             else if crc32c (take off bytes) \<noteq> ucast expected_crc then
               Inr ((diagnose ''ignored transaction with commit digest mismatch'' v)
                      \<lparr>rv_in_txn := False, rv_staged := []\<rparr>)
             else
               Inr (v\<lparr>rv_result := (rv_result v)\<lparr>rr_committed := rr_committed (rv_result v) @ rv_staged v,
                                               rr_sequence := sr_new_sequence r\<rparr>,
                      rv_in_txn := False, rv_staged := []\<rparr>))
      else if rv_in_txn v then Inr (v\<lparr>rv_staged := rv_staged v @ [r]\<rparr>)
      else Inr v)"

function recover_loop :: "Bytes \<Rightarrow> nat \<Rightarrow> RecoveryVars \<Rightarrow> RecoveryVars" where
  "recover_loop bytes off v =
     (if off < length bytes then
        (case state_decode (drop off bytes) of
           Inl e \<Rightarrow> diagnose (message e) v
         | Inr (r, consumed) \<Rightarrow>
             (case recover_record bytes off r v of
                Inl v' \<Rightarrow> v'
              | Inr v' \<Rightarrow> recover_loop bytes (off + consumed) v'))
      else v)"
  by pat_completeness auto
termination
  by (relation "measure (\<lambda>(bytes, off, v). length bytes - off)") (auto dest!: state_decode_consumes)

declare recover_loop.simps [simp del]

definition initial_vars :: RecoveryVars where
  "initial_vars = \<lparr>rv_in_txn = False, rv_txn_id = 0, rv_declared_count = 0, rv_staged = [],
     rv_result = \<lparr>rr_sequence = 0, rr_committed = [], rr_diagnostics = []\<rparr>\<rparr>"

definition recover_log :: "Bytes \<Rightarrow> RecoveryResult" where
  "recover_log bytes =
     (let v = recover_loop bytes 0 initial_vars
      in rv_result (if rv_in_txn v then diagnose ''ignored partial transaction tail'' v else v))"

definition log_replay :: "AppendLog \<Rightarrow> StateRecord list" where
  "log_replay bs = rr_committed (recover_log bs)"

section \<open>Logs of transactions\<close>

text \<open>A transaction as its writer describes it, and the bytes the append log holds after it.\<close>

record Txn =
  tx_id :: u64
  tx_base :: u64
  tx_new :: u64
  tx_records :: "StateRecord list"

definition log_txn :: "Bytes \<Rightarrow> Txn \<Rightarrow> Bytes" where
  "log_txn bs t =
     log_commit (foldl log_append (log_begin bs (tx_id t) (tx_base t) (of_nat (length (tx_records t)))) (tx_records t))
       (tx_id t) (tx_new t)"

definition log_of :: "Txn list \<Rightarrow> Bytes" where
  "log_of ts = foldl log_txn [] ts"

definition control_record :: "StateRecord \<Rightarrow> bool" where
  "control_record r \<longleftrightarrow> sr_type r = srt_txn_begin \<or> sr_type r = srt_txn_commit"

definition txn_ok :: "Txn \<Rightarrow> bool" where
  "txn_ok t \<longleftrightarrow> list_all (\<lambda>r. state_fits r \<and> \<not> control_record r) (tx_records t) \<and> length (tx_records t) < 2 ^ 64"

definition begin_record :: "Txn \<Rightarrow> StateRecord" where
  "begin_record t = \<lparr>sr_type = srt_txn_begin, sr_txn_id = tx_id t, sr_base_sequence = tx_base t,
     sr_new_sequence = 0, sr_payload = le64 (of_nat (length (tx_records t)))\<rparr>"

definition commit_record :: "Bytes \<Rightarrow> Txn \<Rightarrow> StateRecord" where
  "commit_record bs t = \<lparr>sr_type = srt_txn_commit, sr_txn_id = tx_id t, sr_base_sequence = 0,
     sr_new_sequence = tx_new t, sr_payload = le64 (ucast (crc32c bs))\<rparr>"

abbreviation records_bytes :: "StateRecord list \<Rightarrow> Bytes" where
  "records_bytes rs \<equiv> concat (map state_encode rs)"

definition open_bytes :: "Txn \<Rightarrow> Bytes" where
  "open_bytes t = records_bytes (begin_record t # tx_records t)"

definition txn_bytes :: "Bytes \<Rightarrow> Txn \<Rightarrow> Bytes" where
  "txn_bytes bs t = open_bytes t @ state_encode (commit_record (bs @ open_bytes t) t)"

lemma foldl_log_append: "foldl log_append bs rs = bs @ records_bytes rs"
  by (induction rs arbitrary: bs) (simp_all add: log_append_def)

lemma log_txn_eq: "log_txn bs t = bs @ txn_bytes bs t"
  by (simp add: log_txn_def txn_bytes_def open_bytes_def log_commit_def log_begin_def log_append_def
      foldl_log_append begin_record_def commit_record_def)

lemma log_of_snoc [simp]: "log_of (ts @ [t]) = log_of ts @ txn_bytes (log_of ts) t"
  by (simp add: log_of_def log_txn_eq)

lemma log_of_Nil [simp]: "log_of [] = []"
  by (simp add: log_of_def)

lemma control_fits [simp]: "state_fits (begin_record t)" "state_fits (commit_record bs t)"
  by (simp_all add: state_fits_def begin_record_def commit_record_def)

section \<open>Recovery, record by record\<close>

lemma recover_record_prefix: "off \<le> length pre \<Longrightarrow> recover_record (pre @ ys) off r v = recover_record pre off r v"
proof -
  assume "off \<le> length pre"
  then have "take off (pre @ ys) = take off pre" by simp
  then show ?thesis by (simp only: recover_record_def)
qed

lemma recover_loop_end [simp]: "recover_loop bs (length bs) v = v"
  by (subst recover_loop.simps) simp

lemma recover_loop_record:
  assumes "state_fits r"
  shows "recover_loop (pre @ state_encode r @ ys) (length pre) v =
    (case recover_record pre (length pre) r v of Inl v' \<Rightarrow> v'
     | Inr v' \<Rightarrow> recover_loop (pre @ state_encode r @ ys) (length (pre @ state_encode r)) v')"
  by (subst recover_loop.simps) (simp add: state_decode_encode assms recover_record_prefix split: sum.split)

text \<open>Inside a transaction the loop stages the data records one after the other.\<close>

lemma recover_loop_staging:
  assumes "list_all (\<lambda>r. state_fits r \<and> \<not> control_record r) rs" "rv_in_txn v"
  shows "recover_loop (pre @ records_bytes rs @ ys) (length pre) v =
    recover_loop (pre @ records_bytes rs @ ys) (length (pre @ records_bytes rs)) (v\<lparr>rv_staged := rv_staged v @ rs\<rparr>)"
  using assms
proof (induction rs arbitrary: pre v)
  case (Cons r rs)
  let ?v = "v\<lparr>rv_staged := rv_staged v @ [r]\<rparr>"
  have "recover_record pre (length pre) r v = Inr ?v"
    using Cons.prems by (simp add: recover_record_def control_record_def)
  moreover have "state_fits r" using Cons.prems by simp
  ultimately have "recover_loop (pre @ records_bytes (r # rs) @ ys) (length pre) v =
      recover_loop ((pre @ state_encode r) @ records_bytes rs @ ys) (length (pre @ state_encode r)) ?v"
    using recover_loop_record [of r pre "records_bytes rs @ ys" v] by simp
  also have "\<dots> = recover_loop (pre @ records_bytes (r # rs) @ ys) (length (pre @ records_bytes (r # rs)))
      (v\<lparr>rv_staged := rv_staged v @ r # rs\<rparr>)"
    using Cons.IH [of ?v "pre @ state_encode r"] Cons.prems by simp
  finally show ?case .
qed simp

definition started :: "Txn \<Rightarrow> RecoveryVars \<Rightarrow> RecoveryVars" where
  "started t v = v\<lparr>rv_in_txn := True, rv_txn_id := tx_id t, rv_declared_count := of_nat (length (tx_records t)), rv_staged := []\<rparr>"

lemma recover_record_begin: "recover_record pre n (begin_record t) v = Inr (started t v)"
  by (simp add: recover_record_def begin_record_def started_def)

lemma recover_loop_open:
  assumes "txn_ok t"
  shows "recover_loop (pre @ open_bytes t @ ys) (length pre) v =
    recover_loop (pre @ open_bytes t @ ys) (length (pre @ open_bytes t)) ((started t v)\<lparr>rv_staged := tx_records t\<rparr>)"
  using assms recover_loop_record [of "begin_record t" pre "records_bytes (tx_records t) @ ys" v]
    recover_loop_staging [of "tx_records t" "started t v" "pre @ state_encode (begin_record t)" ys]
  by (simp add: open_bytes_def recover_record_begin txn_ok_def started_def)

definition committed :: "Txn \<Rightarrow> RecoveryVars \<Rightarrow> RecoveryVars" where
  "committed t v = (started t v)\<lparr>rv_in_txn := False,
     rv_result := (rv_result v)\<lparr>rr_committed := rr_committed (rv_result v) @ tx_records t, rr_sequence := tx_new t\<rparr>\<rparr>"

lemma ucast_crc [simp]: "(ucast (ucast (w :: u32) :: u64) :: u32) = w"
  by (rule bit_word_eqI) (simp add: bit_simps)

lemma recover_record_commit:
  assumes "txn_ok t" "v' = (started t v)\<lparr>rv_staged := tx_records t\<rparr>"
  shows "recover_record bs n (commit_record cs t) v' =
    (if crc32c (take n bs) = crc32c cs then Inr (committed t v)
     else Inr ((diagnose ''ignored transaction with commit digest mismatch'' v')\<lparr>rv_in_txn := False, rv_staged := []\<rparr>))"
  using assms
  by (simp add: recover_record_def commit_record_def started_def committed_def txn_ok_def unat_of_nat)

lemma recover_loop_txn:
  assumes "txn_ok t"
  shows "recover_loop (pre @ txn_bytes pre t @ ys) (length pre) v =
    recover_loop (pre @ txn_bytes pre t @ ys) (length (pre @ txn_bytes pre t)) (committed t v)"
  using recover_loop_open [OF assms, of pre "state_encode (commit_record (pre @ open_bytes t) t) @ ys" v]
    recover_loop_record [of "commit_record (pre @ open_bytes t) t" "pre @ open_bytes t" ys]
  by (simp add: txn_bytes_def recover_record_commit [OF assms refl])

lemma recover_loop_log:
  "list_all txn_ok ts \<Longrightarrow> recover_loop (log_of ts @ ys) 0 v =
    recover_loop (log_of ts @ ys) (length (log_of ts)) (foldl (\<lambda>v t. committed t v) v ts)"
proof (induction ts arbitrary: ys rule: rev_induct)
  case (snoc t ts)
  then show ?case
    using snoc.IH [of "txn_bytes (log_of ts) t @ ys"] recover_loop_txn [of t "log_of ts" ys] by simp
qed simp

section \<open>Truncated logs\<close>

text \<open>
  Recovery gives up on a transaction: what it has committed stays as it was, and it either
  still waits for a commit or has recorded a diagnostic.
\<close>

definition abandoned :: "RecoveryVars \<Rightarrow> RecoveryVars \<Rightarrow> bool" where
  "abandoned v v' \<longleftrightarrow> rr_committed (rv_result v') = rr_committed (rv_result v) \<and>
     rr_sequence (rv_result v') = rr_sequence (rv_result v) \<and> (rv_in_txn v' \<or> rr_diagnostics (rv_result v') \<noteq> [])"

lemma rv_result_diagnose [simp]:
  "rr_committed (rv_result (diagnose m v)) = rr_committed (rv_result v)"
  "rr_sequence (rv_result (diagnose m v)) = rr_sequence (rv_result v)"
  "rr_diagnostics (rv_result (diagnose m v)) = rr_diagnostics (rv_result v) @ [m]"
  "rv_in_txn (diagnose m v) = rv_in_txn v"
  by (simp_all add: diagnose_def)

lemma rv_result_started [simp]: "rv_result (started t v) = rv_result v" "rv_in_txn (started t v)"
  by (simp_all add: started_def)

lemma abandoned_simps [simp]:
  "abandoned v (diagnose m w) \<longleftrightarrow> rr_committed (rv_result w) = rr_committed (rv_result v) \<and>
     rr_sequence (rv_result w) = rr_sequence (rv_result v)"
  "rv_in_txn v \<Longrightarrow> abandoned v v" "abandoned (v\<lparr>rv_staged := rs\<rparr>) w = abandoned v w"
  "abandoned (started t v) w = abandoned v w"
  by (auto simp: abandoned_def)

lemma recover_loop_fails:
  "\<lbrakk>state_decode ys = Inl e; ys \<noteq> []\<rbrakk> \<Longrightarrow> recover_loop (pre @ ys) (length pre) v = diagnose (message e) v"
  by (subst recover_loop.simps) simp

lemma recover_loop_cut_record:
  assumes "state_fits r" "\<not> control_record r" "rv_in_txn v" "k < length (state_encode r)"
  shows "abandoned v (recover_loop (pre @ take k (state_encode r)) (length pre) v)"
proof (cases "k = 0")
  case False
  then have ne: "take k (state_encode r) \<noteq> []" by simp
  from state_decode_truncated [OF assms(1,4)] show ?thesis
  proof
    assume "\<exists>e. state_decode (take k (state_encode r)) = Inl e"
    then show ?thesis using recover_loop_fails [OF _ ne, of _ pre v] by auto
  next
    assume d: "state_decode (take k (state_encode r)) = Inr (r, k)"
    have "length pre + k = length (pre @ take k (state_encode r))" using assms(4) by simp
    then show ?thesis
      using assms ne d by (subst recover_loop.simps)
        (simp add: recover_record_def control_record_def abandoned_def del: length_append)
  qed
qed (use assms(3) in simp)

lemma recover_loop_cut_records:
  assumes "list_all (\<lambda>r. state_fits r \<and> \<not> control_record r) rs" "rv_in_txn v"
  shows "abandoned v (recover_loop (pre @ take k (records_bytes rs)) (length pre) v)"
  using assms
proof (induction rs arbitrary: pre v k)
  case (Cons r rs)
  show ?case
  proof (cases "k < length (state_encode r)")
    case True
    then show ?thesis using Cons.prems by (simp add: recover_loop_cut_record)
  next
    case False
    let ?v = "v\<lparr>rv_staged := rv_staged v @ [r]\<rparr>"
    have "recover_record pre (length pre) r v = Inr ?v"
      using Cons.prems by (simp add: recover_record_def control_record_def)
    then have "recover_loop (pre @ take k (records_bytes (r # rs))) (length pre) v =
        recover_loop ((pre @ state_encode r) @ take (k - length (state_encode r)) (records_bytes rs)) (length (pre @ state_encode r)) ?v"
      using False Cons.prems recover_loop_record [of r pre "take (k - length (state_encode r)) (records_bytes rs)" v] by simp
    then show ?thesis using Cons.IH [of ?v "pre @ state_encode r"] Cons.prems by simp
  qed
qed simp

lemma length_control [simp]:
  "length (state_encode (begin_record t)) = 48" "length (state_encode (commit_record bs t)) = 48"
  by (simp_all add: length_state_encode begin_record_def commit_record_def padding_none)

lemma control_cut:
  assumes "r = begin_record t \<or> r = commit_record bs t" "0 < k" "k < 48"
  shows "\<exists>e. recover_loop (pre @ take k (state_encode r)) (length pre) v = diagnose e v"
proof -
  have "\<exists>e. state_decode (take k (state_encode r)) = Inl e"
    using assms by (intro state_decode_short) (auto simp: begin_record_def commit_record_def state_fits_def)
  moreover have "take k (state_encode r) \<noteq> []" using assms by simp
  ultimately show ?thesis using recover_loop_fails by metis
qed

lemma recover_loop_cut_txn:
  assumes t: "txn_ok t" and k: "0 < k" "k < length (txn_bytes pre t)"
  shows "abandoned v (recover_loop (pre @ take k (txn_bytes pre t)) (length pre) v)"
proof -
  let ?B = "state_encode (begin_record t)" and ?R = "records_bytes (tx_records t)"
    and ?C = "state_encode (commit_record (pre @ open_bytes t) t)"
  have tx: "txn_bytes pre t = ?B @ ?R @ ?C" by (simp add: txn_bytes_def open_bytes_def)
  consider "k < 48" | "48 \<le> k" "k \<le> 48 + length ?R" | "48 + length ?R < k" by linarith
  then show ?thesis
  proof cases
    case 1
    then show ?thesis using k(1) control_cut [of "begin_record t" t _ k pre v] by (auto simp: tx)
  next
    case 2
    then have "take k (txn_bytes pre t) = ?B @ take (k - 48) ?R" by (simp add: tx)
    then show ?thesis
      using t recover_loop_record [of "begin_record t" pre "take (k - 48) ?R" v]
        recover_loop_cut_records [of "tx_records t" "started t v" "pre @ ?B" "k - 48"]
      by (simp add: recover_record_begin txn_ok_def)
  next
    case 3
    let ?j = "k - length (open_bytes t)" and ?w = "(started t v)\<lparr>rv_staged := tx_records t\<rparr>"
    have "take k (txn_bytes pre t) = open_bytes t @ take ?j ?C"
      using 3 by (simp add: txn_bytes_def open_bytes_def)
    moreover have "0 < ?j" "?j < 48" using 3 k(2) by (auto simp: tx open_bytes_def)
    then obtain e where "recover_loop ((pre @ open_bytes t) @ take ?j ?C) (length (pre @ open_bytes t)) ?w = diagnose e ?w"
      using control_cut [of _ t "pre @ open_bytes t"] by blast
    ultimately show ?thesis using recover_loop_open [OF t, of pre "take ?j ?C" v] by simp
  qed
qed

section \<open>What recovery returns\<close>

text \<open>The state a list of transactions leaves behind.\<close>

definition replayed :: "Txn list \<Rightarrow> RecoveryResult" where
  "replayed ts = \<lparr>rr_sequence = (if ts = [] then 0 else tx_new (last ts)),
     rr_committed = concat (map tx_records ts), rr_diagnostics = []\<rparr>"

abbreviation after :: "Txn list \<Rightarrow> RecoveryVars" where
  "after ts \<equiv> foldl (\<lambda>v t. committed t v) initial_vars ts"

lemma after_txns: "rv_result (after ts) = replayed ts \<and> \<not> rv_in_txn (after ts)"
  by (induction ts rule: rev_induct) (simp_all add: initial_vars_def replayed_def committed_def)

lemma recover_log_complete: "list_all txn_ok ts \<Longrightarrow> recover_log (log_of ts) = replayed ts"
  using recover_loop_log [of ts "[]" initial_vars] after_txns [of ts] by (simp add: recover_log_def)

text \<open>Recovery of a log that goes wrong behind the transactions \<open>ts\<close>.\<close>

definition stops_after :: "Txn list \<Rightarrow> RecoveryResult \<Rightarrow> bool" where
  "stops_after ts r \<longleftrightarrow> rr_sequence r = rr_sequence (replayed ts) \<and> rr_committed r = rr_committed (replayed ts) \<and>
     rr_diagnostics r \<noteq> []"

lemma recover_log_stops:
  assumes "list_all txn_ok ts" "abandoned (after ts) (recover_loop (log_of ts @ ys) (length (log_of ts)) (after ts))"
  shows "stops_after ts (recover_log (log_of ts @ ys))"
  using assms recover_loop_log [of ts ys initial_vars] after_txns [of ts]
  by (auto simp: recover_log_def Let_def abandoned_def stops_after_def)

lemma recover_log_torn:
  "\<lbrakk>list_all txn_ok ts; txn_ok t; 0 < k; k < length (txn_bytes (log_of ts) t)\<rbrakk>
    \<Longrightarrow> stops_after ts (recover_log (log_of ts @ take k (txn_bytes (log_of ts) t)))"
  by (simp add: recover_log_stops recover_loop_cut_txn)

section \<open>Corrupted logs\<close>

lemma control_corrupt:
  assumes "r = begin_record t \<or> r = commit_record bs t" "i < 48" "b \<noteq> state_encode r ! i"
  shows "\<exists>e. recover_loop (pre @ (state_encode r)[i := b] @ ys) (length pre) v = diagnose e v"
proof -
  have "\<exists>e. state_decode ((state_encode r)[i := b] @ ys) = Inl e"
    using assms state_decode_corrupt [of r i b ys] by (auto simp: begin_record_def commit_record_def state_fits_def length_state_encode)
  moreover have "(state_encode r)[i := b] @ ys \<noteq> []" by simp
  ultimately show ?thesis using recover_loop_fails by metis
qed

text \<open>A changed byte among the data records either ends the loop or is in some padding.\<close>

lemma recover_loop_corrupt_records:
  assumes "list_all (\<lambda>r. state_fits r \<and> \<not> control_record r) rs" "rv_in_txn v"
    "i < length (records_bytes rs)" "b \<noteq> records_bytes rs ! i" and "L = pre @ (records_bytes rs)[i := b] @ ys"
  shows "(\<exists>e w. recover_loop L (length pre) v = diagnose e w \<and> rv_result w = rv_result v) \<or>
    recover_loop L (length pre) v = recover_loop L (length (pre @ records_bytes rs)) (v\<lparr>rv_staged := rv_staged v @ rs\<rparr>)"
  using assms
proof (induction rs arbitrary: pre v i)
  case (Cons r rs)
  let ?v = "v\<lparr>rv_staged := rv_staged v @ [r]\<rparr>" and ?n = "length (state_encode r)"
  have rr: "recover_record bs n r v = Inr ?v" for bs n
    using Cons.prems by (simp add: recover_record_def control_record_def)
  have fits: "state_fits r" using Cons.prems(1) by simp
  show ?case
  proof (cases "i < ?n")
    case True
    let ?t = "(state_encode r)[i := b] @ records_bytes rs @ ys"
    have L: "L = pre @ ?t" using True Cons.prems(5) by (simp add: list_update_append)
    have d: "(\<exists>e. state_decode ?t = Inl e) \<or> state_decode ?t = Inr (r, ?n)"
      using state_decode_corrupt [OF fits True, of b "records_bytes rs @ ys"] Cons.prems(4) True
      by (auto simp: nth_append split: if_splits)
    have ne: "?t \<noteq> []" by simp
    from d show ?thesis
    proof
      assume "\<exists>e. state_decode ?t = Inl e"
      then show ?thesis using recover_loop_fails [OF _ ne, of _ pre v] by (auto simp: L)
    next
      assume "state_decode ?t = Inr (r, ?n)"
      then have "recover_loop L (length pre) v = recover_loop L (length (pre @ (state_encode r)[i := b])) ?v"
        by (subst recover_loop.simps) (simp add: L rr)
      also have "\<dots> = recover_loop L (length (pre @ records_bytes (r # rs))) (v\<lparr>rv_staged := rv_staged v @ r # rs\<rparr>)"
        using recover_loop_staging [of rs ?v "pre @ (state_encode r)[i := b]" ys] Cons.prems(1,2) by (simp add: L)
      finally show ?thesis by blast
    qed
  next
    case False
    have L: "L = (pre @ state_encode r) @ (records_bytes rs)[i - ?n := b] @ ys"
      using False Cons.prems(5) by (simp add: list_update_append)
    have "recover_loop L (length pre) v = recover_loop L (length (pre @ state_encode r)) ?v"
      using recover_loop_record [OF fits, of pre "(records_bytes rs)[i - ?n := b] @ ys" v] by (simp add: L rr)
    moreover have "i - ?n < length (records_bytes rs)" "b \<noteq> records_bytes rs ! (i - ?n)"
      using False Cons.prems(3,4) by (simp_all add: nth_append)
    ultimately show ?thesis
      using Cons.IH [of ?v "i - ?n" "pre @ state_encode r"] Cons.prems(1,2) L by simp
  qed
qed simp

text \<open>The digest of a commit record covers the whole log before it, so it no longer matches.\<close>

definition skipped :: "Txn \<Rightarrow> RecoveryVars \<Rightarrow> RecoveryVars" where
  "skipped t v = (diagnose ''ignored transaction with commit digest mismatch'' ((started t v)\<lparr>rv_staged := tx_records t\<rparr>))
     \<lparr>rv_in_txn := False, rv_staged := []\<rparr>"

lemma abandoned_skipped [simp]: "abandoned v (skipped t v)" "abandoned (skipped t v) w \<Longrightarrow> abandoned v w"
  by (simp_all add: abandoned_def skipped_def)

lemma recover_loop_bad_commit:
  assumes "txn_ok t" "length bad = length bs" "crc32c bad \<noteq> crc32c bs" and "L = bad @ state_encode (commit_record bs t) @ ys"
  shows "recover_loop L (length bs) ((started t v)\<lparr>rv_staged := tx_records t\<rparr>) =
    recover_loop L (length (bs @ state_encode (commit_record bs t))) (skipped t v)"
  using recover_loop_record [of "commit_record bs t" bad ys] assms
  by (simp add: recover_record_commit [OF assms(1) refl] skipped_def)

primrec txns_bytes :: "Bytes \<Rightarrow> Txn list \<Rightarrow> Bytes" where
  "txns_bytes pre [] = []"
| "txns_bytes pre (t # ts) = txn_bytes pre t @ txns_bytes (pre @ txn_bytes pre t) ts"

lemma log_of_append: "log_of (ts @ us) = log_of ts @ txns_bytes (log_of ts) us"
proof (induction us arbitrary: ts)
  case (Cons u us)
  then show ?case using Cons.IH [of "ts @ [u]"] by simp
qed simp

lemma crc_changed:
  assumes "i < length pre" "b \<noteq> pre ! i"
  shows "crc32c (pre[i := b] @ xs) \<noteq> crc32c (pre @ xs)"
  using assms crc32c_one_byte [of i "pre @ xs" b] by (auto simp: list_update_append nth_append)

lemma recover_loop_bad_log:
  assumes "list_all txn_ok ts" "i < length pre" "b \<noteq> pre ! i" "abandoned u v"
  shows "abandoned u (recover_loop (pre[i := b] @ txns_bytes pre ts) (length pre) v)"
  using assms
proof (induction ts arbitrary: pre v)
  case Nil
  then show ?case using recover_loop_end [of "pre[i := b]" v] by simp
next
  case (Cons t ts)
  let ?C = "state_encode (commit_record (pre @ open_bytes t) t)" and ?ys = "txns_bytes (pre @ txn_bytes pre t) ts"
  let ?L = "pre[i := b] @ txns_bytes pre (t # ts)"
  have "recover_loop ?L (length pre) v =
      recover_loop ?L (length (pre @ open_bytes t)) ((started t v)\<lparr>rv_staged := tx_records t\<rparr>)"
    using recover_loop_open [of t "pre[i := b]" "?C @ ?ys" v] Cons.prems(1) by (simp add: txn_bytes_def)
  also have "\<dots> = recover_loop ?L (length (pre @ txn_bytes pre t)) (skipped t v)"
    using recover_loop_bad_commit [of t "pre[i := b] @ open_bytes t" "pre @ open_bytes t" ?L ?ys v]
      crc_changed [OF Cons.prems(2,3)] Cons.prems(1) by (simp add: txn_bytes_def)
  also have "abandoned u \<dots>"
    using Cons.IH [of "pre @ txn_bytes pre t" "skipped t v"] Cons.prems
    by (simp add: list_update_append nth_append abandoned_def skipped_def)
  finally show ?case .
qed

lemma recover_loop_corrupt_body:
  assumes t: "txn_ok t" and i: "48 \<le> i" "i < 48 + length (records_bytes (tx_records t))" and b: "b \<noteq> txn_bytes pre t ! i"
    and ts: "list_all txn_ok ts" and L: "L = pre @ (txn_bytes pre t)[i := b] @ txns_bytes (pre @ txn_bytes pre t) ts"
  shows "abandoned v (recover_loop L (length pre) v)"
proof -
  let ?B = "state_encode (begin_record t)" and ?R = "records_bytes (tx_records t)" and ?bs = "pre @ open_bytes t"
  let ?C = "state_encode (commit_record ?bs t)" and ?ys = "txns_bytes (pre @ txn_bytes pre t) ts"
    and ?w = "(started t v)\<lparr>rv_staged := tx_records t\<rparr>"
  have tx: "txn_bytes pre t = ?B @ ?R @ ?C" and op: "open_bytes t = ?B @ ?R"
    by (simp_all add: txn_bytes_def open_bytes_def)
  let ?bad = "pre @ ?B @ ?R[i - 48 := b]" and ?pos = "length pre + i"
  have lt: "i - 48 < length ?R" using i by linarith
  have L': "L = ?bad @ ?C @ ?ys" using i lt L by (simp add: tx list_update_append)
  have b': "b \<noteq> ?R ! (i - 48)" "b \<noteq> ?bs ! ?pos" "?pos < length ?bs" "?bad = ?bs[?pos := b]"
    using i lt b by (simp_all add: tx op nth_append list_update_append)
  have "recover_loop L (length pre) v = recover_loop L (length (pre @ ?B)) (started t v)"
    using recover_loop_record [of "begin_record t" pre "?R[i - 48 := b] @ ?C @ ?ys" v]
    by (simp add: L' recover_record_begin)
  moreover have "(\<exists>e w. recover_loop L (length (pre @ ?B)) (started t v) = diagnose e w \<and> rv_result w = rv_result (started t v)) \<or>
      recover_loop L (length (pre @ ?B)) (started t v) = recover_loop L (length ((pre @ ?B) @ ?R)) ?w"
    using i t b'(1) recover_loop_corrupt_records [of "tx_records t" "started t v" "i - 48" b L "pre @ ?B" "?C @ ?ys"]
    by (simp add: L' txn_ok_def started_def del: length_append)
  moreover have "recover_loop L (length ?bs) ?w = recover_loop L (length (?bs @ ?C)) (skipped t v)"
    using recover_loop_bad_commit [OF t, of ?bad ?bs L ?ys v] crc_changed [OF b'(3,2), of "[]"] L' b'(4)
    by (simp add: op)
  moreover have "abandoned v (recover_loop L (length (?bs @ ?C)) (skipped t v))"
    using recover_loop_bad_log [OF ts, of ?pos "?bs @ ?C" b v "skipped t v"] b' L'
    by (simp add: txn_bytes_def nth_append list_update_append)
  ultimately show ?thesis by (auto simp: op)
qed

lemma recover_loop_corrupt_txn:
  assumes t: "txn_ok t" and i: "i < length (txn_bytes pre t)" and b: "b \<noteq> txn_bytes pre t ! i"
    and ts: "list_all txn_ok ts" and L: "L = pre @ (txn_bytes pre t)[i := b] @ txns_bytes (pre @ txn_bytes pre t) ts"
  shows "abandoned v (recover_loop L (length pre) v)"
proof -
  let ?B = "state_encode (begin_record t)" and ?R = "records_bytes (tx_records t)" and ?bs = "pre @ open_bytes t"
  let ?C = "state_encode (commit_record ?bs t)" and ?ys = "txns_bytes (pre @ txn_bytes pre t) ts"
    and ?w = "(started t v)\<lparr>rv_staged := tx_records t\<rparr>"
  have tx: "txn_bytes pre t = ?B @ ?R @ ?C" and op: "open_bytes t = ?B @ ?R"
    by (simp_all add: txn_bytes_def open_bytes_def)
  consider "i < 48" | "48 \<le> i" "i < 48 + length ?R" | "48 + length ?R \<le> i" by linarith
  then show ?thesis
  proof cases
    case 1
    then show ?thesis
      using b control_corrupt [of "begin_record t" t _ i b pre "?R @ ?C @ ?ys" v]
      by (auto simp: L tx list_update_append nth_append)
  next
    case 2
    then show ?thesis using recover_loop_corrupt_body [OF t _ _ b ts L] by simp
  next
    case 3
    let ?j = "i - length (open_bytes t)"
    have "length (open_bytes t) \<le> i" using 3 by (simp add: op)
    then have j: "?j < 48" "b \<noteq> ?C ! ?j" "L = ?bs @ ?C[?j := b] @ ?ys"
      using i b by (auto simp: L txn_bytes_def nth_append list_update_append)
    then obtain e where "recover_loop L (length ?bs) ?w = diagnose e ?w"
      using control_corrupt [of _ t ?bs] by metis
    then show ?thesis using recover_loop_open [OF t, of pre "?C[?j := b] @ ?ys" v] j(3) by simp
  qed
qed

lemma log_split:
  assumes "n < length ts"
  shows "log_of ts = log_of (take n ts) @ txn_bytes (log_of (take n ts)) (ts ! n) @
      txns_bytes (log_of (take (Suc n) ts)) (drop (Suc n) ts)"
    and "log_of (take (Suc n) ts) = log_of (take n ts) @ txn_bytes (log_of (take n ts)) (ts ! n)"
proof -
  show *: "log_of (take (Suc n) ts) = log_of (take n ts) @ txn_bytes (log_of (take n ts)) (ts ! n)"
    using assms by (simp add: take_Suc_conv_app_nth)
  show "log_of ts = log_of (take n ts) @ txn_bytes (log_of (take n ts)) (ts ! n) @
      txns_bytes (log_of (take (Suc n) ts)) (drop (Suc n) ts)"
    using log_of_append [of "take (Suc n) ts" "drop (Suc n) ts"] by (simp add: *)
qed

lemma list_all_parts:
  assumes "list_all P xs"
  shows "list_all P (take n xs)" "list_all P (drop n xs)" "n < length xs \<Longrightarrow> P (xs ! n)"
  using assms by (auto simp: list_all_iff dest: in_set_takeD in_set_dropD)

lemma replayed_take:
  assumes "n < length ts"
  shows "replayed (take n ts) = \<lparr>rr_sequence = (if n = 0 then 0 else tx_new (ts ! (n - 1))),
    rr_committed = concat (map tx_records (take n ts)), rr_diagnostics = []\<rparr>"
  using assms by (cases n) (auto simp: replayed_def take_Suc_conv_app_nth)

section \<open>Properties\<close>

text \<open>
  C9. Recovery of a complete log returns exactly what its transactions committed: all their
  records in order, the sequence number of the last one and no diagnostic.
\<close>

theorem log_replays_transactions:
  assumes "list_all txn_ok ts"
  shows "recover_log (log_of ts) =
    \<lparr>rr_sequence = (if ts = [] then 0 else tx_new (last ts)), rr_committed = concat (map tx_records ts), rr_diagnostics = []\<rparr>"
  using recover_log_complete [OF assms] by (simp add: replayed_def)

definition sample_txns :: "Txn list" where
  "sample_txns =
     [\<lparr>tx_id = 1, tx_base = 0, tx_new = 5, tx_records =
        [\<lparr>sr_type = srt_graph_delta, sr_txn_id = 1, sr_base_sequence = 0, sr_new_sequence = 5, sr_payload = [1, 2, 3]\<rparr>]\<rparr>,
      \<lparr>tx_id = 2, tx_base = 5, tx_new = 6, tx_records =
        [\<lparr>sr_type = srt_job_delta, sr_txn_id = 2, sr_base_sequence = 5, sr_new_sequence = 6, sr_payload = []\<rparr>]\<rparr>]"

lemma sample_txns_ok: "list_all txn_ok sample_txns" "length sample_txns = 2"
  by (simp_all add: sample_txns_def txn_ok_def control_record_def state_fits_def)

lemma sample_log_lengths:
  "length (log_of (take 0 sample_txns)) = 0" "length (log_of (take 1 sample_txns)) = 144"
  "length (log_of (take 2 sample_txns)) = 280"
  by (simp_all add: sample_txns_def log_of_def log_txn_eq txn_bytes_def open_bytes_def length_state_encode padding_def
      begin_record_def commit_record_def
      numeral_2_eq_2)

theorem log_replays_transactions_witness:
  "rr_sequence (recover_log (log_of sample_txns)) = 6 \<and> length (rr_committed (recover_log (log_of sample_txns))) = 2"
  using log_replays_transactions [OF sample_txns_ok(1)] by (simp add: sample_txns_def)

text \<open>
  C7. Crash atomicity: when the log is cut at any byte inside transaction \<open>n\<close>, recovery
  returns exactly the state of the transactions before it, and it reports a diagnostic unless
  the cut is at the boundary.
\<close>

theorem torn_log_recovers_prefix:
  assumes "list_all txn_ok ts" "n < length ts"
    and "length (log_of (take n ts)) \<le> k" "k < length (log_of (take (Suc n) ts))"
    and "r = recover_log (take k (log_of ts))"
  shows "rr_committed r = concat (map tx_records (take n ts)) \<and>
    rr_sequence r = (if n = 0 then 0 else tx_new (ts ! (n - 1))) \<and>
    (rr_diagnostics r = [] \<longleftrightarrow> k = length (log_of (take n ts)))"
proof -
  let ?us = "take n ts" and ?t = "ts ! n" and ?j = "k - length (log_of (take n ts))"
  have cut: "take k (log_of ts) = log_of ?us @ take ?j (txn_bytes (log_of ?us) ?t)"
    using assms(3,4) unfolding log_split(1) [OF assms(2)] log_split(2) [OF assms(2)] by simp
  have "if ?j = 0 then r = replayed ?us else stops_after ?us r"
    using assms(2,4) recover_log_complete [of ?us] recover_log_torn [of ?us ?t ?j] list_all_parts [OF assms(1), of n]
    unfolding assms(5) cut log_split(2) [OF assms(2)] by auto
  then show ?thesis
    using assms(3) by (auto simp: replayed_take [OF assms(2)] stops_after_def split: if_splits)
qed

theorem torn_log_recovers_prefix_witness:
  "rr_sequence (recover_log (take 200 (log_of sample_txns))) = 5 \<and>
   rr_diagnostics (recover_log (take 200 (log_of sample_txns))) \<noteq> []"
  using torn_log_recovers_prefix [OF sample_txns_ok(1), of 1 200, OF _ _ _ refl] sample_txns_ok(2) sample_log_lengths
  by (simp add: sample_txns_def numeral_2_eq_2)

text \<open>
  C8. A changed byte anywhere in a log, padding included, loses the transaction it is in and
  those behind it and nothing else: recovery returns exactly the state of the transactions
  before it and reports a diagnostic.
\<close>

theorem corrupt_log_recovers_prefix:
  assumes "list_all txn_ok ts" "n < length ts"
    and "length (log_of (take n ts)) \<le> i" "i < length (log_of (take (Suc n) ts))" "b \<noteq> log_of ts ! i"
    and "r = recover_log ((log_of ts)[i := b])"
  shows "rr_committed r = concat (map tx_records (take n ts)) \<and>
    rr_sequence r = (if n = 0 then 0 else tx_new (ts ! (n - 1))) \<and> rr_diagnostics r \<noteq> []"
proof -
  let ?us = "take n ts" and ?t = "ts ! n" and ?j = "i - length (log_of (take n ts))"
  let ?tb = "txn_bytes (log_of ?us) ?t" and ?rest = "txns_bytes (log_of (take (Suc n) ts)) (drop (Suc n) ts)"
  have j: "?j < length ?tb" using assms(3,4) by (simp add: log_split(2) [OF assms(2)])
  then have L: "(log_of ts)[i := b] = log_of ?us @ ?tb[?j := b] @ ?rest" "b \<noteq> ?tb ! ?j"
    using assms(3,5) unfolding log_split(1) [OF assms(2)] by (simp_all add: list_update_append nth_append)
  have "abandoned (after ?us) (recover_loop ((log_of ts)[i := b]) (length (log_of ?us)) (after ?us))"
    using L list_all_parts [OF assms(1)] assms(2) j
    by (intro recover_loop_corrupt_txn [of ?t ?j]) (simp_all add: log_split(2))
  then have "stops_after ?us r"
    unfolding assms(6) L(1) by (intro recover_log_stops list_all_parts [OF assms(1)])
  then show ?thesis by (simp add: replayed_take [OF assms(2)] stops_after_def)
qed

theorem corrupt_log_recovers_prefix_witness:
  "rr_sequence (recover_log ((log_of sample_txns)[150 := 7])) = 5 \<and>
   rr_diagnostics (recover_log ((log_of sample_txns)[150 := 7])) \<noteq> []"
proof -
  have "log_of sample_txns ! 150 = state_header (begin_record (sample_txns ! 1)) ! 6"
    using sample_txns_ok(2) sample_log_lengths(2) unfolding log_split(1) [of 1 sample_txns, simplified sample_txns_ok(2), simplified]
    by (simp add: nth_append txn_bytes_def open_bytes_def state_encode_eq envelope_def)
  also have "\<dots> = 0" by (simp add: state_header_def nth_append le16_eq upt_rec)
  finally have "7 \<noteq> log_of sample_txns ! 150" by simp
  then show ?thesis
    using corrupt_log_recovers_prefix [OF sample_txns_ok(1), of 1 150 7, OF _ _ _ _ refl] sample_txns_ok(2) sample_log_lengths
    by (simp add: sample_txns_def numeral_2_eq_2)
qed

end
