(* ===== verification/Forge_Store.thy ===== *)
theory Forge_Store
  imports Forge_Recovery
begin

text \<open>
  The file state store (\<^verbatim>\<open>src/state/file_state_store.cpp\<close>). The state directory is a map from file
  names to contents; the outcome of every file system call that can fail is an argument of the
  operation that makes it, and a failed write leaves a prefix of its bytes. The lemmas show that
  the store refines a list of records: an append that succeeds adds its records, one that fails at
  any point, or is cut off by a crash, leaves the recovered state as it was, and the next append
  repairs the log. The exception is a rename that fails twice, which loses the file it was to replace.
\<close>

section \<open>Definitions\<close>

type_synonym StoreFiles = "(string, Bytes) std_map"

definition kCompactionTxnId :: u64 where
  "kCompactionTxnId = 0xC0FFEE"

definition store_error :: "ErrorCode \<Rightarrow> string \<Rightarrow> Status" where
  "store_error c msg = error c ''file-state-store'' msg"

definition log_path :: string where
  "log_path = ''state.log''"

definition checkpoint_path :: string where
  "checkpoint_path = ''checkpoint.fst''"

definition temp_path :: "string \<Rightarrow> string" where
  "temp_path name = name @ ''.tmp''"

text \<open>The loop that both writers of transactions share; a reserved record type ends it.\<close>

fun append_records :: "Bytes \<Rightarrow> u64 \<Rightarrow> StateRecord list \<Rightarrow> Bytes Result" where
  "append_records log txn [] = Inr log"
| "append_records log txn (r # records) =
     (if sr_type r = srt_txn_begin \<or> sr_type r = srt_txn_commit
      then Inl (store_error ec_state_recovery ''transaction control records are reserved'')
      else append_records (log_append log (r\<lparr>sr_txn_id := txn\<rparr>)) txn records)"

definition write_transaction :: "AppendLog \<Rightarrow> u64 \<Rightarrow> u64 \<Rightarrow> u64 \<Rightarrow> StateRecord list \<Rightarrow> AppendLog Result" where
  "write_transaction log txn base new records =
     (case append_records (log_begin log txn base (of_nat (length records))) txn records of
        Inl e \<Rightarrow> Inl e
      | Inr log' \<Rightarrow> Inr (log_commit log' txn new))"

definition encode_transaction :: "u64 \<Rightarrow> u64 \<Rightarrow> u64 \<Rightarrow> StateRecord list \<Rightarrow> Bytes Result" where
  "encode_transaction txn base new records = write_transaction [] txn base new records"

text \<open>
  Reading a file. A failed \<open>exists\<close> returns false, so the file counts as empty and the check of
  the error code behind it is not reached.
\<close>

datatype read_fault = rd_ok | rd_stat_fails | rd_open_fails | rd_read_fails

definition read_file :: "read_fault \<Rightarrow> StoreFiles \<Rightarrow> string \<Rightarrow> Bytes Result" where
  "read_file fault files path =
     (if fault = rd_stat_fails then Inr []
      else
        case sm_find files path of
          None \<Rightarrow> Inr []
        | Some bytes \<Rightarrow>
            if fault = rd_open_fails then Inl (store_error ec_io ''unable to open state file'')
            else if fault = rd_read_fails then Inl (store_error ec_io ''unable to read state file'')
            else Inr bytes)"

text \<open>
  The calls of \<open>replace_file\<close> that fail. When the first rename fails, the old file is removed and the
  rename is tried again; both calls of \<open>remove\<close> throw when they fail.
\<close>

datatype replace_fault =
    rp_ok | rp_mkdir_fails | rp_open_fails | rp_write_fails nat | rp_rename_fails_once
  | rp_remove_throws | rp_rename_fails | rp_cleanup_throws

definition replace_file :: "replace_fault \<Rightarrow> StoreFiles \<Rightarrow> string \<Rightarrow> Bytes \<Rightarrow> StoreFiles \<times> unit Result" where
  "replace_file fault files path bytes =
     (let temp = temp_path path
      in case fault of
           rp_mkdir_fails \<Rightarrow> (files, Inl (store_error ec_io ''unable to create state directory''))
         | rp_open_fails \<Rightarrow> (files, Inl (store_error ec_io ''unable to open temporary state file''))
         | rp_write_fails n \<Rightarrow> (sm_put temp (take n bytes) files, Inl (store_error ec_io ''unable to write temporary state file''))
         | rp_ok \<Rightarrow> (sm_put path bytes (sm_erase temp (sm_put temp bytes files)), Inr ())
         | rp_rename_fails_once \<Rightarrow>
             (sm_put path bytes (sm_erase temp (sm_erase path (sm_put temp bytes files))), Inr ())
         | rp_remove_throws \<Rightarrow> (sm_put temp bytes files, Inl filesystem_exception)
         | rp_cleanup_throws \<Rightarrow> (sm_erase path (sm_put temp bytes files), Inl filesystem_exception)
         | rp_rename_fails \<Rightarrow>
             (sm_erase temp (sm_erase path (sm_put temp bytes files)), Inl (store_error ec_io ''unable to publish state file'')))"

datatype append_fault = ap_ok | ap_mkdir_fails | ap_open_fails | ap_write_fails nat

definition file_bytes :: "StoreFiles \<Rightarrow> string \<Rightarrow> Bytes" where
  "file_bytes files path = (case sm_find files path of None \<Rightarrow> [] | Some bytes \<Rightarrow> bytes)"

definition append_file :: "append_fault \<Rightarrow> StoreFiles \<Rightarrow> string \<Rightarrow> Bytes \<Rightarrow> StoreFiles \<times> unit Result" where
  "append_file fault files path bytes =
     (case fault of
        ap_mkdir_fails \<Rightarrow> (files, Inl (store_error ec_io ''unable to create state directory''))
      | ap_open_fails \<Rightarrow> (files, Inl (store_error ec_io ''unable to open append log''))
      | ap_write_fails n \<Rightarrow>
          (sm_put path (file_bytes files path @ take n bytes) files, Inl (store_error ec_io ''unable to append state transaction''))
      | ap_ok \<Rightarrow> (sm_put path (file_bytes files path @ bytes) files, Inr ()))"

definition clean_log_bytes :: "Bytes \<Rightarrow> Bytes Result" where
  "clean_log_bytes bytes =
     (if bytes = [] then Inr []
      else
        let recovered = recover_log bytes
        in if rr_diagnostics recovered = [] then Inr bytes
           else if rr_committed recovered = [] then Inr []
           else encode_transaction kCompactionTxnId 0 (rr_sequence recovered) (rr_committed recovered))"

text \<open>The calls of one \<open>append_transaction\<close> that fail.\<close>

record append_faults =
  af_read :: read_fault
  af_replace :: replace_fault
  af_append :: append_fault

definition append_transaction ::
    "append_faults \<Rightarrow> StoreFiles \<Rightarrow> u64 \<Rightarrow> u64 \<Rightarrow> u64 \<Rightarrow> StateRecord list \<Rightarrow> StoreFiles \<times> unit Result" where
  "append_transaction faults files txn base new records =
     (case read_file (af_read faults) files log_path of
        Inl e \<Rightarrow> (files, Inl e)
      | Inr existing \<Rightarrow>
          (case clean_log_bytes existing of
             Inl e \<Rightarrow> (files, Inl e)
           | Inr clean \<Rightarrow>
               (case (if length clean \<noteq> length existing then replace_file (af_replace faults) files log_path clean else (files, Inr ())) of
                  (files, Inl e) \<Rightarrow> (files, Inl e)
                | (files, Inr _) \<Rightarrow>
                    (case write_transaction clean txn base new records of
                       Inl e \<Rightarrow> (files, Inl e)
                     | Inr bytes \<Rightarrow> append_file (af_append faults) files log_path (drop (length clean) bytes)))))"

definition checkpoint_record :: "Bytes \<Rightarrow> StateRecord" where
  "checkpoint_record payload = \<lparr>sr_type = srt_checkpoint, sr_txn_id = 0, sr_base_sequence = 0, sr_new_sequence = 0, sr_payload = payload\<rparr>"

definition checkpoint :: "replace_fault \<Rightarrow> replace_fault \<Rightarrow> StoreFiles \<Rightarrow> u64 \<Rightarrow> Bytes \<Rightarrow> StoreFiles \<times> unit Result" where
  "checkpoint fault1 fault2 files sequence payload =
     (case encode_transaction kCompactionTxnId 0 sequence [checkpoint_record payload] of
        Inl e \<Rightarrow> (files, Inl e)
      | Inr encoded \<Rightarrow>
          (case replace_file fault1 files checkpoint_path encoded of
             (files, Inl e) \<Rightarrow> (files, Inl e)
           | (files, Inr _) \<Rightarrow> replace_file fault2 files log_path []))"

definition merge_recovery :: "RecoveryResult \<Rightarrow> RecoveryResult \<Rightarrow> RecoveryResult" where
  "merge_recovery result log =
     \<lparr>rr_sequence = (if rr_committed log \<noteq> [] then rr_sequence log else rr_sequence result),
      rr_committed = rr_committed result @ rr_committed log, rr_diagnostics = rr_diagnostics result @ rr_diagnostics log\<rparr>"

definition empty_recovery :: RecoveryResult where
  "empty_recovery = \<lparr>rr_sequence = 0, rr_committed = [], rr_diagnostics = []\<rparr>"

definition recover :: "read_fault \<Rightarrow> read_fault \<Rightarrow> StoreFiles \<Rightarrow> RecoveryResult Result" where
  "recover fault1 fault2 files =
     (case read_file fault1 files checkpoint_path of
        Inl e \<Rightarrow> Inl e
      | Inr checkpoint_bytes \<Rightarrow>
          let result = (if checkpoint_bytes \<noteq> [] then recover_log checkpoint_bytes else empty_recovery)
          in case read_file fault2 files log_path of
               Inl e \<Rightarrow> Inl e
             | Inr log_bytes \<Rightarrow>
                 Inr (if log_bytes \<noteq> [] then merge_recovery result (recover_log log_bytes) else result))"

section \<open>The bytes of a transaction\<close>

definition owned :: "u64 \<Rightarrow> StateRecord list \<Rightarrow> StateRecord list" where
  "owned txn records = map (\<lambda>r. r\<lparr>sr_txn_id := txn\<rparr>) records"

lemma append_records_eq:
  "append_records log txn records =
    (if list_ex control_record records then Inl (store_error ec_state_recovery ''transaction control records are reserved'')
     else Inr (foldl log_append log (owned txn records)))"
  by (induction records arbitrary: log) (auto simp: owned_def control_record_def)

lemma write_transaction_eq:
  "write_transaction log txn base new records =
    (if list_ex control_record records then Inl (store_error ec_state_recovery ''transaction control records are reserved'')
     else Inr (log_txn log \<lparr>tx_id = txn, tx_base = base, tx_new = new, tx_records = owned txn records\<rparr>))"
  by (simp add: write_transaction_def append_records_eq log_txn_def) (simp add: owned_def)

text \<open>Records are the same state up to the transaction they were written in.\<close>

definition strip :: "StateRecord \<Rightarrow> StateRecord" where
  "strip r = r\<lparr>sr_txn_id := 0\<rparr>"

lemma strip_owned [simp]: "map strip (owned txn records) = map strip records"
  by (simp add: owned_def strip_def)

definition record_ok :: "StateRecord \<Rightarrow> bool" where
  "record_ok r \<longleftrightarrow> state_fits r \<and> \<not> control_record r"

lemma txn_ok_iff: "txn_ok t \<longleftrightarrow> list_all record_ok (tx_records t) \<and> length (tx_records t) < 2 ^ 64"
  by (simp add: txn_ok_def record_ok_def list_all_iff)

lemma record_ok_owned [simp]: "list_all record_ok (owned txn records) \<longleftrightarrow> list_all record_ok records"
  by (simp add: owned_def list_all_iff record_ok_def state_fits_def control_record_def)

lemma length_owned [simp]: "length (owned txn records) = length records"
  by (simp add: owned_def)

lemma owned_Nil [simp]: "owned txn records = [] \<longleftrightarrow> records = []"
  by (simp add: owned_def)

section \<open>Logs on disk\<close>

text \<open>
  The log file of a store: complete transactions, possibly without a record, followed by nothing or by
  a strict prefix of one more.
\<close>

abbreviation records_of :: "Txn list \<Rightarrow> StateRecord list" where
  "records_of ts \<equiv> concat (map tx_records ts)"

definition log_state :: "Bytes \<Rightarrow> Txn list \<Rightarrow> bool" where
  "log_state L ts \<longleftrightarrow> list_all txn_ok ts \<and>
     (L = log_of ts \<or> (\<exists>t k. txn_ok t \<and> 0 < k \<and> k < length (txn_bytes (log_of ts) t) \<and> L = log_of ts @ take k (txn_bytes (log_of ts) t)))"

definition last_sequence :: "Txn list \<Rightarrow> u64" where
  "last_sequence ts = (if ts = [] then 0 else tx_new (last ts))"

lemma log_state_recover:
  assumes "log_state L ts"
  shows "rr_committed (recover_log L) = records_of ts" "rr_sequence (recover_log L) = last_sequence ts"
    "rr_diagnostics (recover_log L) = [] \<longleftrightarrow> L = log_of ts"
proof -
  have ok: "list_all txn_ok ts" using assms by (simp add: log_state_def)
  have "(L = log_of ts \<and> recover_log L = replayed ts) \<or> (L \<noteq> log_of ts \<and> stops_after ts (recover_log L))"
    using assms recover_log_complete [OF ok] recover_log_torn [OF ok] by (auto simp: log_state_def)
  then show "rr_committed (recover_log L) = records_of ts" "rr_sequence (recover_log L) = last_sequence ts"
    "rr_diagnostics (recover_log L) = [] \<longleftrightarrow> L = log_of ts"
    by (auto simp: replayed_def stops_after_def last_sequence_def)
qed

lemma length_txn_bytes: "length (txn_bytes pre t) = 96 + length (records_bytes (tx_records t))"
  by (simp add: txn_bytes_def open_bytes_def)

lemma length_records_owned [simp]: "length (records_bytes (owned txn rs)) = length (records_bytes rs)"
  by (induction rs) (simp_all add: owned_def length_state_encode)

lemma length_log_of: "length (log_of ts) = 96 * length ts + length (records_bytes (records_of ts))"
  by (induction ts rule: rev_induct) (simp_all add: length_txn_bytes)

text \<open>Compaction keeps the records and the sequence, and makes a damaged log shorter.\<close>

definition compact :: "Txn list \<Rightarrow> Txn list" where
  "compact ts = (if records_of ts = [] then [] else
     [\<lparr>tx_id = kCompactionTxnId, tx_base = 0, tx_new = last_sequence ts, tx_records = owned kCompactionTxnId (records_of ts)\<rparr>])"

lemma compact_props:
  assumes "list_all txn_ok ts" "length (records_of ts) < 2 ^ 64"
  shows "list_all txn_ok (compact ts)" "map strip (records_of (compact ts)) = map strip (records_of ts)"
    "records_of ts \<noteq> [] \<Longrightarrow> last_sequence (compact ts) = last_sequence ts" "length (log_of (compact ts)) \<le> length (log_of ts)"
proof -
  have "list_all record_ok (records_of ts)" using assms(1) by (auto simp: txn_ok_iff list_all_iff)
  then show "list_all txn_ok (compact ts)" using assms(2) by (simp add: compact_def txn_ok_iff)
  show "length (log_of (compact ts)) \<le> length (log_of ts)"
    by (cases ts) (simp_all add: length_log_of compact_def)
qed (auto simp: compact_def last_sequence_def)

lemma clean_log_state:
  assumes "log_state L ts" "length (records_of ts) < 2 ^ 64"
  shows "clean_log_bytes L = Inr (log_of (if L = log_of ts then ts else compact ts))"
    "L \<noteq> log_of ts \<Longrightarrow> length (log_of (compact ts)) < length L"
proof -
  have wf: "list_all txn_ok ts" using assms(1) by (simp add: log_state_def)
  have "\<not> list_ex control_record (records_of ts)" using wf by (auto simp: txn_ok_def list_all_iff list_ex_iff)
  moreover have "rr_diagnostics (recover_log []) = []" using recover_log_complete [of "[]"] by (simp add: replayed_def)
  ultimately show "clean_log_bytes L = Inr (log_of (if L = log_of ts then ts else compact ts))"
    using log_state_recover [OF assms(1)]
    by (auto simp: clean_log_bytes_def Let_def encode_transaction_def write_transaction_eq compact_def log_of_def)
  show "length (log_of (compact ts)) < length L" if "L \<noteq> log_of ts"
    using that assms(1) compact_props(4) [OF wf assms(2)] by (auto simp: log_state_def)
qed

section \<open>Appending\<close>

lemma temp_path_neq [simp]:
  "temp_path p \<noteq> p" "p \<noteq> temp_path p" "log_path \<noteq> checkpoint_path" "checkpoint_path \<noteq> log_path"
  "temp_path log_path \<noteq> checkpoint_path" "temp_path checkpoint_path \<noteq> log_path"
  "checkpoint_path \<noteq> temp_path log_path" "log_path \<noteq> temp_path checkpoint_path"
  by (simp_all add: temp_path_def log_path_def checkpoint_path_def)

lemma replace_file_ok:
  assumes "replace_file fault files path bytes = (files', Inr u)"
  shows "sm_find files' path = Some bytes" "q \<noteq> path \<Longrightarrow> q \<noteq> temp_path path \<Longrightarrow> sm_find files' q = sm_find files q"
  using assms by (auto simp: replace_file_def Let_def split: replace_fault.splits)

text \<open>The faults that lose the file: no rename succeeds after it was removed.\<close>

definition loses_file :: "replace_fault \<Rightarrow> bool" where
  "loses_file fault \<longleftrightarrow> fault = rp_rename_fails \<or> fault = rp_cleanup_throws"

lemma replace_file_failed:
  assumes "replace_file fault files path bytes = (files', Inl e)" "q \<noteq> temp_path path"
  shows "sm_find files' q = (if loses_file fault \<and> q = path then None else sm_find files q)"
  using assms by (auto simp: replace_file_def loses_file_def Let_def split: replace_fault.splits)

text \<open>The log of a directory and its checkpoint file.\<close>

definition store_state :: "StoreFiles \<Rightarrow> Txn list \<Rightarrow> bool" where
  "store_state files ts \<longleftrightarrow> log_state (file_bytes files log_path) ts"

lemma append_file_log_state:
  assumes ok: "list_all txn_ok ts" "txn_ok t"
    and bytes: "file_bytes files log_path = log_of ts"
    and app: "append_file fault files log_path (txn_bytes (log_of ts) t) = (files', r)"
  shows "\<exists>us. us \<in> {ts, ts @ [t]} \<and> (r = Inr () \<longrightarrow> us = ts @ [t]) \<and> store_state files' us \<and>
    sm_find files' checkpoint_path = sm_find files checkpoint_path"
proof -
  let ?b = "txn_bytes (log_of ts) t"
  have all: "log_state (log_of (ts @ [t])) (ts @ [t])" using ok by (simp add: log_state_def)
  have cut: "log_state (log_of ts @ take n ?b) ts" if "n < length ?b" for n
    using ok that by (cases "n = 0") (auto simp: log_state_def)
  show ?thesis
  proof (cases "\<exists>n. fault = ap_write_fails n \<and> n < length ?b")
    case True
    then show ?thesis
      using app bytes cut by (intro exI [of _ ts]) (auto simp: append_file_def store_state_def file_bytes_def)
  next
    case False
    then show ?thesis
      using app bytes all cut [of 0] by (cases fault) (auto simp: append_file_def store_state_def file_bytes_def length_txn_bytes)
  qed
qed

text \<open>
  What a store holds, up to transaction ids: its log records and their last sequence number, which
  counts only when there is a record.
\<close>

definition same_content :: "Txn list \<Rightarrow> Txn list \<Rightarrow> bool" where
  "same_content ts us \<longleftrightarrow> map strip (records_of us) = map strip (records_of ts) \<and>
     (records_of ts \<noteq> [] \<longrightarrow> last_sequence us = last_sequence ts)"

definition adds_content :: "Txn list \<Rightarrow> u64 \<Rightarrow> StateRecord list \<Rightarrow> Txn list \<Rightarrow> bool" where
  "adds_content ts new records us \<longleftrightarrow>
     map strip (records_of us) = map strip (records_of ts) @ map strip records \<and> last_sequence us = new"

lemma same_content_refl [simp]: "same_content ts ts"
  by (simp add: same_content_def)

lemma read_log_Inr: "read_file fault files log_path = Inr bs \<Longrightarrow> fault \<noteq> rd_stat_fails \<Longrightarrow> bs = file_bytes files log_path"
  by (auto simp: read_file_def file_bytes_def split: option.splits if_splits)

lemma log_state_cleaned:
  assumes "log_state L ts" "length (records_of ts) < 2 ^ 64" "cs = (if L = log_of ts then ts else compact ts)"
  shows "clean_log_bytes L = Inr (log_of cs)" "list_all txn_ok cs" "same_content ts cs"
    "length (log_of cs) = length L \<Longrightarrow> L = log_of cs"
proof -
  have wf: "list_all txn_ok ts" using assms(1) by (simp add: log_state_def)
  note comp = compact_props [OF wf assms(2)]
  show "clean_log_bytes L = Inr (log_of cs)" unfolding assms(3) by (rule clean_log_state(1) [OF assms(1,2)])
  show "list_all txn_ok cs" using wf comp(1) by (simp add: assms(3))
  show "same_content ts cs" using comp(2,3) by (cases "L = log_of ts") (simp_all add: assms(3) same_content_def)
  show "L = log_of cs" if "length (log_of cs) = length L"
    using that clean_log_state(2) [OF assms(1,2)] by (cases "L = log_of ts") (simp_all add: assms(3))
qed

lemma append_cleaned:
  assumes cs: "list_all txn_ok cs" "same_content ts cs" "file_bytes files log_path = log_of cs"
    and records: "list_all state_fits records" "length records < 2 ^ 64"
    and app: "(case write_transaction (log_of cs) txn base new records of Inl e \<Rightarrow> (files, Inl e)
      | Inr bytes \<Rightarrow> append_file fault files log_path (drop (length (log_of cs)) bytes)) = (files', r)"
  shows "\<exists>us. store_state files' us \<and> (same_content ts us \<and> r \<noteq> Inr () \<or> adds_content ts new records us) \<and>
    sm_find files' checkpoint_path = sm_find files checkpoint_path"
proof (cases "list_ex control_record records")
  case True
  then have "files' = files" "r \<noteq> Inr ()" using app by (auto simp: write_transaction_eq)
  then show ?thesis using cs by (intro exI [of _ cs]) (simp add: store_state_def log_state_def)
next
  case False
  let ?t = "\<lparr>tx_id = txn, tx_base = base, tx_new = new, tx_records = owned txn records\<rparr>"
  have "list_all record_ok records" using records(1) False by (auto simp: record_ok_def list_all_iff list_ex_iff)
  then have t: "txn_ok ?t" using records(2) by (simp add: txn_ok_iff)
  have "append_file fault files log_path (txn_bytes (log_of cs) ?t) = (files', r)"
    using app False by (simp add: write_transaction_eq log_txn_eq)
  from append_file_log_state [OF cs(1) t cs(3) this] obtain us where
    us: "us \<in> {cs, cs @ [?t]}" "r = Inr () \<longrightarrow> us = cs @ [?t]" "store_state files' us"
      "sm_find files' checkpoint_path = sm_find files checkpoint_path" by auto
  then have "same_content ts us \<and> r \<noteq> Inr () \<or> adds_content ts new records us"
    using cs(2) by (auto simp: adds_content_def same_content_def last_sequence_def)
  then show ?thesis using us by auto
qed

lemma append_transaction_cases:
  assumes st: "store_state files ts" "length (records_of ts) < 2 ^ 64"
    and read: "af_read faults \<noteq> rd_stat_fails"
    and records: "list_all state_fits records" "length records < 2 ^ 64"
    and app: "append_transaction faults files txn base new records = (files', r)"
  shows "\<exists>us. store_state files' us \<and> sm_find files' checkpoint_path = sm_find files checkpoint_path \<and>
    (same_content ts us \<and> r \<noteq> Inr () \<or> adds_content ts new records us \<or> us = [] \<and> loses_file (af_replace faults) \<and> r \<noteq> Inr ())"
proof (cases "read_file (af_read faults) files log_path")
  case (Inl e)
  then show ?thesis using app st(1) by (intro exI [of _ ts]) (auto simp: append_transaction_def)
next
  case (Inr L)
  then have L: "L = file_bytes files log_path" using read by (rule read_log_Inr)
  define cs where "cs = (if L = log_of ts then ts else compact ts)"
  note clean = log_state_cleaned [OF st(1) [unfolded store_state_def, folded L] st(2) cs_def]
  define step where "step = (if length (log_of cs) \<noteq> length L then replace_file (af_replace faults) files log_path (log_of cs) else (files, Inr ()))"
  obtain files1 q where step: "step = (files1, q)" by fastforce
  show ?thesis
  proof (cases q)
    case q: (Inl e)
    then have out: "files' = files1" "r = Inl e" using app Inr clean(1) step by (simp_all add: append_transaction_def step_def)
    have rep: "replace_file (af_replace faults) files log_path (log_of cs) = (files1, Inl e)"
      using step q by (simp add: step_def split: if_splits)
    have same: "sm_find files1 p = (if loses_file (af_replace faults) \<and> p = log_path then None else sm_find files p)"
      if "p = log_path \<or> p = checkpoint_path" for p
      using that replace_file_failed [OF rep, of p] by auto
    show ?thesis
    proof (cases "loses_file (af_replace faults)")
      case True
      then show ?thesis using same out by (intro exI [of _ "[]"]) (simp add: store_state_def log_state_def file_bytes_def)
    next
      case False
      then show ?thesis using st(1) same by (intro exI [of _ ts]) (simp add: out store_state_def file_bytes_def)
    qed
  next
    case q: (Inr u)
    have bytes: "file_bytes files1 log_path = log_of cs" and cp: "sm_find files1 checkpoint_path = sm_find files checkpoint_path"
      using step q clean(4) L by (auto simp: step_def file_bytes_def replace_file_ok split: if_splits dest: replace_file_ok)
    have "(case write_transaction (log_of cs) txn base new records of Inl e \<Rightarrow> (files1, Inl e)
        | Inr bytes \<Rightarrow> append_file (af_append faults) files1 log_path (drop (length (log_of cs)) bytes)) = (files', r)"
      using app Inr clean(1) step q by (simp add: append_transaction_def step_def)
    from append_cleaned [OF clean(2,3) bytes records this] show ?thesis using cp by metis
  qed
qed

section \<open>Recovery of a store\<close>

definition checkpoint_part :: "StoreFiles \<Rightarrow> RecoveryResult" where
  "checkpoint_part files = (if file_bytes files checkpoint_path = [] then empty_recovery else recover_log (file_bytes files checkpoint_path))"

lemma read_ok: "read_file rd_ok files path = Inr (file_bytes files path)"
  by (simp add: read_file_def file_bytes_def split: option.split)

lemma recover_store:
  assumes "store_state files ts"
  obtains R where "recover rd_ok rd_ok files = Inr R" "rr_committed R = rr_committed (checkpoint_part files) @ records_of ts"
    "rr_sequence R = (if records_of ts = [] then rr_sequence (checkpoint_part files) else last_sequence ts)"
proof -
  note log = log_state_recover [OF assms [unfolded store_state_def]]
  have nil: "records_of ts = []" if "file_bytes files log_path = []"
    using that log(1) recover_log_complete [of "[]"] by (simp add: replayed_def)
  let ?C = "checkpoint_part files" and ?L = "file_bytes files log_path"
  have rec: "recover rd_ok rd_ok files = Inr (if ?L \<noteq> [] then merge_recovery ?C (recover_log ?L) else ?C)"
    by (simp add: recover_def read_ok Let_def checkpoint_part_def)
  show ?thesis
  proof (cases "?L = []")
    case True
    then show ?thesis using rec nil by (intro that [of ?C]) simp_all
  next
    case False
    then show ?thesis
      using rec log by (intro that [of "merge_recovery ?C (recover_log ?L)"]) (simp_all add: merge_recovery_def)
  qed
qed

lemma checkpoint_part_cong: "sm_find files' checkpoint_path = sm_find files checkpoint_path \<Longrightarrow> checkpoint_part files' = checkpoint_part files"
  by (simp add: checkpoint_part_def file_bytes_def)

section \<open>Checkpoints\<close>

definition checkpoint_txn :: "u64 \<Rightarrow> Bytes \<Rightarrow> Txn" where
  "checkpoint_txn sequence payload = \<lparr>tx_id = kCompactionTxnId, tx_base = 0, tx_new = sequence,
     tx_records = owned kCompactionTxnId [checkpoint_record payload]\<rparr>"

lemma encode_checkpoint:
  "encode_transaction kCompactionTxnId 0 sequence [checkpoint_record payload] = Inr (log_of [checkpoint_txn sequence payload])"
  by (simp add: encode_transaction_def write_transaction_eq control_record_def checkpoint_record_def checkpoint_txn_def log_of_def)

lemma checkpoint_part_written:
  assumes "state_fits (checkpoint_record payload)" "file_bytes files checkpoint_path = log_of [checkpoint_txn sequence payload]"
  shows "checkpoint_part files = replayed [checkpoint_txn sequence payload]"
proof -
  have "txn_ok (checkpoint_txn sequence payload)"
    using assms(1) by (simp add: checkpoint_txn_def txn_ok_iff record_ok_def control_record_def checkpoint_record_def)
  then have "recover_log (log_of [checkpoint_txn sequence payload]) = replayed [checkpoint_txn sequence payload]"
    by (simp add: recover_log_complete)
  moreover have "length (log_of [checkpoint_txn sequence payload]) \<noteq> 0" by (simp only: length_log_of) simp
  then have "log_of [checkpoint_txn sequence payload] \<noteq> []" by (metis list.size(3))
  ultimately show ?thesis unfolding checkpoint_part_def assms(2) by simp
qed

text \<open>When both renames fail the published file and the temporary file are gone.\<close>

lemma failed_rename_loses_file:
  "sm_find (fst (replace_file rp_rename_fails files path bytes)) path = None"
  "sm_find (fst (replace_file rp_rename_fails files path bytes)) (temp_path path) = None"
  by (simp_all add: replace_file_def Let_def)

text \<open>When the file cannot be examined it counts as empty: recovery returns an empty state and no error.\<close>

lemma failed_stat_reads_empty: "recover rd_stat_fails rd_stat_fails files = Inr empty_recovery"
  by (simp add: recover_def read_file_def Let_def)

lemma replayed_checkpoint:
  "map strip (rr_committed (replayed [checkpoint_txn sequence payload])) = [checkpoint_record payload]"
  "rr_sequence (replayed [checkpoint_txn sequence payload]) = sequence"
  by (simp_all add: replayed_def checkpoint_txn_def owned_def strip_def checkpoint_record_def)

lemma checkpoint_cases:
  assumes "store_state files ts" "state_fits (checkpoint_record payload)"
    and "checkpoint fault1 fault2 files sequence payload = (files', r)"
  obtains (refused) e where "r = Inl e" "store_state files' ts" "checkpoint_part files' = checkpoint_part files"
  | (lost_snapshot) e where "r = Inl e" "loses_file fault1" "store_state files' ts" "checkpoint_part files' = empty_recovery"
  | (kept_log) e where "r = Inl e" "store_state files' ts" "checkpoint_part files' = replayed [checkpoint_txn sequence payload]"
  | (lost_log) e where "r = Inl e" "loses_file fault2" "store_state files' []" "checkpoint_part files' = replayed [checkpoint_txn sequence payload]"
  | (replaced) "r = Inr ()" "store_state files' []" "checkpoint_part files' = replayed [checkpoint_txn sequence payload]"
proof -
  let ?b = "log_of [checkpoint_txn sequence payload]"
  obtain files1 q where rep: "replace_file fault1 files checkpoint_path ?b = (files1, q)" by fastforce
  show thesis
  proof (cases q)
    case (Inl e)
    then have out: "files' = files1" "r = Inl e" using assms(3) rep by (simp_all add: checkpoint_def encode_checkpoint)
    note failed = replace_file_failed [OF rep [unfolded Inl]]
    have log: "store_state files' ts" using failed [of log_path] assms(1) by (simp add: out store_state_def file_bytes_def)
    have cp: "sm_find files1 checkpoint_path = (if loses_file fault1 then None else sm_find files checkpoint_path)"
      using failed [of checkpoint_path] by simp
    show thesis
    proof (cases "loses_file fault1")
      case True
      then show thesis using cp by (intro lost_snapshot [OF out(2) True log]) (simp add: out checkpoint_part_def file_bytes_def)
    next
      case False
      then show thesis using cp by (intro refused [OF out(2) log]) (simp add: out checkpoint_part_def file_bytes_def)
    qed
  next
    case (Inr u)
    have one: "sm_find files1 checkpoint_path = Some ?b" "sm_find files1 log_path = sm_find files log_path"
      using replace_file_ok [OF rep [unfolded Inr]] by simp_all
    have two: "replace_file fault2 files1 log_path [] = (files', r)" using assms(3) rep Inr by (simp add: checkpoint_def encode_checkpoint)
    have "sm_find files' checkpoint_path = Some ?b"
      using two one(1) replace_file_ok(2) [of fault2 files1 log_path "[]" files' "()" checkpoint_path]
        replace_file_failed [of fault2 files1 log_path "[]" files' _ checkpoint_path] by (cases r) auto
    then have part: "checkpoint_part files' = replayed [checkpoint_txn sequence payload]"
      using assms(2) by (intro checkpoint_part_written) (simp_all add: file_bytes_def)
    have empty: "store_state files' []" if "sm_find files' log_path = Some [] \<or> sm_find files' log_path = None"
      using that by (auto simp: store_state_def log_state_def file_bytes_def)
    show thesis
    proof (cases r)
      case (Inr u)
      then have "sm_find files' log_path = Some []" using replace_file_ok(1) two by simp
      then show thesis using part Inr empty by (intro replaced) simp_all
    next
      case (Inl e)
      then have log: "sm_find files' log_path = (if loses_file fault2 then None else sm_find files log_path)"
        using two one(2) replace_file_failed [of fault2 files1 log_path "[]" files' e log_path] by simp
      show thesis
      proof (cases "loses_file fault2")
        case True
        then show thesis using log part empty by (intro lost_log [OF Inl]) simp_all
      next
        case False
        then show thesis using log part assms(1) by (intro kept_log [OF Inl]) (simp_all add: store_state_def file_bytes_def)
      qed
    qed
  qed
qed

section \<open>The atomic store\<close>

text \<open>The operations of a store, each with its own faults.\<close>

datatype store_op =
    Append append_faults u64 u64 u64 "StateRecord list"
  | Checkpoint replace_fault replace_fault u64 Bytes

fun store_step :: "StoreFiles \<Rightarrow> store_op \<Rightarrow> StoreFiles \<times> unit Result" where
  "store_step files (Append faults txn base new records) = append_transaction faults files txn base new records"
| "store_step files (Checkpoint fault1 fault2 sequence payload) = checkpoint fault1 fault2 files sequence payload"

text \<open>
  The specification: a snapshot and the records appended since, each with its sequence number; the
  sequence number of the log counts when the log has a record. An append adds all of its records or,
  only when it reports an error, none. A checkpoint that reports success replaces everything by its
  one record; one that fails changes nothing or replaces the snapshot alone. When the rename of a file
  fails twice the operation reports an error and that file, the log or the snapshot, is gone.
\<close>

record AtomicStore =
  at_snapshot :: "StateRecord list"
  at_snapshot_sequence :: u64
  at_log :: "StateRecord list"
  at_log_sequence :: u64

definition empty_atomic :: AtomicStore where
  "empty_atomic = \<lparr>at_snapshot = [], at_snapshot_sequence = 0, at_log = [], at_log_sequence = 0\<rparr>"

definition with_snapshot :: "u64 \<Rightarrow> Bytes \<Rightarrow> AtomicStore \<Rightarrow> AtomicStore" where
  "with_snapshot sequence payload a = a\<lparr>at_snapshot := [checkpoint_record payload], at_snapshot_sequence := sequence\<rparr>"

definition at_sequence :: "AtomicStore \<Rightarrow> u64" where
  "at_sequence a = (if at_log a = [] then at_snapshot_sequence a else at_log_sequence a)"

inductive atomic_step :: "AtomicStore \<Rightarrow> store_op \<Rightarrow> unit Result \<Rightarrow> AtomicStore \<Rightarrow> bool" where
  append_done: "atomic_step a (Append faults txn base new records) r
    (a\<lparr>at_log := at_log a @ map strip records, at_log_sequence := new\<rparr>)"
| append_failed: "atomic_step a (Append faults txn base new records) (Inl e) a"
| append_lost: "loses_file (af_replace faults) \<Longrightarrow> atomic_step a (Append faults txn base new records) (Inl e) (a\<lparr>at_log := []\<rparr>)"
| checkpoint_done: "atomic_step a (Checkpoint fault1 fault2 sequence payload) (Inr ()) (with_snapshot sequence payload a\<lparr>at_log := []\<rparr>)"
| checkpoint_failed: "atomic_step a (Checkpoint fault1 fault2 sequence payload) (Inl e) a"
| checkpoint_kept_log: "atomic_step a (Checkpoint fault1 fault2 sequence payload) (Inl e) (with_snapshot sequence payload a)"
| checkpoint_lost_snapshot: "loses_file fault1 \<Longrightarrow> atomic_step a (Checkpoint fault1 fault2 sequence payload) (Inl e)
    (a\<lparr>at_snapshot := [], at_snapshot_sequence := 0\<rparr>)"
| checkpoint_lost_log: "loses_file fault2 \<Longrightarrow> atomic_step a (Checkpoint fault1 fault2 sequence payload) (Inl e)
    (with_snapshot sequence payload a\<lparr>at_log := []\<rparr>)"

definition store_rel :: "nat \<Rightarrow> StoreFiles \<Rightarrow> AtomicStore \<Rightarrow> bool" where
  "store_rel n files a \<longleftrightarrow> (\<exists>ts. store_state files ts \<and> length (records_of ts) \<le> n \<and> map strip (records_of ts) = at_log a \<and>
     (records_of ts \<noteq> [] \<longrightarrow> last_sequence ts = at_log_sequence a) \<and> map strip (rr_committed (checkpoint_part files)) = at_snapshot a \<and>
     rr_sequence (checkpoint_part files) = at_snapshot_sequence a)"

text \<open>
  The operations of a run: records and checkpoints whose payload fits the 32-bit length field, and no
  failing query of the status of the log. (Such a query counts the log as empty, and the transaction
  is then appended with the wrong digest.)
\<close>

definition op_ok :: "store_op \<Rightarrow> bool" where
  "op_ok op = (case op of
      Append faults _ _ _ records \<Rightarrow> af_read faults \<noteq> rd_stat_fails \<and> list_all state_fits records
    | Checkpoint _ _ _ payload \<Rightarrow> state_fits (checkpoint_record payload))"

definition op_size :: "store_op \<Rightarrow> nat" where
  "op_size op = (case op of Append _ _ _ _ records \<Rightarrow> length records | Checkpoint _ _ _ _ \<Rightarrow> 0)"

lemma append_simulated:
  assumes "store_rel n files a" "op_ok (Append faults txn base new records)" "n + length records < 2 ^ 64"
    and app: "append_transaction faults files txn base new records = (files', r)"
  shows "\<exists>a'. atomic_step a (Append faults txn base new records) r a' \<and> store_rel (n + length records) files' a'"
proof -
  obtain ts where ts: "store_state files ts" "length (records_of ts) \<le> n" "map strip (records_of ts) = at_log a"
    "records_of ts \<noteq> [] \<longrightarrow> last_sequence ts = at_log_sequence a" "map strip (rr_committed (checkpoint_part files)) = at_snapshot a"
    "rr_sequence (checkpoint_part files) = at_snapshot_sequence a" using assms(1) by (auto simp: store_rel_def)
  obtain us where us: "store_state files' us" "sm_find files' checkpoint_path = sm_find files checkpoint_path"
    "same_content ts us \<and> r \<noteq> Inr () \<or> adds_content ts new records us \<or> us = [] \<and> loses_file (af_replace faults) \<and> r \<noteq> Inr ()"
    using append_transaction_cases [OF ts(1) _ _ _ _ app] ts(2) assms(2,3) by (auto simp: op_ok_def)
  note part = checkpoint_part_cong [OF us(2)]
  have len: "length (records_of us) = length (map strip (records_of us))" "length (at_log a) \<le> n"
    using ts(2,3) by (simp, metis length_map)
  have nil: "records_of ts = [] \<longleftrightarrow> at_log a = []" "records_of us = [] \<longleftrightarrow> map strip (records_of us) = []"
    by (simp_all add: ts(3) [symmetric])
  from us(3) show ?thesis
  proof (elim disjE conjE)
    assume "adds_content ts new records us"
    then have "store_rel (n + length records) files' (a\<lparr>at_log := at_log a @ map strip records, at_log_sequence := new\<rparr>)"
      using us(1) ts part len unfolding store_rel_def adds_content_def by (intro exI [of _ us]) simp
    then show ?thesis using append_done by blast
  next
    assume same: "same_content ts us" and "r \<noteq> Inr ()"
    then obtain e where "r = Inl e" by (cases r) auto
    moreover have "store_rel (n + length records) files' a"
      using us(1) ts part len same nil unfolding store_rel_def same_content_def by (intro exI [of _ us]) auto
    ultimately show ?thesis using append_failed by blast
  next
    assume lost: "us = []" "loses_file (af_replace faults)" and "r \<noteq> Inr ()"
    then obtain e where "r = Inl e" by (cases r) auto
    moreover have "store_rel (n + length records) files' (a\<lparr>at_log := []\<rparr>)"
      using us(1) ts part lost(1) unfolding store_rel_def by (intro exI [of _ us]) simp
    ultimately show ?thesis using append_lost [OF lost(2)] by blast
  qed
qed

lemma checkpoint_simulated:
  assumes "store_rel n files a" "op_ok (Checkpoint fault1 fault2 sequence payload)"
    and "checkpoint fault1 fault2 files sequence payload = (files', r)"
  shows "\<exists>a'. atomic_step a (Checkpoint fault1 fault2 sequence payload) r a' \<and> store_rel n files' a'"
proof -
  obtain ts where ts: "store_state files ts" "length (records_of ts) \<le> n" "map strip (records_of ts) = at_log a"
    "records_of ts \<noteq> [] \<longrightarrow> last_sequence ts = at_log_sequence a" "map strip (rr_committed (checkpoint_part files)) = at_snapshot a"
    "rr_sequence (checkpoint_part files) = at_snapshot_sequence a" using assms(1) by (auto simp: store_rel_def)
  have ok: "state_fits (checkpoint_record payload)" using assms(2) by (simp add: op_ok_def)
  from ts(1) ok assms(3) show ?thesis
  proof (cases rule: checkpoint_cases)
    case refused
    then have "store_rel n files' a" using ts by (auto simp: store_rel_def)
    then show ?thesis using checkpoint_failed refused(1) by blast
  next
    case lost_snapshot
    then have "store_rel n files' (a\<lparr>at_snapshot := [], at_snapshot_sequence := 0\<rparr>)"
      using ts unfolding store_rel_def by (intro exI [of _ ts]) (simp add: empty_recovery_def)
    then show ?thesis using checkpoint_lost_snapshot [OF lost_snapshot(2)] lost_snapshot(1) by blast
  next
    case lost_log
    then have "store_rel n files' (with_snapshot sequence payload a\<lparr>at_log := []\<rparr>)"
      unfolding store_rel_def by (intro exI [of _ "[]"]) (simp add: with_snapshot_def replayed_checkpoint)
    then show ?thesis using checkpoint_lost_log [OF lost_log(2)] lost_log(1) by blast
  next
    case kept_log
    then have "store_rel n files' (with_snapshot sequence payload a)"
      using ts unfolding store_rel_def by (intro exI [of _ ts]) (simp add: with_snapshot_def replayed_checkpoint)
    then show ?thesis using checkpoint_kept_log kept_log(1) by blast
  next
    case replaced
    then have "store_rel n files' (with_snapshot sequence payload a\<lparr>at_log := []\<rparr>)"
      unfolding store_rel_def by (intro exI [of _ "[]"]) (simp add: with_snapshot_def replayed_checkpoint)
    then show ?thesis using checkpoint_done replaced(1) by blast
  qed
qed

interpretation store: simulation store_step atomic_step store_rel op_ok op_size "2 ^ 64"
proof
  fix n files a op files' r
  assume "store_rel n files a" "op_ok op" "n + op_size op < 2 ^ 64" "store_step files op = (files', r)"
  then show "\<exists>a'. atomic_step a op r a' \<and> store_rel (n + op_size op) files' a'"
    using append_simulated checkpoint_simulated by (cases op) (simp_all add: op_size_def)
qed

lemma store_rel_recover:
  assumes "store_rel n files a"
  shows "\<exists>R. recover rd_ok rd_ok files = Inr R \<and> map strip (rr_committed R) = at_snapshot a @ at_log a \<and> rr_sequence R = at_sequence a"
proof -
  obtain ts where ts: "store_state files ts" "map strip (records_of ts) = at_log a"
    "records_of ts \<noteq> [] \<longrightarrow> last_sequence ts = at_log_sequence a" "map strip (rr_committed (checkpoint_part files)) = at_snapshot a"
    "rr_sequence (checkpoint_part files) = at_snapshot_sequence a" using assms by (auto simp: store_rel_def)
  have "at_log a = [] \<longleftrightarrow> records_of ts = []" using ts(2) by (metis map_is_Nil_conv)
  then show ?thesis using recover_store [OF ts(1)] ts(2-5) unfolding at_sequence_def by (metis map_append)
qed

section \<open>Properties\<close>

text \<open>
  C1. The file store implements an atomic store: for every sequence of appends, with or without
  records, and checkpoints on an empty directory, with calls that fail or throw and writes that are
  cut off at any points, there is a run of the atomic store with the same answers, and recovery of
  the directory returns exactly the records and the sequence number of the state that this run ends
  in. In the atomic store every operation takes effect as a whole or, only when it reports an error,
  not at all; a failing checkpoint may have replaced the snapshot alone; and an error after two failed
  renames of one file may have lost that file. The sequence number is that of the last append since
  the last checkpoint, if any of these appends had a record, and that of the checkpoint otherwise. The
  one failure that is left out is that of \<open>exists\<close> on the log in an append. Payloads fit their 32-bit length field and fewer than \<open>2 ^ 64\<close> records are
  appended.
\<close>

theorem store_refines_atomic:
  assumes "run_ops store_step [] ops = (files, rs)" "list_all op_ok ops" "sum_list (map op_size ops) < 2 ^ 64"
  shows "\<exists>a R. spec_run atomic_step empty_atomic ops rs a \<and> recover rd_ok rd_ok files = Inr R \<and>
    map strip (rr_committed R) = at_snapshot a @ at_log a \<and> rr_sequence R = at_sequence a"
proof -
  have "store_rel 0 [] empty_atomic"
    unfolding store_rel_def
    by (intro exI [of _ "[]"]) (simp add: store_state_def log_state_def checkpoint_part_def file_bytes_def empty_recovery_def empty_atomic_def)
  from store.run_simulates [OF this assms(2) _ assms(1)] assms(3) obtain a where
    "spec_run atomic_step empty_atomic ops rs a" "store_rel (sum_list (map op_size ops)) files a" by auto
  then show ?thesis using store_rel_recover by blast
qed

definition no_faults :: append_faults where
  "no_faults = \<lparr>af_read = rd_ok, af_replace = rp_ok, af_append = ap_ok\<rparr>"

definition demo_record :: "u8 \<Rightarrow> StateRecord" where
  "demo_record b = \<lparr>sr_type = srt_graph_delta, sr_txn_id = 0, sr_base_sequence = 0, sr_new_sequence = 1, sr_payload = [b]\<rparr>"

definition demo_store_ops :: "store_op list" where
  "demo_store_ops = [Append no_faults 1 0 1 [], Append no_faults 1 0 1 [demo_record 7], Checkpoint rp_ok rp_cleanup_throws 1 [7],
     Append (no_faults\<lparr>af_append := ap_write_fails 60\<rparr>) 2 1 2 [demo_record 8], Append no_faults 3 1 3 [demo_record 9]]"

theorem store_refines_atomic_witness:
  "\<exists>a R. spec_run atomic_step empty_atomic demo_store_ops (snd (run_ops store_step [] demo_store_ops)) a \<and>
     recover rd_ok rd_ok (fst (run_ops store_step [] demo_store_ops)) = Inr R \<and>
     map strip (rr_committed R) = at_snapshot a @ at_log a \<and> rr_sequence R = at_sequence a"
proof (rule store_refines_atomic [OF prod.collapse [symmetric]])
  show "list_all op_ok demo_store_ops" "sum_list (map op_size demo_store_ops) < 2 ^ 64"
    by (simp_all add: demo_store_ops_def op_ok_def op_size_def no_faults_def demo_record_def state_fits_def checkpoint_record_def)
qed

text \<open>
  The sequence number of a transaction without records is lost when the log has no other record: the
  append succeeds, and recovery returns the number of the checkpoint.
\<close>

lemma empty_append_sequence_lost:
  "\<exists>files R. append_transaction no_faults [] 1 0 5 [] = (files, Inr ()) \<and> recover rd_ok rd_ok files = Inr R \<and> rr_sequence R = 0"
proof -
  let ?t = "\<lparr>tx_id = 1, tx_base = 0, tx_new = 5, tx_records = owned 1 []\<rparr>"
  let ?files = "sm_put log_path (log_of [?t]) []"
  have app: "append_transaction no_faults [] 1 0 5 [] = (?files, Inr ())"
    by (simp add: append_transaction_def no_faults_def read_file_def clean_log_bytes_def write_transaction_eq append_file_def file_bytes_def log_of_def)
  have "store_state ?files [?t]" by (simp add: store_state_def log_state_def file_bytes_def txn_ok_iff)
  from recover_store [OF this] obtain R where "recover rd_ok rd_ok ?files = Inr R" "rr_sequence R = rr_sequence (checkpoint_part ?files)"
    by (auto simp: owned_def)
  moreover have "checkpoint_part ?files = empty_recovery" by (simp add: checkpoint_part_def file_bytes_def)
  ultimately show ?thesis using app by (auto simp: empty_recovery_def)
qed

end
