(* ===== verification/Forge_Watch.thy ===== *)
theory Forge_Watch
  imports Forge_Inputs Forge_Framing
begin

text \<open>
  The inotify watcher, \<^verbatim>\<open>src/workspace/inotify_watcher.cpp\<close>: the life cycle of its descriptors and the
  decoding of the event records that the kernel writes into the read buffer. What the system calls
  return is a parameter; reading outside of the buffer is the result \<open>None\<close>. The lemmas show that on
  whole records the decoder stays inside of the buffer and reports exactly the mapped events.
\<close>

unbundle bit_operations_syntax

section \<open>Definitions\<close>

subsection \<open>Event masks\<close>

text \<open>The masks of \<^verbatim>\<open>sys/inotify.h\<close>.\<close>

abbreviation IN_MODIFY :: u32 where "IN_MODIFY \<equiv> 0x00000002"
abbreviation IN_ATTRIB :: u32 where "IN_ATTRIB \<equiv> 0x00000004"
abbreviation IN_CLOSE_WRITE :: u32 where "IN_CLOSE_WRITE \<equiv> 0x00000008"
abbreviation IN_MOVED_FROM :: u32 where "IN_MOVED_FROM \<equiv> 0x00000040"
abbreviation IN_MOVED_TO :: u32 where "IN_MOVED_TO \<equiv> 0x00000080"
abbreviation IN_CREATE :: u32 where "IN_CREATE \<equiv> 0x00000100"
abbreviation IN_DELETE :: u32 where "IN_DELETE \<equiv> 0x00000200"
abbreviation IN_DELETE_SELF :: u32 where "IN_DELETE_SELF \<equiv> 0x00000400"
abbreviation IN_MOVE_SELF :: u32 where "IN_MOVE_SELF \<equiv> 0x00000800"
abbreviation IN_IGNORED :: u32 where "IN_IGNORED \<equiv> 0x00008000"

definition map_kind :: "u32 \<Rightarrow> FileEventKind option" where
  "map_kind bits =
     (if bits AND (IN_DELETE OR IN_MOVED_FROM OR IN_DELETE_SELF OR IN_MOVE_SELF) \<noteq> 0 then Some fek_remove
      else if bits AND (IN_CREATE OR IN_MOVED_TO) \<noteq> 0 then Some fek_create
      else if bits AND (IN_MODIFY OR IN_CLOSE_WRITE OR IN_ATTRIB) \<noteq> 0 then Some fek_modify
      else None)"

record WatchEvent =
  we_path :: string
  we_kind :: FileEventKind

subsection \<open>Life cycle\<close>

record InotifyWatcher =
  iw_root :: string
  iw_fd :: int
  iw_watch_fd :: int

definition new_watcher :: "string \<Rightarrow> InotifyWatcher" where
  "new_watcher root = \<lparr>iw_root = root, iw_fd = -1, iw_watch_fd = -1\<rparr>"

definition watcher_error :: "ErrorCode \<Rightarrow> string \<Rightarrow> Status" where
  "watcher_error c msg = error c ''inotify-watcher'' msg"

definition inotify_error :: "string \<Rightarrow> string \<Rightarrow> Status" where
  "inotify_error msg err = error ec_io ''inotify-watcher'' (msg @ '': '' @ err)"

definition watcher_stop :: "InotifyWatcher \<Rightarrow> InotifyWatcher \<times> unit Result" where
  "watcher_stop w =
     (let w = (if iw_fd w \<ge> 0 \<and> iw_watch_fd w \<ge> 0 then w\<lparr>iw_watch_fd := -1\<rparr> else w);
          w = (if iw_fd w \<ge> 0 then w\<lparr>iw_fd := -1\<rparr> else w)
      in (w, Inr ()))"

text \<open>What the system calls of \<open>start\<close> return: a descriptor or the text of the error.\<close>

record watch_calls =
  wc_mkdir_ok :: bool
  wc_init :: "nat + string"
  wc_add_watch :: "nat + string"

definition watcher_start :: "watch_calls \<Rightarrow> InotifyWatcher \<Rightarrow> InotifyWatcher \<times> unit Result" where
  "watcher_start calls w =
     (if iw_fd w \<ge> 0 then (w, Inl (watcher_error ec_internal_invariant ''watcher already started''))
      else if \<not> wc_mkdir_ok calls then (w, Inl (watcher_error ec_io ''unable to create watch root''))
      else
        case wc_init calls of
          Inr err \<Rightarrow> (w\<lparr>iw_fd := -1\<rparr>, Inl (inotify_error ''unable to create inotify descriptor'' err))
        | Inl fd \<Rightarrow>
            (case wc_add_watch calls of
               Inr err \<Rightarrow> (fst (watcher_stop (w\<lparr>iw_fd := int fd, iw_watch_fd := -1\<rparr>)), Inl (inotify_error ''unable to add inotify watch'' err))
             | Inl wd \<Rightarrow> (w\<lparr>iw_fd := int fd, iw_watch_fd := int wd\<rparr>, Inr ())))"

subsection \<open>Polling\<close>

datatype poll_result = PollReady | PollTimeout | PollInterrupted | PollFailed string
datatype read_result = ReadBytes Bytes | ReadInterrupted | ReadWouldBlock | ReadFailed string

text \<open>The loop around \<open>poll\<close>: \<open>Inr True\<close> breaks out of it, \<open>Inr False\<close> is the timeout, \<open>None\<close> blocks.\<close>

fun poll_loop :: "poll_result list \<Rightarrow> bool Result option" where
  "poll_loop [] = None"
| "poll_loop (PollInterrupted # polls) = poll_loop polls"
| "poll_loop (PollFailed err # polls) = Some (Inl (inotify_error ''unable to poll inotify descriptor'' err))"
| "poll_loop (PollTimeout # polls) = Some (Inr False)"
| "poll_loop (PollReady # polls) = Some (Inr True)"

text \<open>
  The loop over the records of one read: an \<open>inotify_event\<close> has four 32-bit fields, the watch
  descriptor, the mask, the cookie and the length of the zero-terminated name that follows. The name
  is read up to its terminating zero.
\<close>

definition event_name :: "Bytes \<Rightarrow> nat \<Rightarrow> string option" where
  "event_name buf off =
     (let text = drop off buf
      in if 0 \<in> set text then Some (map byte_char (takeWhile (\<lambda>b. b \<noteq> 0) text)) else None)"

function read_events :: "Bytes \<Rightarrow> nat \<Rightarrow> WatchEvent list \<Rightarrow> WatchEvent list option" where
  "read_events buf off events =
     (if off < length buf then
        (case (read_u32_le buf (off + 4), read_u32_le buf (off + 12)) of
           (Inr bits, Inr len) \<Rightarrow>
             let next_off = off + (16 + unat len)
             in if bits AND IN_IGNORED \<noteq> 0 \<or> len = 0 then read_events buf next_off events
                else
                  (case map_kind bits of
                     None \<Rightarrow> read_events buf next_off events
                   | Some kind \<Rightarrow>
                       (case event_name buf (off + 16) of
                          None \<Rightarrow> None
                        | Some relative \<Rightarrow>
                            if relative = [] then read_events buf next_off events
                            else read_events buf next_off (events @ [\<lparr>we_path = relative, we_kind = kind\<rparr>])))
         | _ \<Rightarrow> None)
      else Some events)"
  by pat_completeness auto
termination
  by (relation "measure (\<lambda>(buf, off, _). length buf - off)") auto

declare read_events.simps [simp del]

text \<open>The outer \<open>None\<close> is waiting for another result of \<open>read\<close>, the inner one a read outside of the buffer.\<close>

fun read_loop :: "read_result list \<Rightarrow> WatchEvent list \<Rightarrow> WatchEvent list Result option option" where
  "read_loop [] events = None"
| "read_loop (ReadInterrupted # reads) events = read_loop reads events"
| "read_loop (ReadWouldBlock # reads) events = Some (Some (Inr events))"
| "read_loop (ReadFailed err # reads) events = Some (Some (Inl (inotify_error ''unable to read inotify events'' err)))"
| "read_loop (ReadBytes buf # reads) events =
     (if buf = [] then Some (Some (Inr events))
      else case read_events buf 0 events of None \<Rightarrow> Some None | Some events' \<Rightarrow> read_loop reads events')"

definition poll_events ::
    "poll_result list \<Rightarrow> read_result list \<Rightarrow> InotifyWatcher \<Rightarrow> WatchEvent list Result option option" where
  "poll_events polls reads w =
     (if iw_fd w < 0 then Some (Some (Inl (watcher_error ec_internal_invariant ''watcher is not started'')))
      else
        case poll_loop polls of
          None \<Rightarrow> None
        | Some (Inl e) \<Rightarrow> Some (Some (Inl e))
        | Some (Inr False) \<Rightarrow> Some (Some (Inr []))
        | Some (Inr True) \<Rightarrow> read_loop reads [])"

section \<open>Kernel records\<close>

text \<open>
  What the kernel writes: whole records, whose length field counts the name with its padding of
  zeros, at least one, and is 0 when there is no name.
\<close>

record KernelEvent =
  ke_wd :: u32
  ke_mask :: u32
  ke_cookie :: u32
  ke_name :: Bytes
  ke_padding :: nat

definition ke_len :: "KernelEvent \<Rightarrow> u32" where
  "ke_len e = of_nat (length (ke_name e) + ke_padding e)"

definition ke_ok :: "KernelEvent \<Rightarrow> bool" where
  "ke_ok e \<longleftrightarrow> 0 \<notin> set (ke_name e) \<and> (ke_padding e = 0 \<longrightarrow> ke_name e = []) \<and> length (ke_name e) + ke_padding e < 2 ^ 32"

definition ke_bytes :: "KernelEvent \<Rightarrow> Bytes" where
  "ke_bytes e = le32 (ke_wd e) @ le32 (ke_mask e) @ le32 (ke_cookie e) @ le32 (ke_len e) @ ke_name e @ replicate (ke_padding e) 0"

text \<open>What is reported for a record.\<close>

definition reported :: "KernelEvent \<Rightarrow> WatchEvent list" where
  "reported e =
     (if ke_mask e AND IN_IGNORED \<noteq> 0 \<or> ke_name e = [] then []
      else case map_kind (ke_mask e) of None \<Rightarrow> [] | Some kind \<Rightarrow> [\<lparr>we_path = map byte_char (ke_name e), we_kind = kind\<rparr>])"

lemma length_ke_bytes: "length (ke_bytes e) = 16 + (length (ke_name e) + ke_padding e)"
  by (simp add: ke_bytes_def)

lemma unat_ke_len: "ke_ok e \<Longrightarrow> unat (ke_len e) = length (ke_name e) + ke_padding e"
  unfolding ke_len_def ke_ok_def unat_of_nat by (intro mod_less) simp

lemma event_name_record:
  assumes "ke_ok e" "0 < ke_padding e"
  shows "event_name (pre @ ke_bytes e @ rest) (length pre + 16) = Some (map byte_char (ke_name e))"
proof -
  obtain p where p: "ke_padding e = Suc p" using assms(2) by (cases "ke_padding e") auto
  have "drop (length pre + 16) (pre @ ke_bytes e @ rest) = ke_name e @ 0 # (replicate p 0 @ rest)"
    by (simp add: ke_bytes_def p)
  moreover have "takeWhile (\<lambda>b. b \<noteq> 0) (ke_name e @ 0 # (replicate p 0 @ rest)) = ke_name e"
    using assms(1) by (subst takeWhile_append2) (auto simp: ke_ok_def)
  ultimately show ?thesis by (simp add: event_name_def)
qed

lemma read_events_records:
  "list_all ke_ok es \<Longrightarrow>
   read_events (pre @ concat (map ke_bytes es)) (length pre) events = Some (events @ concat (map reported es))"
proof (induction es arbitrary: pre events)
  case Nil
  then show ?case by (simp add: read_events.simps)
next
  case (Cons e es)
  let ?rest = "concat (map ke_bytes es)"
  let ?buf = "pre @ ke_bytes e @ ?rest"
  have ok: "ke_ok e" using Cons.prems by simp
  have fields: "read_u32_le ?buf (length pre + 4) = Inr (ke_mask e)" "read_u32_le ?buf (length pre + 12) = Inr (ke_len e)"
    by (simp_all add: ke_bytes_def read_fields)
  have step: "read_events ?buf (length pre + (16 + unat (ke_len e))) evs = Some (evs @ concat (map reported es))" for evs
    using Cons.IH [of "pre @ ke_bytes e" evs] Cons.prems unat_ke_len [OF ok] by (simp add: length_ke_bytes)
  have "length pre < length ?buf" by (simp add: length_ke_bytes)
  then have unf: "read_events ?buf (length pre) events =
      (if ke_mask e AND IN_IGNORED \<noteq> 0 \<or> ke_len e = 0 then Some (events @ concat (map reported es))
       else case map_kind (ke_mask e) of
              None \<Rightarrow> Some (events @ concat (map reported es))
            | Some kind \<Rightarrow>
                (case event_name ?buf (length pre + 16) of
                   None \<Rightarrow> None
                 | Some relative \<Rightarrow>
                     if relative = [] then Some (events @ concat (map reported es))
                     else Some ((events @ [\<lparr>we_path = relative, we_kind = kind\<rparr>]) @ concat (map reported es))))"
    by (subst read_events.simps) (simp only: fields step if_True Let_def prod.case sum.case)
  have len: "ke_len e = 0 \<longleftrightarrow> ke_padding e = 0 \<and> ke_name e = []" using unat_ke_len [OF ok] by (metis add_is_0 length_0_conv unat_eq_zero)
  show ?case
  proof (cases "ke_padding e = 0")
    case True
    then have "ke_len e = 0" "reported e = []" using ok len by (auto simp: ke_ok_def reported_def)
    then show ?thesis using unf by simp
  next
    case False
    then show ?thesis using unf len event_name_record [OF ok, of pre ?rest] by (simp add: reported_def [of e] split: option.split)
  qed
qed

lemma read_loop_records:
  "\<lbrakk>list_all (\<lambda>es. es \<noteq> [] \<and> list_all ke_ok es) chunks\<rbrakk>
   \<Longrightarrow> read_loop (map (\<lambda>es. ReadBytes (concat (map ke_bytes es))) chunks @ [ReadWouldBlock]) events =
      Some (Some (Inr (events @ concat (map reported (concat chunks)))))"
proof (induction chunks arbitrary: events)
  case (Cons es chunks)
  obtain e es' where "es = e # es'" using Cons.prems by (cases es) auto
  moreover have "ke_bytes e \<noteq> []" using length_ke_bytes [of e] by force
  ultimately have "concat (map ke_bytes es) \<noteq> []" by simp
  moreover have "read_events (concat (map ke_bytes es)) 0 events = Some (events @ concat (map reported es))"
    using read_events_records [of es "[]"] Cons.prems by simp
  ultimately show ?case using Cons.IH Cons.prems by (simp del: concat_eq_Nil_conv)
qed simp

section \<open>Properties\<close>

text \<open>
  C40. The watcher reports exactly the events of the kernel: when the reads return whole records,
  however they are divided, decoding never leaves the buffer and the reported events are those of
  the records with a name and a mapped kind, in order, with their names and kinds.
\<close>

theorem watcher_reports_records:
  assumes "iw_fd w \<ge> 0" "poll_loop polls = Some (Inr True)" "list_all (\<lambda>es. es \<noteq> [] \<and> list_all ke_ok es) chunks"
  shows "poll_events polls (map (\<lambda>es. ReadBytes (concat (map ke_bytes es))) chunks @ [ReadWouldBlock]) w =
    Some (Some (Inr (concat (map reported (concat chunks)))))"
  using assms read_loop_records [OF assms(3), of "[]"] by (simp add: poll_events_def)

definition demo_kernel_event :: "u32 \<Rightarrow> Bytes \<Rightarrow> KernelEvent" where
  "demo_kernel_event bits name = \<lparr>ke_wd = 1, ke_mask = bits, ke_cookie = 0, ke_name = name, ke_padding = 2\<rparr>"

theorem watcher_reports_records_witness:
  "poll_events [PollInterrupted, PollReady]
     [ReadBytes (ke_bytes (demo_kernel_event IN_CREATE [97]) @ ke_bytes (demo_kernel_event IN_IGNORED [98])),
      ReadBytes (ke_bytes (demo_kernel_event IN_MODIFY [99])), ReadWouldBlock]
     \<lparr>iw_root = ''r'', iw_fd = 4, iw_watch_fd = 1\<rparr> =
   Some (Some (Inr [\<lparr>we_path = ''a'', we_kind = fek_create\<rparr>, \<lparr>we_path = ''c'', we_kind = fek_modify\<rparr>]))"
proof -
  let ?a = "demo_kernel_event IN_CREATE [97]" and ?b = "demo_kernel_event IN_IGNORED [98]" and ?c = "demo_kernel_event IN_MODIFY [99]"
  have "reported ?a = [\<lparr>we_path = ''a'', we_kind = fek_create\<rparr>]" "reported ?b = []" "reported ?c = [\<lparr>we_path = ''c'', we_kind = fek_modify\<rparr>]"
    by code_simp+
  moreover have "ke_ok ?a" "ke_ok ?b" "ke_ok ?c" by (simp_all add: ke_ok_def demo_kernel_event_def)
  ultimately show ?thesis
    using watcher_reports_records [of "\<lparr>iw_root = ''r'', iw_fd = 4, iw_watch_fd = 1\<rparr>" "[PollInterrupted, PollReady]" "[[?a, ?b], [?c]]"] by simp
qed

end
