(* ===== verification/Forge_Runs.thy ===== *)
theory Forge_Runs
  imports Forge_Workspace
begin

text \<open>
  Runs of a workspace: any interleaving of graph updates, file events, builds and direct calls on the
  file system, the clock, the artifact store and the event hub that the accessors of
  \<open>WorkspaceCore\<close> hand out. The specification of a workspace is its graph, the number of the next
  request and the set of the open event streams; the theorem shows that every run of fewer than
  \<open>2 ^ 64 - 1\<close> operations refines it, with any executor.
\<close>

section \<open>Operations\<close>

datatype hub_op = OpenStream u32 u64 | AddCredit u32 u64 | PublishEvent u32 BuildEvent | Drain u32

fun hub_step :: "EventHub \<Rightarrow> hub_op \<Rightarrow> EventHub" where
  "hub_step h (OpenStream sid credit) = fst (hub_open_stream h sid credit)"
| "hub_step h (AddCredit sid credit) = fst (hub_add_credit h sid credit)"
| "hub_step h (PublishEvent sid ev) = fst (hub_publish h sid ev)"
| "hub_step h (Drain sid) = fst (hub_drain h sid)"

datatype ws_op =
    WsNode string ActionSpec
  | WsEdge NodeId NodeId EdgeKind
  | WsFile string FileEventKind
  | WsWrite string Bytes
  | WsErase string
  | WsAdvance u64
  | WsArtifacts cas_op
  | WsEvents hub_op
  | WsBuild "NodeId list"

datatype ws_answer =
    NodeAnswer "NodeId Result"
  | EdgeAnswer "EdgeId Result"
  | FileAnswer "unit Result"
  | BuildAnswer "BuildOutcome Result"
  | Done

text \<open>The answer is \<open>None\<close> when a search of a build runs out of fuel.\<close>

fun ws_step :: "'e run_fun \<Rightarrow> WorkspaceCore \<times> 'e \<Rightarrow> ws_op \<Rightarrow> (WorkspaceCore \<times> 'e) \<times> ws_answer option" where
  "ws_step run (ws, ex) (WsNode name action) = (case ws_put_node ws name action of (ws, r) \<Rightarrow> ((ws, ex), Some (NodeAnswer r)))"
| "ws_step run (ws, ex) (WsEdge f t kind) = (case ws_put_edge ws f t kind of (ws, r) \<Rightarrow> ((ws, ex), Some (EdgeAnswer r)))"
| "ws_step run (ws, ex) (WsFile path kind) = (case file_event ws path kind of (ws, r) \<Rightarrow> ((ws, ex), Some (FileAnswer r)))"
| "ws_step run (ws, ex) (WsWrite path bytes) = ((ws\<lparr>ws_fs := vfs_write (ws_fs ws) path bytes\<rparr>, ex), Some Done)"
| "ws_step run (ws, ex) (WsErase path) = ((ws\<lparr>ws_fs := vfs_erase (ws_fs ws) path\<rparr>, ex), Some Done)"
| "ws_step run (ws, ex) (WsAdvance delta) = ((ws\<lparr>ws_clock := clock_advance (ws_clock ws) delta\<rparr>, ex), Some Done)"
| "ws_step run (ws, ex) (WsArtifacts op) = ((ws\<lparr>ws_artifacts := cas_step (ws_artifacts ws) op\<rparr>, ex), Some Done)"
| "ws_step run (ws, ex) (WsEvents op) = ((ws\<lparr>ws_event_hub := hub_step (ws_event_hub ws) op\<rparr>, ex), Some Done)"
| "ws_step run (ws, ex) (WsBuild targets) =
     (case build run ws ex targets of
        None \<Rightarrow> ((ws, ex), None)
      | Some (ws, ex, r) \<Rightarrow> ((ws, ex), Some (BuildAnswer r)))"

section \<open>The specification\<close>

text \<open>The error with which a build is refused before anything changes, if there is one.\<close>

definition refusal :: "BuildGraph \<Rightarrow> NodeId list \<Rightarrow> Status option" where
  "refusal g targets =
     (if \<not> acyclic (depends (bg_edges g)) then Some (workspace_error ec_cycle ''graph contains prohibited cycle'')
      else if \<not> set targets \<subseteq> set (sm_keys (bg_nodes g)) then Some (workspace_error ec_graph_conflict ''unknown target'')
      else None)"

record WsSpec =
  sp_graph :: BuildGraph
  sp_request :: u64
  sp_streams :: "u32 set"

definition new_spec :: WsSpec where
  "new_spec = \<lparr>sp_graph = new_graph, sp_request = 1, sp_streams = {}\<rparr>"

text \<open>A build reports on the stream with the low 32 bits of its request number, which must be free and not 0.\<close>

definition request_stream :: "WsSpec \<Rightarrow> u32" where
  "request_stream a = ucast (sp_request a)"

definition stream_taken :: "WsSpec \<Rightarrow> bool" where
  "stream_taken a \<longleftrightarrow> request_stream a = 0 \<or> request_stream a \<in> sp_streams a"

definition stream_error :: Status where
  "stream_error = hub_error ec_protocol ''invalid event stream''"

definition streams_opened :: "hub_op \<Rightarrow> u32 set" where
  "streams_opened op = (case op of OpenStream sid _ \<Rightarrow> {sid} - {0} | _ \<Rightarrow> {})"

definition invisible :: "ws_op \<Rightarrow> bool" where
  "invisible op = (case op of WsWrite _ _ \<Rightarrow> True | WsErase _ \<Rightarrow> True | WsAdvance _ \<Rightarrow> True | WsArtifacts _ \<Rightarrow> True | _ \<Rightarrow> False)"

inductive graph_machine :: "WsSpec \<Rightarrow> ws_op \<Rightarrow> ws_answer option \<Rightarrow> WsSpec \<Rightarrow> bool" where
  gm_node: "put_node (sp_graph a) name action = (g, r) \<Longrightarrow> graph_machine a (WsNode name action) (Some (NodeAnswer r)) (a\<lparr>sp_graph := g\<rparr>)"
| gm_edge: "put_edge (sp_graph a) f t kind = (g, r) \<Longrightarrow> graph_machine a (WsEdge f t kind) (Some (EdgeAnswer r)) (a\<lparr>sp_graph := g\<rparr>)"
| gm_file: "graph_machine a (WsFile path kind) (Some (FileAnswer r)) a"
| gm_other: "invisible op \<Longrightarrow> graph_machine a op (Some Done) a"
| gm_events: "graph_machine a (WsEvents op) (Some Done) (a\<lparr>sp_streams := sp_streams a \<union> streams_opened op\<rparr>)"
| gm_refused: "refusal (sp_graph a) targets = Some e \<Longrightarrow> graph_machine a (WsBuild targets) (Some (BuildAnswer (Inl e))) a"
| gm_no_stream: "\<lbrakk>refusal (sp_graph a) targets = None; stream_taken a\<rbrakk> \<Longrightarrow>
    graph_machine a (WsBuild targets) (Some (BuildAnswer (Inl stream_error))) (a\<lparr>sp_request := sp_request a + 1\<rparr>)"
| gm_built: "\<lbrakk>refusal (sp_graph a) targets = None; \<not> stream_taken a; plan_order (sp_graph a) targets = Some (Inr order);
    bo_events outcome = expected_events (bg_nodes (sp_graph a)) [] order \<or>
    stopped_events (expected_events (bg_nodes (sp_graph a)) [] order) (bo_events outcome)\<rbrakk> \<Longrightarrow>
    graph_machine a (WsBuild targets) (Some (BuildAnswer (Inr outcome)))
      (a\<lparr>sp_request := sp_request a + 1, sp_streams := insert (request_stream a) (sp_streams a)\<rparr>)"

section \<open>The invariant of a workspace\<close>

text \<open>
  After \<open>n\<close> operations: the parts are well formed, the counters of the graph have not moved by more
  than \<open>n\<close>, and no file event is pending.
\<close>

definition ws_inv :: "nat \<Rightarrow> WorkspaceCore \<Rightarrow> bool" where
  "ws_inv n ws \<longleftrightarrow> graph_inv (ws_graph ws) \<and> unat (bg_next_node (ws_graph ws)) \<le> Suc n \<and> unat (bg_next_edge (ws_graph ws)) \<le> Suc n \<and>
     cas_inv (ws_artifacts ws) \<and> ca_root (ws_artifacts ws) = None \<and> fc_pending (ws_coalescer ws) = []"

lemma new_workspace_inv: "ws_inv 0 (new_workspace relative)"
  by (simp add: ws_inv_def new_workspace_def new_graph_inv new_store_inv sm_contains_def new_coalescer_def)
    (simp add: new_graph_def new_store_def)

lemma ws_inv_mono: "ws_inv n ws \<Longrightarrow> n \<le> m \<Longrightarrow> ws_inv m ws"
  by (auto simp: ws_inv_def)

lemma counter_room: "unat (x :: u64) \<le> Suc n \<Longrightarrow> n + 1 < 2 ^ 64 - 1 \<Longrightarrow> x \<noteq> - 1"
  by (auto simp: unat_max_word)

lemma ws_inv_graph_op:
  assumes "ws_inv n ws" "n + 1 < 2 ^ 64 - 1" "(\<exists>name action. op = PutNode name action) \<or> (\<exists>f t kind. op = PutEdge f t kind)"
  shows "ws_inv (n + 1) (ws\<lparr>ws_graph := graph_step (ws_graph ws) op\<rparr>)"
proof -
  have "bg_next_node (ws_graph ws) \<noteq> - 1" "bg_next_edge (ws_graph ws) \<noteq> - 1"
    using assms(1,2) counter_room by (auto simp: ws_inv_def)
  then have "graph_inv (graph_step (ws_graph ws) op)" using assms(1,3) by (auto simp: ws_inv_def forge_inv)
  then show ?thesis using assms(1) graph_step_counters [of "ws_graph ws" op] by (auto simp: ws_inv_def)
qed

lemma hub_step_streams: "{sid. sm_contains (hub_step h op) sid} = {sid. sm_contains h sid} \<union> streams_opened op"
  by (cases op) (auto simp: streams_opened_def hub_open_stream_def hub_add_credit_def hub_publish_def hub_drain_def sm_contains_def split: option.splits sum.splits)

lemma cas_step_root: "ca_root s = None \<Longrightarrow> ca_root (cas_step s op) = None"
  by (cases op) (auto simp: publish_in_memory cas_acquire_def cas_release_def cas_gc_root split: option.splits)

lemma file_event_keeps:
  "ws_graph (fst (file_event ws path kind)) = ws_graph ws" "ws_next_request (fst (file_event ws path kind)) = ws_next_request ws"
  "ws_event_hub (fst (file_event ws path kind)) = ws_event_hub ws"
  by (auto simp: file_event_def fc_push_def fc_complete_def Let_def split: sum.split)

lemma ws_inv_file_event:
  assumes "ws_inv n ws"
  shows "ws_inv n (fst (file_event ws path kind))"
  using assms
  by (auto simp: file_event_def fc_push_def fc_complete_def Let_def ws_inv_def sm_erase_def split: sum.split)

definition abstract :: "WorkspaceCore \<Rightarrow> WsSpec" where
  "abstract ws = \<lparr>sp_graph = ws_graph ws, sp_request = ws_next_request ws, sp_streams = {sid. sm_contains (ws_event_hub ws) sid}\<rparr>"

lemma file_event_abstract: "file_event ws path kind = (ws', r) \<Longrightarrow> abstract ws' = abstract ws"
  using file_event_keeps [of ws path kind] by (simp add: abstract_def)

lemma ready_iff: "ws_inv n ws \<Longrightarrow> build_ready ws \<longleftrightarrow> \<not> stream_taken (abstract ws)"
  by (auto simp: build_ready_def ws_inv_def stream_taken_def request_stream_def abstract_def)

lemma built_simulated:
  assumes "ws_inv n ws" "built ws ws'" "\<not> stream_taken (abstract ws)"
  shows "ws_inv (n + 1) ws'" "abstract ws' = (abstract ws)\<lparr>sp_request := sp_request (abstract ws) + 1,
    sp_streams := insert (request_stream (abstract ws)) (sp_streams (abstract ws))\<rparr>"
  using assms by (auto simp: ws_inv_def built_def abstract_def stream_taken_def request_stream_def hub_open_stream_def sm_contains_def)

lemma build_no_stream:
  assumes "graph_inv (ws_graph ws)" "refusal (ws_graph ws) targets = None" "stream_taken (abstract ws)"
  shows "build run ws ex targets = Some (ws\<lparr>ws_next_request := ws_next_request ws + 1\<rparr>, ex, Inl stream_error)"
proof -
  have g: "acyclic (depends (bg_edges (ws_graph ws)))" "set targets \<subseteq> set (sm_keys (bg_nodes (ws_graph ws)))"
    using assms(2) by (auto simp: refusal_def split: if_splits)
  have "cycle_witness (ws_graph ws) = Some None" using cycle_witness_cases [OF assms(1)] cycle_of_cyclic g(1) by auto
  moreover obtain order where "plan_order (ws_graph ws) targets = Some (Inr order)" using plan_order_ok [OF assms(1) g] by blast
  ultimately show ?thesis
    using assms(3) by (auto simp: build_def Let_def hub_open_stream_def stream_taken_def request_stream_def abstract_def stream_error_def)
qed

definition ws_rel :: "nat \<Rightarrow> WorkspaceCore \<times> 'e \<Rightarrow> WsSpec \<Rightarrow> bool" where
  "ws_rel n s a \<longleftrightarrow> abstract (fst s) = a \<and> ws_inv n (fst s)"

lemma build_simulated:
  assumes "ws_inv n ws"
  shows "\<exists>ws' ex' r. build run ws ex targets = Some (ws', ex', r) \<and> ws_graph ws' = ws_graph ws \<and> ws_inv (n + 1) ws' \<and>
    graph_machine (abstract ws) (WsBuild targets) (Some (BuildAnswer r)) (abstract ws')"
proof -
  have sp: "sp_graph (abstract ws) = ws_graph ws" by (simp add: abstract_def)
  have inv: "graph_inv (ws_graph ws)" using assms by (simp add: ws_inv_def)
  consider e where "refusal (ws_graph ws) targets = Some e" | "refusal (ws_graph ws) targets = None" "stream_taken (abstract ws)"
    | "refusal (ws_graph ws) targets = None" "\<not> stream_taken (abstract ws)" by blast
  then show ?thesis
  proof cases
    case (1 e)
    then have "build run ws ex targets = Some (ws, ex, Inl e)"
      using build_cyclic [OF inv, of run ex targets] build_unknown [OF inv, of targets run ex]
      by (simp add: refusal_def split: if_splits)
    then show ?thesis using gm_refused [of "abstract ws" targets e] 1 sp ws_inv_mono [OF assms, of "n + 1"] by auto
  next
    case 2
    let ?ws = "ws\<lparr>ws_next_request := ws_next_request ws + 1\<rparr>"
    have "abstract ?ws = (abstract ws)\<lparr>sp_request := sp_request (abstract ws) + 1\<rparr>" by (simp add: abstract_def)
    moreover have "ws_inv (n + 1) ?ws" using assms by (simp add: ws_inv_def)
    ultimately show ?thesis
      using build_no_stream [OF inv 2, of run ex] gm_no_stream [of "abstract ws" targets] 2 sp
      by (intro exI [of _ ?ws] exI [of _ ex] exI [of _ "Inl stream_error"]) simp
  next
    case 3
    then have "acyclic (depends (bg_edges (ws_graph ws)))" "set targets \<subseteq> set (sm_keys (bg_nodes (ws_graph ws)))"
      by (auto simp: refusal_def split: if_splits)
    then obtain ws' ex' outcome order where
      b: "build run ws ex targets = Some (ws', ex', Inr outcome)" "plan_order (ws_graph ws) targets = Some (Inr order)" "built ws ws'"
      "bo_events outcome = expected_events (bg_nodes (ws_graph ws)) [] order \<or>
       stopped_events (expected_events (bg_nodes (ws_graph ws)) [] order) (bo_events outcome)"
      using build_runs [of ws targets run ex "\<lambda>_. False"] ready_iff [OF assms] 3(2) by blast
    then have "ws_graph ws' = ws_graph ws" by (auto simp: built_def)
    then show ?thesis
      using b built_simulated [OF assms b(3) 3(2)] gm_built [of "abstract ws" targets order outcome] 3 sp by auto
  qed
qed

interpretation workspace: simulation "ws_step run" graph_machine ws_rel "\<lambda>_. True" "\<lambda>_. 1" "2 ^ 64 - 1" for run :: "'e run_fun"
proof
  fix n and s :: "WorkspaceCore \<times> 'e" and a op s' r
  assume rel: "ws_rel n s a" and room: "n + 1 < 2 ^ 64 - 1" and step: "ws_step run s op = (s', r)"
  obtain ws ex where s: "s = (ws, ex)" by fastforce
  have inv: "ws_inv n ws" "a = abstract ws" using rel by (simp_all add: ws_rel_def s)
  note later = ws_inv_mono [OF inv(1), of "n + 1"]
  show "\<exists>a'. graph_machine a op r a' \<and> ws_rel (n + 1) s' a'"
  proof (cases op)
    case (WsNode name action)
    then show ?thesis
      using step inv ws_inv_graph_op [OF inv(1) room, of "PutNode name action"] gm_node [of a name action]
      by (auto simp: s ws_rel_def ws_put_node_def abstract_def split: prod.splits)
  next
    case (WsEdge f t kind)
    then show ?thesis
      using step inv ws_inv_graph_op [OF inv(1) room, of "PutEdge f t kind"] gm_edge [of a f t kind]
      by (auto simp: s ws_rel_def ws_put_edge_def abstract_def split: prod.splits)
  next
    case (WsFile path kind)
    then show ?thesis
      using step inv(2) ws_inv_file_event [OF later, of path kind] gm_file [of a path kind]
      by (auto simp: s ws_rel_def file_event_abstract split: prod.splits)
  next
    case (WsEvents hop)
    then show ?thesis
      using step inv later gm_events [of a hop] by (auto simp: s ws_rel_def abstract_def ws_inv_def hub_step_streams)
  next
    case (WsBuild targets)
    then show ?thesis
      using step inv(2) build_simulated [OF inv(1), of run ex targets] by (auto simp: s ws_rel_def)
  qed (use step inv later in \<open>auto simp: s ws_rel_def abstract_def invisible_def ws_inv_def cas_step_inv cas_step_root intro!: gm_other\<close>)
qed

text \<open>
  As long as no stream is opened directly, the streams are those of earlier requests, and the first
  \<open>2 ^ 32 - 1\<close> requests get a free one.
\<close>

definition quiet :: "ws_op \<Rightarrow> bool" where
  "quiet op \<longleftrightarrow> (\<forall>sid credit. op \<noteq> WsEvents (OpenStream sid credit))"

definition fresh_streams :: "nat \<Rightarrow> WsSpec \<Rightarrow> bool" where
  "fresh_streams n a \<longleftrightarrow> 0 < unat (sp_request a) \<and> unat (sp_request a) \<le> Suc n \<and>
     (\<forall>sid \<in> sp_streams a. unat sid < unat (sp_request a))"

lemma fresh_not_taken:
  assumes "fresh_streams n a" "n + 1 < 2 ^ 32"
  shows "\<not> stream_taken a" "unat (request_stream a) = unat (sp_request a)"
proof -
  have r: "0 < unat (sp_request a)" "unat (sp_request a) < 2 ^ 32" using assms by (auto simp: fresh_streams_def)
  then show u: "unat (request_stream a) = unat (sp_request a)" by (simp add: request_stream_def unsigned_ucast_eq take_bit_nat_eq_self)
  then have "request_stream a \<noteq> 0" using r(1) by (metis unat_0 less_numeral_extra(3))
  moreover have "request_stream a \<notin> sp_streams a" using assms(1) u unfolding fresh_streams_def by fastforce
  ultimately show "\<not> stream_taken a" by (simp add: stream_taken_def)
qed

lemma quiet_step:
  assumes "graph_machine a op r a'" "quiet op" "fresh_streams n a" "n + 1 < 2 ^ 32 - 1"
  shows "fresh_streams (Suc n) a'" "r \<noteq> Some (BuildAnswer (Inl stream_error))"
proof -
  have "n + 1 < 2 ^ 32" using assms(4) by simp
  note taken = fresh_not_taken [OF assms(3) this]
  have bump: "unat (sp_request a + 1) = unat (sp_request a) + 1"
    using assms(3,4) by (simp add: fresh_streams_def unat_word_ariths)
  from assms(1,2,3) show "fresh_streams (Suc n) a'"
    by (cases rule: graph_machine.cases)
      (use taken bump in \<open>auto simp: fresh_streams_def streams_opened_def quiet_def split: hub_op.splits\<close>)
  from assms(1) taken(1) show "r \<noteq> Some (BuildAnswer (Inl stream_error))"
    by (cases rule: graph_machine.cases) (auto simp: refusal_def stream_error_def hub_error_def workspace_error_def error_def split: if_splits)
qed

lemma quiet_run:
  "\<lbrakk>spec_run graph_machine a ops rs a'; list_all quiet ops; fresh_streams n a; n + length ops < 2 ^ 32 - 1\<rbrakk>
   \<Longrightarrow> Some (BuildAnswer (Inl stream_error)) \<notin> set rs"
proof (induction arbitrary: n rule: spec_run.induct)
  case (spec_run_Cons a op r a1 ops rs a2)
  then show ?case using quiet_step [OF spec_run_Cons.hyps(1) _ spec_run_Cons.prems(2)] spec_run_Cons.IH [of "Suc n"] by auto
qed simp

section \<open>Properties\<close>


definition demo_ws_ops :: "ws_op list" where
  "demo_ws_ops = [WsNode ''a'' \<lparr>as_command = ''x'', as_options = []\<rparr>, WsWrite ''f'' [1], WsFile ''f'' fek_modify, WsBuild [Id 1],
     WsEvents (OpenStream 2 0), WsBuild [Id 1], WsEdge (Id 1) (Id 1) ek_declared, WsBuild [Id 1]]"


text \<open>
  The request with the number \<open>2 ^ 32\<close> gets the stream number 0, and the build is refused although
  nothing is wrong with its graph and its targets.
\<close>

lemma request_number_wraps:
  assumes "graph_inv (ws_graph ws)" "refusal (ws_graph ws) targets = None" "ws_next_request ws = 2 ^ 32"
  shows "\<exists>ws'. build run ws ex targets = Some (ws', ex, Inl (hub_error ec_protocol ''invalid event stream''))"
  using build_no_stream [OF assms(1,2), of run ex] assms(3)
  by (simp add: stream_taken_def request_stream_def abstract_def stream_error_def)

end
