(* ===== verification/Forge_Fuzz.thy ===== *)
theory Forge_Fuzz
  imports Forge_Runs Forge_Session
begin

text \<open>
  The fuzz targets \<^verbatim>\<open>fuzz/fuzz_daemon_events.cpp\<close>, \<^verbatim>\<open>fuzz/fuzz_build_pipeline.cpp\<close> and
  \<^verbatim>\<open>fuzz/fuzz_fipc_decoder.cpp\<close>: programs that drive a workspace and a session from the bytes of an
  input. The lemmas show for every input what the targets try on some: they return without an
  undefined operation, the invariants of the components hold at the end, and the decoder target ends
  in the session that the whole input gives.
\<close>

section \<open>Definitions\<close>

text \<open>
  A run of a target returns the state it leaves behind. \<open>None\<close> is an undefined operation (a remainder
  by zero, an element outside of a vector) or a build that does not return.
\<close>

definition size_mod :: "nat \<Rightarrow> nat \<Rightarrow> nat option" where
  "size_mod a n = (if n = 0 then None else Some (a mod n))"

definition vector_at :: "'a list \<Rightarrow> nat \<Rightarrow> 'a option" where
  "vector_at xs i = (if i < length xs then Some (xs ! i) else None)"

definition vector_back :: "'a list \<Rightarrow> 'a option" where
  "vector_back xs = (if xs = [] then None else Some (last xs))"

text \<open>\<open>nodes[a % nodes.size()]\<close>\<close>

definition pick :: "'a list \<Rightarrow> nat \<Rightarrow> 'a option" where
  "pick nodes a = Option.bind (size_mod a (length nodes)) (vector_at nodes)"

record FuzzState =
  fz_workspace :: WorkspaceCore
  fz_executor :: MockExecutor
  fz_nodes :: "NodeId list"

definition new_fuzz :: "(string \<Rightarrow> string) \<Rightarrow> FuzzState" where
  "new_fuzz relative = \<lparr>fz_workspace = new_workspace relative, fz_executor = new_mock, fz_nodes = []\<rparr>"

definition fuzz_put_node :: "string \<Rightarrow> ActionSpec \<Rightarrow> FuzzState \<Rightarrow> FuzzState" where
  "fuzz_put_node name action st =
     (case ws_put_node (fz_workspace st) name action of
        (ws, Inl _) \<Rightarrow> st\<lparr>fz_workspace := ws\<rparr>
      | (ws, Inr node) \<Rightarrow> st\<lparr>fz_workspace := ws, fz_nodes := fz_nodes st @ [node]\<rparr>)"

definition fuzz_put_edge :: "NodeId \<Rightarrow> NodeId \<Rightarrow> FuzzState \<Rightarrow> FuzzState" where
  "fuzz_put_edge f t st = st\<lparr>fz_workspace := fst (ws_put_edge (fz_workspace st) f t ek_declared)\<rparr>"

definition fuzz_build :: "NodeId list \<Rightarrow> FuzzState \<Rightarrow> FuzzState option" where
  "fuzz_build targets st =
     (case build mock_run (fz_workspace st) (fz_executor st) targets of
        None \<Rightarrow> None
      | Some (ws, ex, _) \<Rightarrow> Some (st\<lparr>fz_workspace := ws, fz_executor := ex\<rparr>))"

definition fuzz_file :: "string \<Rightarrow> Bytes \<Rightarrow> FuzzState \<Rightarrow> FuzzState" where
  "fuzz_file path bytes st =
     (let ws = fz_workspace st
      in st\<lparr>fz_workspace := fst (file_event (ws\<lparr>ws_fs := vfs_write (ws_fs ws) path bytes\<rparr>) path fek_modify)\<rparr>)"

definition fuzz_advance :: "u64 \<Rightarrow> FuzzState \<Rightarrow> FuzzState" where
  "fuzz_advance delta st = st\<lparr>fz_workspace := (fz_workspace st)\<lparr>ws_clock := clock_advance (ws_clock (fz_workspace st)) delta\<rparr>\<rparr>"

fun fuzz_loop :: "(nat \<Rightarrow> u8 \<Rightarrow> 's \<Rightarrow> 's option) \<Rightarrow> nat \<Rightarrow> nat \<Rightarrow> Bytes \<Rightarrow> 's \<Rightarrow> 's option" where
  "fuzz_loop body limit i [] st = Some st"
| "fuzz_loop body limit i (b # bs) st =
     (if i < limit then (case body i b st of None \<Rightarrow> None | Some st' \<Rightarrow> fuzz_loop body limit (i + 1) bs st') else Some st)"

definition event_byte :: "nat \<Rightarrow> u8 \<Rightarrow> FuzzState \<Rightarrow> FuzzState option" where
  "event_byte i byte st =
     (let b = unat byte; nodes = fz_nodes st; n = length nodes; kind = b mod 5
      in if kind = 0 then
           Some (fuzz_put_node (''n'' @ decimal i) \<lparr>as_command = ''mock'' @ decimal (b mod 7), as_options = []\<rparr> st)
         else if kind = 1 then
           (if n > 1 then
              Option.bind (pick nodes b) (\<lambda>f. Option.bind (pick nodes (b div 2)) (\<lambda>t. Some (fuzz_put_edge f t st)))
            else Some st)
         else if kind = 2 then Some (fuzz_file (''p'' @ decimal (b mod 11)) [byte] st)
         else if kind = 3 then (if nodes \<noteq> [] then Option.bind (pick nodes b) (\<lambda>t. fuzz_build [t] st) else Some st)
         else Some (fuzz_advance (ucast byte) st))"

definition fuzz_daemon_events :: "(string \<Rightarrow> string) \<Rightarrow> Bytes \<Rightarrow> FuzzState option" where
  "fuzz_daemon_events relative data = fuzz_loop event_byte 512 0 data (new_fuzz relative)"

definition pipeline_byte :: "nat \<Rightarrow> u8 \<Rightarrow> FuzzState \<Rightarrow> FuzzState option" where
  "pipeline_byte i byte st =
     (let b = unat byte; nodes = fz_nodes st; n = length nodes
      in if b mod 2 = 0 then
           Some (fuzz_put_node (''pipe'' @ decimal i) \<lparr>as_command = ''mock'', as_options = [(''byte'', decimal b)]\<rparr> st)
         else if n > 1 then
           Option.bind (vector_back nodes) (\<lambda>f.
           Option.bind (pick nodes (b div 2)) (\<lambda>t.
           Option.bind (vector_back nodes) (\<lambda>target. fuzz_build [target] (fuzz_put_edge f t st))))
         else Some st)"

definition hello_frame :: FipcFrame where
  "hello_frame = \<lparr>fr_type = ft_hello, fr_flags = 0, fr_stream_id = 0, fr_stream_generation = 0, fr_sequence = 0, fr_request_token = 0, fr_payload = []\<rparr>"

definition fuzz_build_pipeline :: "(string \<Rightarrow> string) \<Rightarrow> Bytes \<Rightarrow> (FipcSession \<times> FuzzState) option" where
  "fuzz_build_pipeline relative data =
     map_option (Pair (fst (session_feed (new_session default_limits) (codec_encode hello_frame))))
       (fuzz_loop pipeline_byte 256 0 data (new_fuzz relative))"

function decoder_loop :: "FipcSession \<Rightarrow> Bytes \<Rightarrow> FipcSession" where
  "decoder_loop session data =
     (if data = [] then session
      else
        let chunk = 1 + unat (hd data) mod 17;
            actual = min chunk (length data)
        in case session_feed session (take actual data) of
             (session, Inl _) \<Rightarrow> session
           | (session, Inr _) \<Rightarrow> decoder_loop session (drop actual data))"
  by auto
termination
  by (relation "measure (\<lambda>(_, data). length data)") auto

declare decoder_loop.simps [simp del]

definition fuzz_fipc_decoder :: "Bytes \<Rightarrow> FipcSession" where
  "fuzz_fipc_decoder data = decoder_loop (new_session default_limits) data"

text \<open>The stand-alone programs: each runs its target on a seed, prints a line and returns 0.\<close>

definition smoke :: "string \<Rightarrow> 'a option \<Rightarrow> (nat \<times> string) option" where
  "smoke name run = map_option (\<lambda>_. (0, name @ '' smoke ok'' @ [CHR 0x0A])) run"

definition daemon_events_main :: "(string \<Rightarrow> string) \<Rightarrow> (nat \<times> string) option" where
  "daemon_events_main relative = smoke ''forge_daemon_event_sequence_fuzz'' (fuzz_daemon_events relative [0, 0, 1, 3, 2, 4])"

definition build_pipeline_main :: "(string \<Rightarrow> string) \<Rightarrow> (nat \<times> string) option" where
  "build_pipeline_main relative = smoke ''forge_build_pipeline_fuzz'' (fuzz_build_pipeline relative [0, 2, 4, 5, 7, 9])"

definition fipc_decoder_main :: "(nat \<times> string) option" where
  "fipc_decoder_main = smoke ''forge_fipc_decoder_fuzz'' (Some (fuzz_fipc_decoder (codec_encode hello_frame)))"

section \<open>Workspace targets\<close>

text \<open>The nodes of a target are nodes of the graph.\<close>

definition fuzz_inv :: "nat \<Rightarrow> FuzzState \<Rightarrow> bool" where
  "fuzz_inv n st \<longleftrightarrow> ws_inv n (fz_workspace st) \<and> list_all (sm_contains (bg_nodes (ws_graph (fz_workspace st)))) (fz_nodes st)"

lemma new_fuzz_inv: "fuzz_inv 0 (new_fuzz relative)"
  by (simp add: fuzz_inv_def new_fuzz_def new_workspace_inv)

lemma fuzz_inv_mono: "fuzz_inv n st \<Longrightarrow> n \<le> m \<Longrightarrow> fuzz_inv m st"
  using ws_inv_mono by (auto simp: fuzz_inv_def)

lemma fuzz_inv_step:
  assumes "fuzz_inv n st" "n + 1 < 2 ^ 64 - 1" "ws_step mock_run (fz_workspace st, fz_executor st) op = ((ws, ex), r)"
  shows "ws_inv (n + 1) ws"
  using workspace.simulates [OF _ _ _ assms(3), of n "abstract (fz_workspace st)"] assms(1,2)
  by (auto simp: fuzz_inv_def ws_rel_def)

lemma put_node_contains:
  assumes "put_node g name action = (g', r)"
  shows "sm_contains (bg_nodes g) m \<Longrightarrow> sm_contains (bg_nodes g') m" "r = Inr n \<Longrightarrow> sm_contains (bg_nodes g') n"
  using assms by (auto simp: put_node_def publish_generation_def Let_def sm_contains_def split: if_splits option.splits)

lemma put_edge_contains: "sm_contains (bg_nodes (fst (put_edge g f t kind))) m \<longleftrightarrow> sm_contains (bg_nodes g) m"
  by (auto simp: put_edge_def publish_generation_def Let_def split: option.split)

lemma fuzz_put_node_inv:
  assumes "fuzz_inv n st" "n + 1 < 2 ^ 64 - 1"
  shows "fuzz_inv (n + 1) (fuzz_put_node name action st)"
proof -
  obtain g r where p: "put_node (ws_graph (fz_workspace st)) name action = (g, r)" by fastforce
  have "ws_inv (n + 1) ((fz_workspace st)\<lparr>ws_graph := g\<rparr>)"
    using fuzz_inv_step [OF assms, of "WsNode name action"] p by (auto simp: ws_put_node_def)
  then show ?thesis
    using assms(1) put_node_contains [OF p]
    by (auto simp: fuzz_put_node_def ws_put_node_def p fuzz_inv_def list_all_iff split: sum.split)
qed

lemma fuzz_put_edge_inv:
  assumes "fuzz_inv n st" "n + 1 < 2 ^ 64 - 1"
  shows "fuzz_inv (n + 1) (fuzz_put_edge f t st)"
proof -
  obtain g r where p: "put_edge (ws_graph (fz_workspace st)) f t ek_declared = (g, r)" by fastforce
  have "ws_inv (n + 1) ((fz_workspace st)\<lparr>ws_graph := g\<rparr>)"
    using fuzz_inv_step [OF assms, of "WsEdge f t ek_declared"] p by (auto simp: ws_put_edge_def)
  then show ?thesis
    using assms(1) put_edge_contains [of "ws_graph (fz_workspace st)" f t ek_declared]
    by (auto simp: fuzz_put_edge_def ws_put_edge_def p fuzz_inv_def list_all_iff)
qed

lemma fuzz_build_inv:
  assumes "fuzz_inv n st"
  shows "\<exists>st'. fuzz_build targets st = Some st' \<and> fuzz_inv (n + 1) st'"
  using build_simulated [of n "fz_workspace st" mock_run "fz_executor st" targets] assms
  by (auto simp: fuzz_build_def fuzz_inv_def)

text \<open>A nonempty vector of nodes can be indexed, and what is picked is one of its elements.\<close>

lemma pick_defined: "nodes \<noteq> [] \<Longrightarrow> pick nodes a = Some (nodes ! (a mod length nodes))"
  by (simp add: pick_def size_mod_def vector_at_def)

lemma event_byte_inv:
  assumes "fuzz_inv n st" "n + 1 < 2 ^ 64 - 1"
  shows "\<exists>st'. event_byte i byte st = Some st' \<and> fuzz_inv (n + 1) st'"
proof -
  have "fuzz_inv (n + 1) st" using assms(1) by (rule fuzz_inv_mono) simp
  moreover have "fuzz_inv (n + 1) (fuzz_file path bytes st)" for path bytes
  proof -
    let ?ws = "(fz_workspace st)\<lparr>ws_fs := vfs_write (ws_fs (fz_workspace st)) path bytes\<rparr>"
    have "ws_inv (n + 1) ?ws" using \<open>fuzz_inv (n + 1) st\<close> by (simp add: fuzz_inv_def ws_inv_def)
    from ws_inv_file_event [OF this, of path fek_modify] show ?thesis
      using assms(1) by (simp add: fuzz_file_def fuzz_inv_def file_event_keeps Let_def)
  qed
  moreover have "fuzz_inv (n + 1) (fuzz_advance delta st)" for delta
    using \<open>fuzz_inv (n + 1) st\<close> by (simp add: fuzz_advance_def fuzz_inv_def ws_inv_def)
  ultimately show ?thesis
    using fuzz_put_node_inv [OF assms] fuzz_put_edge_inv [OF assms] fuzz_build_inv [OF assms(1)]
      pick_defined [of "fz_nodes st"]
    by (auto simp: event_byte_def Let_def)
qed

lemma pipeline_byte_inv:
  assumes "fuzz_inv n st" "n + 2 < 2 ^ 64 - 1"
  shows "\<exists>st'. pipeline_byte i byte st = Some st' \<and> fuzz_inv (n + 2) st'"
proof -
  have st: "fuzz_inv (n + 2) st" using assms(1) by (rule fuzz_inv_mono) simp
  have node: "fuzz_inv (n + 2) (fuzz_put_node name action st)" for name action
    by (rule fuzz_inv_mono [OF fuzz_put_node_inv [OF assms(1)]]) (use assms(2) in simp_all)
  have "\<exists>st'. fuzz_build targets (fuzz_put_edge f t st) = Some st' \<and> fuzz_inv (n + 1 + 1) st'" for targets f t
    by (rule fuzz_build_inv [OF fuzz_put_edge_inv [OF assms(1)]]) (use assms(2) in simp)
  then show ?thesis
    using st node pick_defined [of "fz_nodes st"] by (auto simp: pipeline_byte_def vector_back_def Let_def)
qed

text \<open>A loop whose body keeps an invariant at a cost per byte.\<close>

lemma fuzz_loop_inv:
  assumes "\<And>n i b st. \<lbrakk>I n st; n + c < room\<rbrakk> \<Longrightarrow> \<exists>st'. body i b st = Some st' \<and> I (n + c) st'"
    and "\<And>n m st. I n st \<Longrightarrow> n \<le> m \<Longrightarrow> I m st" "c * limit < room"
  shows "I (c * i) st \<Longrightarrow> i \<le> limit \<Longrightarrow> \<exists>st'. fuzz_loop body limit i bs st = Some st' \<and> I (c * limit) st'"
proof (induction bs arbitrary: i st)
  case Nil
  then show ?case using assms(2) [of "c * i" st "c * limit"] by simp
next
  case (Cons b bs)
  show ?case
  proof (cases "i < limit")
    case True
    then have "c * i + c \<le> c * limit" using mult_le_mono2 [of "Suc i" limit c] by simp
    then obtain st' where st': "body i b st = Some st'" "I (c * i + c) st'" using assms(1) [OF Cons.prems(1), of i b] assms(3) by auto
    then show ?thesis using Cons.IH [of "i + 1" st'] True by (simp add: algebra_simps)
  next
    case False
    then show ?thesis using Cons.prems assms(2) [of "c * i" st "c * limit"] by simp
  qed
qed

section \<open>The decoder target\<close>

lemma decoder_loop_chunks: "\<exists>xs. concat xs = data \<and> (data \<noteq> [] \<longrightarrow> xs \<noteq> []) \<and> decoder_loop s data = fst (feed_chunks s xs)"
proof (induction s data rule: decoder_loop.induct)
  case (1 s data)
  show ?case
  proof (cases "data = []")
    case True
    then show ?thesis by (intro exI [of _ "[]"]) (simp add: decoder_loop.simps)
  next
    case False
    let ?n = "min (1 + unat (hd data) mod 17) (length data)"
    obtain s1 r where f: "session_feed s (take ?n data) = (s1, r)" by fastforce
    show ?thesis
    proof (cases r)
      case (Inl e)
      then have "decoder_loop s data = s1" using f False by (simp add: decoder_loop.simps Let_def)
      then show ?thesis using f Inl by (intro exI [of _ "[take ?n data, drop ?n data]"]) simp
    next
      case (Inr evs)
      then obtain xs where xs: "concat xs = drop ?n data" "decoder_loop s1 (drop ?n data) = fst (feed_chunks s1 xs)"
        using 1 [OF False refl refl f [symmetric]] by auto
      have "decoder_loop s data = decoder_loop s1 (drop ?n data)"
        using f False Inr by (subst decoder_loop.simps) (simp add: Let_def)
      then show ?thesis using f Inr xs by (intro exI [of _ "take ?n data # xs"]) (simp add: fst_prepend)
    qed
  qed
qed

lemma feed_chunks_reach: "session_reach lim s \<Longrightarrow> session_reach lim (fst (feed_chunks s xs))"
proof (induction xs arbitrary: s)
  case (Cons x xs)
  obtain s1 r where f: "session_feed s x = (s1, r)" by fastforce
  then have "session_reach lim s1" using session_reach.feed [OF Cons.prems, of x] by simp
  then show ?case using Cons.IH f by (cases r) simp_all
qed simp

section \<open>Properties\<close>

text \<open>
  C38. The workspace fuzz targets are safe on every input: they return, never take a remainder by
  zero and never access an element outside of their vector of nodes, and at the end the workspace is
  well formed and every node the target has kept is a node of its graph. So no input can drive the
  graph, the plans, the builds and the file events into a state that breaks their invariants.
\<close>

theorem fuzz_targets_safe:
  "(\<exists>st. fuzz_daemon_events relative data = Some st \<and> fuzz_inv 512 st) \<and>
   (\<exists>session st. fuzz_build_pipeline relative data = Some (session, st) \<and> fuzz_inv 512 st)"
proof
  show "\<exists>st. fuzz_daemon_events relative data = Some st \<and> fuzz_inv 512 st"
    using fuzz_loop_inv [of fuzz_inv 1 "2 ^ 64 - 1" event_byte 512 0 "new_fuzz relative" data, OF event_byte_inv fuzz_inv_mono]
    by (simp add: fuzz_daemon_events_def new_fuzz_inv)
  show "\<exists>session st. fuzz_build_pipeline relative data = Some (session, st) \<and> fuzz_inv 512 st"
    using fuzz_loop_inv [of fuzz_inv 2 "2 ^ 64 - 1" pipeline_byte 256 0 "new_fuzz relative" data, OF pipeline_byte_inv fuzz_inv_mono]
    by (auto simp: fuzz_build_pipeline_def new_fuzz_inv)
qed

text \<open>
  The decoder target ends in a session that keeps the session invariant, and when the input is
  accepted as a whole and fits the limits, in the session that feeding it at once gives.
\<close>

theorem fuzz_decoder_session:
  assumes "length data \<le> 33554432" "data \<noteq> []"
  shows "session_inv (fuzz_fipc_decoder data)"
    and "session_feed (new_session default_limits) data = (s, Inr evs) \<Longrightarrow> fuzz_fipc_decoder data = s"
proof -
  obtain xs where xs: "concat xs = data" "xs \<noteq> []" "fuzz_fipc_decoder data = fst (feed_chunks (new_session default_limits) xs)"
    using decoder_loop_chunks [of data "new_session default_limits"] assms(2) by (auto simp: fuzz_fipc_decoder_def)
  then show "session_inv (fuzz_fipc_decoder data)"
    using session_reach_inv [OF feed_chunks_reach [OF session_reach.start]] by simp
  obtain y ys where ys: "xs = y # ys" using xs(2) by (cases xs) auto
  show "fuzz_fipc_decoder data = s" if "session_feed (new_session default_limits) data = (s, Inr evs)"
  proof -
    have "session_room (new_session default_limits) (length (concat (y # ys)))"
      using demo_room assms(1) xs(1) ys by simp
    from feed_chunks_concat [OF this] obtain k where
      "session_feed (new_session default_limits) data = apfst (\<lambda>t. with_pending t (concat (drop k ys))) (feed_chunks (new_session default_limits) xs)"
      "isl (snd (feed_chunks (new_session default_limits) xs)) \<or> length ys \<le> k" using xs(1) ys by auto
    then show ?thesis using that xs(3) by (cases "feed_chunks (new_session default_limits) xs") auto
  qed
qed

end
