(* ===== verification/Spec2Isabelle.thy ===== *)
theory Spec2Isabelle
  imports Forge_Cli Forge_Store Forge_Watch Forge_Fuzz
begin

text \<open>
  A verification development of Forge, an incremental build graph daemon written in C++20.

  \<^bold>\<open>The program.\<close> A workspace holds a graph of build nodes and dependency edges. A build plans an order
  of the nodes below its targets, runs one job per action key on an executor and publishes the
  artifacts in a content-addressed store. File events are coalesced and fingerprinted. A manifest
  file describes a graph; the command line builds it. The daemon answers requests over a Unix
  socket, framed by the FIPC protocol; the state log and its file store keep records over crashes.

  \<^bold>\<open>Theories, from the bottom up, and the code each models.\<close>
  \<^item> \<open>Forge_Prelude\<close>: \<^verbatim>\<open>include/forge/error.hpp\<close> and \<^verbatim>\<open>ids.hpp\<close>; errors are values of a sum type (\<open>Inl\<close> the
    status), identifiers and generations are 64-bit words, \<open>std::map\<close> and \<open>std::set\<close> are lists in key
    order behind the locale \<open>ordered_map\<close>; the locale \<open>simulation\<close> lifts the refinement of one step to
    runs of a component, within the room of its counters.
  \<^item> \<open>Forge_Base\<close>: \<^verbatim>\<open>src/base/checked.cpp\<close>, little-endian fields, CRC32C and the digest. The lemmas give
    round trips, that one changed byte changes the checksum and the digest, and that any change
    within four consecutive bytes changes the checksum.
  \<^item> \<open>Forge_Framing\<close>: lemmas on checksummed records that the two codecs share (locale \<open>record_framing\<close>).
  \<^item> \<open>Forge_Fipc\<close>, \<open>Forge_Session\<close>: \<^verbatim>\<open>src/ipc/fipc_codec.cpp\<close> and \<^verbatim>\<open>session.cpp\<close>. The decoder accepts exactly
    what the encoder writes; sessions do not depend on how the bytes are split; sequence numbers,
    idempotency tokens, stream generations and credit behave as the protocol wants.
  \<^item> \<open>Forge_Credit\<close>, \<open>Forge_Tokens\<close>: the interfaces of byte credit (\<open>credit_ledger\<close>) and of counters that
    only accept the newest token (\<open>token_issuer\<close>), with the lemmas their providers share.
  \<^item> \<open>Forge_State\<close>, \<open>Forge_Recovery\<close>: \<^verbatim>\<open>src/state/state_codec.cpp\<close>, \<^verbatim>\<open>append_log.cpp\<close> and \<^verbatim>\<open>recovery.cpp\<close>. A torn
    or corrupted log recovers exactly the transactions before the damage.
  \<^item> \<open>Forge_Store\<close>: \<^verbatim>\<open>src/state/file_state_store.cpp\<close> on a map of files. Any sequence of appends and
    checkpoints, with failing, throwing and partial calls, refines an atomic store (\<open>atomic_step\<close>), in which
    an error after two failed renames may lose a file. Left out of the runs is only a failing \<open>exists\<close>
    on the log in an append (lemma \<open>failed_stat_reads_empty\<close> shows what it does to recovery).
  \<^item> \<open>Forge_Graph\<close>, \<open>Forge_Cycle\<close>: \<^verbatim>\<open>src/graph/*.cpp\<close>. The graph invariant, the reverse closure as the set
    of transitive dependents, action keys, and exact cycle detection.
  \<^item> \<open>Forge_Event\<close>, \<open>Forge_Artifact\<close>, \<open>Forge_Executor\<close>, \<open>Forge_Inputs\<close>: \<^verbatim>\<open>src/event/event_hub.cpp\<close>, \<^verbatim>\<open>src/artifact/*.cpp\<close>,
    \<^verbatim>\<open>src/execute/executor_manager.cpp\<close> and \<^verbatim>\<open>mock_executor.cpp\<close>, and the path policy, virtual file system
    and file event coalescer of \<^verbatim>\<open>src/workspace\<close>.
  \<^item> \<open>Forge_Workspace\<close>: \<^verbatim>\<open>src/workspace/workspace.cpp\<close>, which composes them: plans are dependency orders,
    and builds with any executor return, refuse cycles and unknown targets and report their plan.
  \<^item> \<open>Forge_Runs\<close>: any interleaving of the operations of a workspace, with direct calls on the hub, the store,
    the files and the clock that it hands out, refines a machine on its graph, its request number and
    its open streams alone (\<open>graph_machine\<close>); the invariant of the workspace.
  \<^item> \<open>Forge_Fuzz\<close>: \<^verbatim>\<open>fuzz/*.cpp\<close>, the fuzz targets, which return and keep the invariants on every input; a
    remainder by zero and an index outside of a vector are \<open>None\<close>, so returning excludes them.
  \<^item> \<open>Forge_Manifest\<close>, \<open>Forge_Apply\<close>: \<^verbatim>\<open>src/workspace/manifest.cpp\<close>. The parser inverts a printer on exactly
    the well-formed manifests, errors name their line, and applying a manifest yields its graph.
  \<^item> \<open>Forge_Watch\<close>: \<^verbatim>\<open>src/workspace/inotify_watcher.cpp\<close>.
  \<^item> \<open>Forge_Daemon\<close>: \<^verbatim>\<open>src/ipc/server.cpp\<close>, \<^verbatim>\<open>client.cpp\<close>, \<^verbatim>\<open>include/forge/daemon.hpp\<close> and \<^verbatim>\<open>client.hpp\<close>.
  \<^item> \<open>Forge_Cli\<close>: \<^verbatim>\<open>src/cli/*.cpp\<close>, a run of a program as its exit code and what it prints.
  \<^item> This theory: the properties of whole runs of the programs.

  \<^bold>\<open>State and operations.\<close> A class is a record with the fields of the class, a method is a function
  that takes the record and returns it updated with its result. Integers have the width of the
  source and wrap around. Calls into the operating system are parameters: files are maps from names
  to bytes, an operation that touches them takes a value that says which call fails or throws (an
  exception of \<open>std::filesystem\<close> is the error value \<open>filesystem_exception\<close>), and the results
  of \<open>send\<close>, \<open>recv\<close>, \<open>poll\<close> and \<open>read\<close> are lists that the loops consume. The executor of a build is a pair of
  functions with the interface \<open>executor\<close>; \<open>std::filesystem::relative\<close> is an argument of the path policy.

  \<^bold>\<open>Fuel and loops.\<close> The two depth-first searches take fuel, the number of nodes of the graph; the theorems
  \<open>cycle_witness_exact\<close> and \<open>plan_order_dependency_order\<close> show that it is enough, since every recursive
  call visits a new node. All other loops are recursions with a termination proof. A loop that
  waits for the operating system returns \<open>None\<close> when the list of results runs out.

  \<^bold>\<open>Not modelled.\<close> The translation units that hold only static assertions (\<^verbatim>\<open>src/schedule\<close>, \<^verbatim>\<open>discovery.cpp\<close>,
  \<^verbatim>\<open>subprocess_executor.cpp\<close>, \<^verbatim>\<open>explanation.cpp\<close>, \<^verbatim>\<open>checkpoint.cpp\<close>, \<^verbatim>\<open>compact.cpp\<close>, \<^verbatim>\<open>virtual_clock.cpp\<close>, \<^verbatim>\<open>id.cpp\<close>) have no
  behaviour; the Windows branches of the socket and inotify
  code only return an error; exhaustion of memory is left out.
\<close>

section \<open>Properties of the programs\<close>

text \<open>
  C3. The exit code of \<open>forge build MANIFEST [TARGETS]\<close> tells whether the manifest can be built: the
  program always returns, with code 2 when the file cannot be opened; otherwise with code 0 exactly
  when the text parses, every edge and every target, in the manifest and on the command line, names a
  node and the dependencies have no cycle; and with code 3 in all other cases. The text is shorter
  than \<open>2 ^ 64 - 1\<close> characters.
\<close>

theorem build_exit_code:
  assumes "\<And>input. files path = Some input \<Longrightarrow> length input < 2 ^ 64 - 1"
  shows "\<exists>out err. forge_main files relative status (prog # ''build'' # path # args) =
    Some (case files path of None \<Rightarrow> 2 | Some input \<Rightarrow>
      if \<exists>m. parse_manifest input = Inr m \<and> edges_known m \<and> targets_known m \<and> acyclic (manifest_depends m) \<and> set args \<subseteq> manifest_names m
      then 0 else 3, out, err)"
proof (cases "files path")
  case None
  then show ?thesis by (simp add: forge_main_def cmd_build_def fails_def)
next
  case (Some input)
  show ?thesis
  proof (cases "parse_manifest input")
    case (Inl e)
    then show ?thesis using Some by (simp add: forge_main_def cmd_build_def fails_def)
  next
    case (Inr m)
    then show ?thesis using cmd_build_manifest [of input m files path relative "''build''" args] Some assms [OF Some]
      by (simp add: forge_main_def buildable_def)
  qed
qed

definition demo_files :: "string \<Rightarrow> string option" where
  "demo_files path = (if path = ''m'' then Some (print_manifest demo_manifest) else None)"

theorem build_exit_code_witness:
  "(\<exists>out err. forge_main demo_files (\<lambda>p. p) (\<lambda>_. None) [''forge'', ''build'', ''m''] = Some (0, out, err)) \<and>
   (\<exists>out err. forge_main demo_files (\<lambda>p. p) (\<lambda>_. None) [''forge'', ''build'', ''m'', ''nothing''] = Some (3, out, err)) \<and>
   (\<exists>out err. forge_main demo_files (\<lambda>p. p) (\<lambda>_. None) [''forge'', ''build'', ''x''] = Some (2, out, err))"
proof -
  have "acyclic (manifest_depends demo_manifest)"
    by (simp add: manifest_depends_def demo_manifest_def acyclic_insert) (simp add: acyclic_def)
  then have ok: "\<exists>m. parse_manifest (print_manifest demo_manifest) = Inr m \<and> edges_known m \<and> targets_known m \<and> acyclic (manifest_depends m) \<and>
      set [] \<subseteq> manifest_names m"
    using print_manifest_parses [OF demo_manifest_ok(1)] demo_manifest_ok(2,3) by auto
  have unknown: "\<not> (\<exists>m. parse_manifest (print_manifest demo_manifest) = Inr m \<and> edges_known m \<and> targets_known m \<and> acyclic (manifest_depends m) \<and>
      set [''nothing''] \<subseteq> manifest_names m)"
    using print_manifest_parses [OF demo_manifest_ok(1)] by (simp add: manifest_names_def demo_manifest_def)
  have "length (print_manifest demo_manifest) = 57"
    by (simp add: print_manifest_def manifest_tokens_def node_tokens_def edge_tokens_def option_token_def demo_manifest_def)
  then have len: "length input < 2 ^ 64 - 1" if "demo_files path = Some input" for path input
    using that by (auto simp: demo_files_def split: if_splits)
  have files: "demo_files ''m'' = Some (print_manifest demo_manifest)" "demo_files ''x'' = None" by (simp_all add: demo_files_def)
  have run: "\<exists>out err. forge_main demo_files (\<lambda>p. p) (\<lambda>_. None) (''forge'' # ''build'' # path # args) =
    Some (case demo_files path of None \<Rightarrow> 2 | Some input \<Rightarrow>
      if \<exists>m. parse_manifest input = Inr m \<and> edges_known m \<and> targets_known m \<and> acyclic (manifest_depends m) \<and> set args \<subseteq> manifest_names m
      then 0 else 3, out, err)" for path args
    by (rule build_exit_code) (rule len)
  show ?thesis
    using run [of "''m''" "[]"] run [of "''m''" "[''nothing'']"] run [of "''x''" "[]"]
    unfolding files option.case by (simp only: ok unknown if_True if_False)
qed

text \<open>The daemon that \<open>forged\<close> has started.\<close>

definition running_daemon :: "(string \<Rightarrow> string) \<Rightarrow> Daemon" where
  "running_daemon relative = (new_daemon relative)\<lparr>dm_state := das_running\<rparr>"

lemma running_status: "status_text (running_daemon relative) = message_line ''state=running generation=1''"
proof -
  have "decimal 1 = ''1''" by code_simp
  then show ?thesis by (simp add: status_text_def running_daemon_def new_daemon_def new_graph_def gen_default_def message_line_def)
qed

definition calls_succeed :: "start_calls \<Rightarrow> bool" where
  "calls_succeed calls \<longleftrightarrow> sc_mkdir_ok calls \<and> isl (sc_socket calls) \<and> sc_bind calls = None \<and> sc_listen calls = None"

lemma server_starts:
  assumes "calls_succeed calls" "length path < sun_path_size"
  obtains u where "server_start calls (new_server path (new_daemon relative) file_exists) = (u, Inr ())"
    "us_listen_fd u \<ge> 0" "us_daemon u = running_daemon relative" "us_path u = path"
  using assms by (cases "sc_socket calls")
    (auto simp: calls_succeed_def server_start_def new_server_def daemon_start_def new_daemon_def socket_address_def running_daemon_def Let_def)

text \<open>
  C10. The daemon and the command line together: when the calls that open the socket succeed and a
  client sends the bytes of a status request, however these and the reply are split and the calls
  are interrupted, \<open>forged --socket PATH --once\<close> starts the server, answers the request, stops the
  daemon and exits with code 0, and \<open>forge status --socket PATH\<close> that reads the bytes this server sent
  prints that the daemon is running, with the generation of its graph, and exits with code 0.
\<close>

theorem forged_answers_status:
  assumes "calls_succeed calls" "length path < sun_path_size"
    and "list_all recv_ok requests" "received requests = status_request"
    and "sends_enough (length (status_reply (running_daemon relative))) sends"
    and "list_all recv_ok replies" "sends_enough (length status_request) client_sends"
  shows "\<exists>u wire d. server_start calls (new_server path (new_daemon relative) file_exists) = (u, Inr ()) \<and>
    serve_once (Inl ()) requests sends u = Some (wire, Inr ()) \<and>
    forged_main relative file_exists calls [(Inl (), requests, sends)] [''--socket'', path, ''--once''] =
      Some ((0, message_line (''forged socket='' @ path), []), d) \<and> dm_state d = das_stopped \<and>
    (received replies = wire \<longrightarrow>
     forge_main files root (\<lambda>p. map_option snd (client_status connected p client_sends replies)) [prog, ''status'', ''--socket'', path] =
       Some (0, message_line ''state=running generation=1'', []))"
proof -
  obtain u where u: "server_start calls (new_server path (new_daemon relative) file_exists) = (u, Inr ())"
    "us_listen_fd u \<ge> 0" "us_daemon u = running_daemon relative" by (rule server_starts [OF assms(1,2)])
  obtain wire where wire: "serve_once (Inl ()) requests sends u = Some (wire, Inr ())"
    "received replies = wire \<longrightarrow> client_status connected path client_sends replies = Some (status_request, Inr (status_text (us_daemon u)))"
    using status_exchange [OF u(2) assms(2-4) _ assms(6,7)] assms(5) u(3) by auto
  let ?d = "us_daemon (server_destroy (fst (server_stop u)))"
  have "forged_main relative file_exists calls [(Inl (), requests, sends)] [''--socket'', path, ''--once''] =
      Some ((0, message_line (''forged socket='' @ path), []), ?d)"
    using u(1) wire(1) by (simp add: forged_main_def Let_def exits_def server_stop_def daemon_stop_def)
  moreover have "dm_state ?d = das_stopped" by (simp add: server_destroy_def server_stop_state)
  ultimately show ?thesis
    using u(1) wire running_status [of relative] u(3) by (auto simp: forge_main_def cmd_status_def exits_def)
qed

definition demo_calls :: start_calls where
  "demo_calls = \<lparr>sc_mkdir_ok = True, sc_socket = Inl 3, sc_bind = None, sc_listen = None\<rparr>"

theorem forged_answers_status_witness:
  "(\<exists>d. forged_main (\<lambda>p. p) True demo_calls [(Inl (), [RecvInterrupted, Received status_request], replicate 200 (Sent 9))]
       [''--socket'', ''s'', ''--once''] = Some ((0, message_line ''forged socket=s'', []), d)) \<and>
   forge_main demo_files (\<lambda>p. p) (\<lambda>p. map_option snd (client_status connected p (replicate 200 (Sent 9))
       [Received (status_reply (running_daemon (\<lambda>p. p)))])) [''forge'', ''status'', ''--socket'', ''s''] =
     Some (0, message_line ''state=running generation=1'', [])"
proof -
  let ?d = "running_daemon (\<lambda>p. p)" and ?requests = "[RecvInterrupted, Received status_request]"
  have n: "length (status_reply ?d) \<le> 200" "length (status_reply ?d) \<noteq> 0"
    using length_status_text [of ?d] by (simp_all add: status_reply_def welcome_frame_def status_frame_def)
  then have sends: "sends_enough (length (status_reply ?d)) (replicate 200 (Sent 9))" "sends_enough (length status_request) (replicate 200 (Sent 9))"
    using length_status_request sends_enough_replicate by simp_all
  have ne: "status_request \<noteq> []" "status_reply ?d \<noteq> []" using length_status_request n(2) by auto
  then have recvs: "list_all recv_ok ?requests" "received ?requests = status_request" "list_all recv_ok [Received (status_reply ?d)]"
    by (simp_all add: recv_ok_def)
  have start: "calls_succeed demo_calls" "length ''s'' < sun_path_size" by (simp_all add: calls_succeed_def demo_calls_def sun_path_size_def)
  obtain u where u: "server_start demo_calls (new_server ''s'' (new_daemon (\<lambda>p. p)) True) = (u, Inr ())" "us_listen_fd u \<ge> 0" "us_daemon u = ?d"
    by (rule server_starts [OF start])
  have "serve_once (Inl ()) ?requests (replicate 200 (Sent 9)) u = Some (status_reply ?d, Inr ())"
    using u(2,3) serve_status_request [OF recvs(1,2)] sends(1) by (simp add: serve_once_def)
  then show ?thesis
    using forged_answers_status [OF start recvs(1,2) sends(1) recvs(3) sends(2), of True demo_files "\<lambda>p. p" "''forge''"] u(1) by auto
qed

text \<open>
  Without \<open>--once\<close> the daemon serves one connection after the other, but the first one that fails, for
  example because its client closes it early or breaks the protocol, ends the program with code 10.
\<close>

lemma serve_all_good:
  "list_all (\<lambda>(conn, recvs, sends). \<exists>wire. serve_once conn recvs sends u = Some (wire, Inr ())) conns
   \<Longrightarrow> serve_all False u (conns @ rest) = serve_all False u rest"
  by (induction conns) (auto split: prod.splits)

lemma bad_client_ends_daemon:
  assumes "calls_succeed calls" "length path < sun_path_size"
    and "server_start calls (new_server path (new_daemon relative) file_exists) = (u, Inr ())"
    and "list_all (\<lambda>(conn, recvs, sends). \<exists>wire. serve_once conn recvs sends u = Some (wire, Inr ())) conns"
    and "serve_once conn recvs sends u = Some (wire, Inl e)"
  shows "\<exists>d. forged_main relative file_exists calls (conns @ (conn, recvs, sends) # rest) [''--socket'', path] =
    Some ((10, message_line (''forged socket='' @ path), message_line (message e)), d)"
  using assms serve_all_good [OF assms(4)] by (simp add: forged_main_def Let_def)

end
